(* ===== verification/Kernel_Prelude.thy ===== *)
theory Kernel_Prelude
  imports Main "HOL-Library.Word" "HOL-Library.Monad_Syntax"
begin

text \<open>
  Vocabulary shared by the component theories.

  A C function of the kernel is modelled by a HOL function whose result type says how the call
  can end.  The type \<open>'a outcome\<close> is \<open>'a option\<close>: \<open>None\<close> is a run that stops the machine
  (a failed \<^verbatim>\<open>assert\<close>, a \<^verbatim>\<open>panic\<close>, or an access outside an object, which the language leaves
  undefined), \<open>Some\<close> is an ordinary return.  The \<open>do\<close> notation of \<open>Monad_Syntax\<close> sequences such
  calls.  An error return (a nonzero errno) is \<open>Inl\<close> of a sum, a success is \<open>Inr\<close>.  Whether a
  call of \<^verbatim>\<open>kmalloc\<close> made by a component yields memory is an argument of the operation
  (\<open>mem_ok\<close>), except in the theory of the allocator itself.
\<close>

section \<open>Outcomes and errors\<close>

type_synonym 'a outcome = "'a option"

datatype errno =
    EINVAL | EFAULT | ENAMETOOLONG | ENOMEM | EIO | ENOENT | ENOTDIR | EISDIR | EEXIST
  | EXDEV | EAGAIN | ESPIPE | EUNIMP | ENXIO | ENODEV | EBUSY | EIOCTL | ENOTEMPTY | ERANGE
  | ENOSPC | EMFILE | ENFILE | ENOSYS | ENOEXEC | E2BIG | EBADF

text \<open>The numbers of \<^verbatim>\<open>kern/errno.h\<close>.\<close>

fun errno_code :: "errno \<Rightarrow> int" where
  "errno_code EINVAL = 1"
| "errno_code EFAULT = 2"
| "errno_code ENAMETOOLONG = 3"
| "errno_code ENOMEM = 4"
| "errno_code EIO = 5"
| "errno_code ENOENT = 6"
| "errno_code ENOTDIR = 7"
| "errno_code EISDIR = 8"
| "errno_code EEXIST = 9"
| "errno_code EXDEV = 10"
| "errno_code EAGAIN = 11"
| "errno_code ESPIPE = 12"
| "errno_code EUNIMP = 13"
| "errno_code ENXIO = 14"
| "errno_code ENODEV = 15"
| "errno_code EBUSY = 16"
| "errno_code EIOCTL = 17"
| "errno_code ENOTEMPTY = 18"
| "errno_code ERANGE = 19"
| "errno_code ENOSPC = 20"
| "errno_code EMFILE = 21"
| "errno_code ENFILE = 22"
| "errno_code ENOSYS = 23"
| "errno_code ENOEXEC = 24"
| "errno_code E2BIG = 25"
| "errno_code EBADF = 26"

text \<open>The kernel's \<^verbatim>\<open>assert\<close> macro of \<^verbatim>\<open>lib.h\<close>.\<close>

definition kassert :: "bool \<Rightarrow> unit outcome" where
  "kassert b = (if b then Some () else None)"

lemma kassert_simps [simp]:
  "kassert True = Some ()"
  "kassert False = None"
  by (simp_all add: kassert_def)

lemma kassert_eq [simp]:
  "kassert b = Some u \<longleftrightarrow> b"
  "kassert b = None \<longleftrightarrow> \<not> b"
  by (simp_all add: kassert_def)

lemma kassert_bind_Some [simp]:
  "(kassert b \<bind> f = Some y) \<longleftrightarrow> (b \<and> f () = Some y)"
  by (cases b) simp_all

lemma kassert_bind_True [simp]: "b \<Longrightarrow> kassert b \<bind> f = f ()"
  by simp

lemma kassert_bind_None [simp]:
  "(kassert b \<bind> f = None) \<longleftrightarrow> (b \<longrightarrow> f () = None)"
  by (cases b) simp_all

text \<open>
  The idiom \<^verbatim>\<open>result = f(...); if (result) return result;\<close> for a call that also changes a state.
\<close>

definition try_ok ::
  "((errno + 'a) \<times> 's) outcome \<Rightarrow> ('a \<Rightarrow> 's \<Rightarrow> ((errno + 'b) \<times> 's) outcome) \<Rightarrow> ((errno + 'b) \<times> 's) outcome" where
  "try_ok r k = (case r of None \<Rightarrow> None | Some (Inl e, s) \<Rightarrow> Some (Inl e, s) | Some (Inr x, s) \<Rightarrow> k x s)"

lemma try_ok_simps [simp]:
  "try_ok None k = None" "try_ok (Some (Inl e, s)) k = Some (Inl e, s)" "try_ok (Some (Inr x, s)) k = k x s"
  by (simp_all add: try_ok_def)

section \<open>Reading and writing cells of an object\<close>

text \<open>
  An access \<^verbatim>\<open>p[i]\<close> to an object of \<^verbatim>\<open>length xs\<close> cells; outside the object the run is stuck.
\<close>

definition load_cell :: "'a list \<Rightarrow> nat \<Rightarrow> 'a outcome" where
  "load_cell xs i = (if i < length xs then Some (xs ! i) else None)"

definition store_cell :: "'a list \<Rightarrow> nat \<Rightarrow> 'a \<Rightarrow> 'a list outcome" where
  "store_cell xs i x = (if i < length xs then Some (xs[i := x]) else None)"

lemma load_cell_Some_iff [simp]:
  "load_cell xs i = Some x \<longleftrightarrow> i < length xs \<and> xs ! i = x"
  by (auto simp: load_cell_def)

lemma load_cell_in [simp]: "i < length xs \<Longrightarrow> load_cell xs i = Some (xs ! i)"
  by (simp add: load_cell_def)

lemma load_cell_out [simp]: "length xs \<le> i \<Longrightarrow> load_cell xs i = None"
  by (simp add: load_cell_def)

lemma store_cell_Some_iff [simp]:
  "store_cell xs i x = Some ys \<longleftrightarrow> i < length xs \<and> ys = xs[i := x]"
  by (auto simp: store_cell_def)

lemma store_cell_in [simp]: "i < length xs \<Longrightarrow> store_cell xs i x = Some (xs[i := x])"
  by (simp add: store_cell_def)

section \<open>Unsigned 32-bit arithmetic on naturals\<close>

definition u32_max :: nat where
  "u32_max = 2 ^ 32"

text \<open>\<^verbatim>\<open>DIVROUNDUP(a,b)\<close> of \<^verbatim>\<open>lib.h\<close> on \<^verbatim>\<open>u_int32_t\<close>, with the wrap-around of the addition.\<close>

definition divroundup :: "nat \<Rightarrow> nat \<Rightarrow> nat" where
  "divroundup a b = ((a + b - 1) mod u32_max) div b"

lemma divroundup_no_wrap: "a + b - 1 < u32_max \<Longrightarrow> divroundup a b = (a + b - 1) div b"
  by (simp add: divroundup_def)

lemma divroundup_8: "a + 7 < u32_max \<Longrightarrow> divroundup a 8 = (a + 7) div 8"
  by (simp add: divroundup_def)

section \<open>Signed 32-bit arithmetic on integers\<close>

text \<open>The value an \<^verbatim>\<open>int\<close> of the target holds after an operation whose exact result is \<open>x\<close>.\<close>

definition wrap32 :: "int \<Rightarrow> int" where
  "wrap32 x = (x + 2 ^ 31) mod 2 ^ 32 - 2 ^ 31"

lemma wrap32_id: "- (2 ^ 31) \<le> x \<Longrightarrow> x < 2 ^ 31 \<Longrightarrow> wrap32 x = x"
  by (simp add: wrap32_def)

text \<open>The values of type \<^verbatim>\<open>int\<close>.\<close>

definition int_ok :: "int \<Rightarrow> bool" where
  "int_ok x \<longleftrightarrow> - (2 ^ 31) \<le> x \<and> x < 2 ^ 31"

section \<open>Generic list facts\<close>

lemma nth_append_take_drop_Suc:
  "i < length xs \<Longrightarrow> take i xs @ xs ! i # drop (Suc i) xs = xs"
  by (rule id_take_nth_drop [symmetric])

lemma list_update_take_drop:
  "i < length xs \<Longrightarrow> xs[i := x] = take i xs @ x # drop (Suc i) xs"
  by (rule upd_conv_take_nth_drop)

lemma find_upt_Some_iff:
  "find Q [0..<n] = Some k \<longleftrightarrow> k < n \<and> Q k \<and> (\<forall>j < k. \<not> Q j)"
  unfolding find_Some_iff by (auto cong: conj_cong)

lemma find_upt_None_iff: "find Q [0..<n] = None \<longleftrightarrow> (\<forall>k < n. \<not> Q k)"
  by (auto simp: find_None_iff)

lemma take_Suc_update:
  "n < length xs \<Longrightarrow> take (Suc n) (xs[n := x]) = take n xs @ [x]"
  by (simp add: take_Suc_conv_app_nth)

end
