(* ===== verification/KArray.thy ===== *)
theory KArray
  imports Kernel_Prelude
begin

text \<open>
  The kernel's growable array of pointers (\<^verbatim>\<open>kern/lib/array.c\<close>).  The pointer \<^verbatim>\<open>v\<close> is \<open>None\<close> for
  \<^verbatim>\<open>NULL\<close>, or the block of cells it points to; a cell that \<^verbatim>\<open>kmalloc\<close> handed out and nobody
  wrote yet is \<open>None\<close>, and reading it is stuck.  The abstraction \<open>array_guys\<close> is the list of the
  first \<^verbatim>\<open>num\<close> pointers.  The locale \<open>dyn_array\<close> is the interface that the thread system, the
  process table and the file systems rely on.
\<close>

section \<open>Model\<close>

record 'a karray =
  arr_num :: int
  arr_max :: int
  arr_v :: "'a option list option"

definition array_create :: "bool \<Rightarrow> 'a karray option" where
  "array_create mem_ok =
     (if mem_ok then Some \<lparr>arr_num = 0, arr_max = 0, arr_v = None\<rparr> else None)"

definition array_getnum :: "'a karray \<Rightarrow> int" where
  "array_getnum a = arr_num a"

text \<open>The cells behind \<^verbatim>\<open>a->v\<close>; a null pointer has none, so every access through it is stuck.\<close>

definition arr_cells :: "'a karray \<Rightarrow> 'a option list" where
  "arr_cells a = (case arr_v a of None \<Rightarrow> [] | Some cells \<Rightarrow> cells)"

definition array_getguy :: "'a karray \<Rightarrow> int \<Rightarrow> 'a outcome" where
  "array_getguy a index = do {
     kassert (arr_num a \<le> arr_max a);
     kassert (0 \<le> index \<and> index < arr_num a);
     cell \<leftarrow> load_cell (arr_cells a) (nat index);
     cell
   }"

text \<open>
  The loop \<^verbatim>\<open>while (nguys > newmax) newmax = (newmax+1)*2\<close>, stuck where the signed product leaves
  the 32-bit range.
\<close>

function array_newmax :: "int \<Rightarrow> int \<Rightarrow> int outcome" where
  "array_newmax newmax nguys =
     (if nguys \<le> newmax then Some newmax
      else if newmax < 0 \<or> 2 ^ 31 \<le> (newmax + 1) * 2 then None
      else array_newmax ((newmax + 1) * 2) nguys)"
  by pat_completeness auto
termination
  by (relation "measure (\<lambda>(newmax, nguys). nat (2 ^ 31 - newmax))") auto

declare array_newmax.simps [simp del]

text \<open>The loop \<^verbatim>\<open>for (i=0; i<n; i++) dst[i] = src[i]\<close>.\<close>

fun copy_cells :: "nat \<Rightarrow> 'a list \<Rightarrow> 'a list \<Rightarrow> 'a list outcome" where
  "copy_cells 0 src dst = Some dst"
| "copy_cells (Suc n) src dst = do {
     dst' \<leftarrow> copy_cells n src dst;
     x \<leftarrow> load_cell src n;
     store_cell dst' n x
   }"

definition array_preallocate :: "bool \<Rightarrow> 'a karray \<Rightarrow> int \<Rightarrow> ((errno + unit) \<times> 'a karray) outcome" where
  "array_preallocate mem_ok a nguys = do {
     kassert (0 \<le> arr_num a \<and> arr_num a \<le> arr_max a);
     newmax \<leftarrow> array_newmax (arr_max a) nguys;
     if \<not> mem_ok then Some (Inl ENOMEM, a)
     else do {
       newv \<leftarrow> copy_cells (nat (arr_num a)) (arr_cells a) (replicate (nat newmax) None);
       Some (Inr (), a\<lparr>arr_max := newmax, arr_v := Some newv\<rparr>)
     }
   }"

definition array_setsize :: "bool \<Rightarrow> 'a karray \<Rightarrow> int \<Rightarrow> ((errno + unit) \<times> 'a karray) outcome" where
  "array_setsize mem_ok a nguys = do {
     kassert (0 \<le> arr_num a \<and> arr_num a \<le> arr_max a);
     if nguys > arr_max a then do {
       (result, a1) \<leftarrow> array_preallocate mem_ok a nguys;
       case result of
         Inl e \<Rightarrow> Some (Inl e, a1)
       | Inr _ \<Rightarrow> Some (Inr (), a1\<lparr>arr_num := nguys\<rparr>)
     }
     else if nguys = 0 \<and> arr_max a > 16 then do {
       kassert (arr_v a \<noteq> None);
       Some (Inr (), a\<lparr>arr_v := None, arr_max := 0, arr_num := nguys\<rparr>)
     }
     else Some (Inr (), a\<lparr>arr_num := nguys\<rparr>)
   }"

definition array_setguy :: "'a karray \<Rightarrow> int \<Rightarrow> 'a \<Rightarrow> 'a karray outcome" where
  "array_setguy a index ptr = do {
     kassert (arr_num a \<le> arr_max a);
     kassert (0 \<le> index \<and> index < arr_num a);
     cells \<leftarrow> store_cell (arr_cells a) (nat index) (Some ptr);
     Some (a\<lparr>arr_v := Some cells\<rparr>)
   }"

definition array_add :: "bool \<Rightarrow> 'a karray \<Rightarrow> 'a \<Rightarrow> ((errno + unit) \<times> 'a karray) outcome" where
  "array_add mem_ok a guy = do {
     let ix = arr_num a;
     (result, a1) \<leftarrow> array_setsize mem_ok a (ix + 1);
     case result of
       Inl e \<Rightarrow> Some (Inl e, a1)
     | Inr _ \<Rightarrow> do {
         cells \<leftarrow> store_cell (arr_cells a1) (nat ix) (Some guy);
         Some (Inr (), a1\<lparr>arr_v := Some cells\<rparr>)
       }
   }"

text \<open>
  \<^verbatim>\<open>memmove(v+dst, v+src, n*sizeof(void *))\<close> inside one block of cells.
\<close>

definition move_cells :: "'a list \<Rightarrow> nat \<Rightarrow> nat \<Rightarrow> nat \<Rightarrow> 'a list outcome" where
  "move_cells cells dst src n =
     (if src + n \<le> length cells \<and> dst + n \<le> length cells
      then Some (take dst cells @ take n (drop src cells) @ drop (dst + n) cells)
      else None)"

definition array_remove :: "'a karray \<Rightarrow> int \<Rightarrow> 'a karray outcome" where
  "array_remove a index = do {
     kassert (arr_num a \<le> arr_max a);
     kassert (0 \<le> index \<and> index < arr_num a);
     let nmove = arr_num a - (index + 1);
     cells \<leftarrow> move_cells (arr_cells a) (nat index) (nat (index + 1)) (nat nmove);
     Some (a\<lparr>arr_v := Some cells, arr_num := arr_num a - 1\<rparr>)
   }"

text \<open>The blocks that \<^verbatim>\<open>array_destroy\<close> gives back to the allocator.\<close>

datatype array_block = Array_Cells | Array_Struct

definition array_destroy :: "'a karray \<Rightarrow> array_block list" where
  "array_destroy a = (if arr_v a \<noteq> None then [Array_Cells] else []) @ [Array_Struct]"

text \<open>
  The search loop that the clients write: \<^verbatim>\<open>for (i=start; i<num; i++) if (P(array_getguy(a,i))) break;\<close>
  The result is the index where the loop stopped early, \<open>None\<close> inside if it ran to the end.
\<close>

function array_scan :: "(int \<Rightarrow> 'a outcome) \<Rightarrow> ('a \<Rightarrow> bool) \<Rightarrow> int \<Rightarrow> int \<Rightarrow> int option outcome" where
  "array_scan getguy P i n =
     (if i < n then do {
        x \<leftarrow> getguy i;
        if P x then Some (Some i) else array_scan getguy P (i + 1) n
      }
      else Some None)"
  by pat_completeness auto
termination
  by (relation "measure (\<lambda>(g, P, i, n). nat (n - i))") auto

declare array_scan.simps [simp del]

section \<open>Well-formedness and abstraction\<close>

definition array_ok :: "'a karray \<Rightarrow> bool" where
  "array_ok a \<longleftrightarrow>
     0 \<le> arr_num a \<and> arr_num a \<le> arr_max a \<and> int (length (arr_cells a)) = arr_max a \<and>
     None \<notin> set (take (nat (arr_num a)) (arr_cells a))"

definition array_guys :: "'a karray \<Rightarrow> 'a list" where
  "array_guys a = map the (take (nat (arr_num a)) (arr_cells a))"

lemma arr_cells_upd [simp]:
  "arr_cells (a\<lparr>arr_v := Some cells\<rparr>) = cells"
  "arr_cells (a\<lparr>arr_num := n\<rparr>) = arr_cells a"
  "arr_cells (a\<lparr>arr_max := n\<rparr>) = arr_cells a"
  by (simp_all add: arr_cells_def)

lemma array_ok_upd:
  "array_ok (a\<lparr>arr_v := Some cells, arr_num := n\<rparr>) \<longleftrightarrow>
     0 \<le> n \<and> n \<le> arr_max a \<and> int (length cells) = arr_max a \<and> None \<notin> set (take (nat n) cells)"
  by (simp add: array_ok_def arr_cells_def)

lemma array_guys_upd:
  "array_guys (a\<lparr>arr_v := Some cells, arr_num := n\<rparr>) = map the (take (nat n) cells)"
  by (simp add: array_guys_def arr_cells_def)

lemma array_ok_create: "array_create mem_ok = Some a \<Longrightarrow> array_ok a \<and> array_guys a = []"
  by (auto simp: array_create_def array_ok_def array_guys_def arr_cells_def split: if_splits)

lemma array_ok_num: "array_ok a \<Longrightarrow> array_getnum a = int (length (array_guys a))"
  by (auto simp: array_ok_def array_guys_def array_getnum_def)

lemma array_cells_nth:
  assumes "array_ok a" and "i < length (array_guys a)"
  shows "i < length (arr_cells a)" and "arr_cells a ! i = Some (array_guys a ! i)"
proof -
  from assms have i: "i < nat (arr_num a)" and len: "nat (arr_num a) \<le> length (arr_cells a)"
    by (auto simp: array_ok_def array_guys_def)
  then show "i < length (arr_cells a)" by simp
  from i len have "arr_cells a ! i \<in> set (take (nat (arr_num a)) (arr_cells a))"
    by (auto simp: in_set_conv_nth)
  with assms(1) have "arr_cells a ! i \<noteq> None" by (metis array_ok_def)
  with i len show "arr_cells a ! i = Some (array_guys a ! i)"
    by (simp add: array_guys_def)
qed

lemma array_getguy_ok:
  assumes "array_ok a" and "0 \<le> index" and "index < array_getnum a"
  shows "array_getguy a index = Some (array_guys a ! nat index)"
proof -
  from assms have "nat index < length (array_guys a)"
    by (simp add: array_ok_num)
  with array_cells_nth [OF assms(1) this] assms show ?thesis
    by (simp add: array_getguy_def array_ok_def array_getnum_def)
qed

lemma array_getguy_out: "\<not> (0 \<le> index \<and> index < array_getnum a) \<Longrightarrow> array_getguy a index = None"
  by (auto simp: array_getguy_def array_getnum_def)

section \<open>The growth loop\<close>

lemma array_newmax_ok:
  assumes "0 \<le> m" and "n < 2 ^ 30"
  shows "\<exists>r. array_newmax m n = Some r \<and> n \<le> r \<and> m \<le> r \<and> r \<le> max m (2 * n)"
  using assms
proof (induction m n rule: array_newmax.induct)
  case (1 m n)
  show ?case
  proof (cases "n \<le> m")
    case True
    then show ?thesis by (simp add: array_newmax.simps [of m n])
  next
    case False
    with "1.prems" have lt: "(m + 1) * 2 < 2 ^ 31" and pos: "\<not> m < 0" by auto
    with False "1.IH" "1.prems" obtain r where
      r: "array_newmax ((m + 1) * 2) n = Some r" "n \<le> r" "(m + 1) * 2 \<le> r" "r \<le> max ((m + 1) * 2) (2 * n)"
      by auto
    from False have "(m + 1) * 2 \<le> 2 * n" by simp
    with r False lt pos "1.prems" show ?thesis by (auto simp: array_newmax.simps [of m n])
  qed
qed

lemma array_newmax_ge: "array_newmax m n = Some r \<Longrightarrow> n \<le> r \<and> m \<le> r"
proof (induction m n rule: array_newmax.induct)
  case (1 m n)
  then show ?case
    by (auto simp: array_newmax.simps [of m n] split: if_splits)
qed

lemma copy_cells_eq:
  "n \<le> length src \<Longrightarrow> n \<le> length dst \<Longrightarrow> copy_cells n src dst = Some (take n src @ drop n dst)"
proof (induction n)
  case 0
  then show ?case by simp
next
  case (Suc n)
  then have "copy_cells n src dst = Some (take n src @ drop n dst)" by simp
  moreover have "(take n src @ drop n dst)[n := src ! n] = take (Suc n) src @ drop (Suc n) dst"
    using Suc.prems by (simp add: list_update_append take_Suc_conv_app_nth Cons_nth_drop_Suc [symmetric])
  ultimately show ?case using Suc.prems by simp
qed

lemma array_preallocate_ok:
  assumes ok: "array_ok a" and n: "n < 2 ^ 30"
  shows "\<exists>result a'. array_preallocate mem_ok a n = Some (result, a') \<and> array_ok a' \<and>
           array_guys a' = array_guys a \<and> result = (if mem_ok then Inr () else Inl ENOMEM) \<and>
           (mem_ok \<longrightarrow> n \<le> arr_max a') \<and> arr_max a \<le> arr_max a'"
proof (cases mem_ok)
  case False
  from ok n array_newmax_ok [of "arr_max a" n] obtain r where
    "array_newmax (arr_max a) n = Some r" by (force simp: array_ok_def)
  with False ok show ?thesis by (simp add: array_preallocate_def array_ok_def)
next
  case True
  from ok n array_newmax_ok [of "arr_max a" n] obtain r where
    r: "array_newmax (arr_max a) n = Some r" "n \<le> r" "arr_max a \<le> r" by (force simp: array_ok_def)
  let ?num = "nat (arr_num a)"
  let ?new = "take ?num (arr_cells a) @ replicate (nat r - ?num) None"
  from ok r have le: "?num \<le> length (arr_cells a)" "?num \<le> nat r"
    by (auto simp: array_ok_def)
  then have "copy_cells ?num (arr_cells a) (replicate (nat r) None) = Some ?new"
    by (simp add: copy_cells_eq)
  with True ok r le show ?thesis
    by (auto simp: array_preallocate_def array_ok_def array_guys_def arr_cells_def)
qed

lemma array_setsize_grow_ok:
  assumes ok: "array_ok a" and n: "arr_num a < n" "n < 2 ^ 30"
  shows "\<exists>result a'. array_setsize mem_ok a n = Some (result, a') \<and>
           (case result of
              Inl e \<Rightarrow> e = ENOMEM \<and> \<not> mem_ok \<and> arr_max a < n \<and> a' = a
            | Inr _ \<Rightarrow> (mem_ok \<or> n \<le> arr_max a) \<and> arr_num a' = n \<and> n \<le> arr_max a' \<and>
                 int (length (arr_cells a')) = arr_max a' \<and>
                 take (nat (arr_num a)) (arr_cells a') = take (nat (arr_num a)) (arr_cells a))"
proof (cases "n > arr_max a")
  case False
  with ok n show ?thesis by (auto simp: array_setsize_def array_ok_def arr_cells_def)
next
  case True
  show ?thesis
  proof (cases mem_ok)
    case False
    from ok n array_newmax_ok [of "arr_max a" n] obtain r where
      "array_newmax (arr_max a) n = Some r" by (force simp: array_ok_def)
    with False True ok show ?thesis
      by (simp add: array_setsize_def array_preallocate_def array_ok_def)
  next
    case mem: True
    from ok n array_newmax_ok [of "arr_max a" n] obtain r where
      r: "array_newmax (arr_max a) n = Some r" "n \<le> r" "arr_max a \<le> r" by (force simp: array_ok_def)
    from ok r have le: "nat (arr_num a) \<le> length (arr_cells a)" "nat (arr_num a) \<le> nat r"
      by (auto simp: array_ok_def)
    with mem True ok r n show ?thesis
      by (simp add: array_setsize_def array_preallocate_def array_ok_def copy_cells_eq arr_cells_def)
  qed
qed

section \<open>Correctness of the operations\<close>

lemma array_add_ok:
  assumes ok: "array_ok a" and n: "arr_num a < 2 ^ 30 - 1"
  shows "\<exists>result a'. array_add mem_ok a x = Some (result, a') \<and> array_ok a' \<and>
           (case result of
              Inl e \<Rightarrow> e = ENOMEM \<and> \<not> mem_ok \<and> arr_num a = arr_max a \<and> a' = a
            | Inr _ \<Rightarrow> (mem_ok \<or> arr_num a < arr_max a) \<and> array_guys a' = array_guys a @ [x])"
proof -
  from n have "arr_num a < arr_num a + 1" "arr_num a + 1 < 2 ^ 30" by auto
  with array_setsize_grow_ok [OF ok this, of mem_ok] obtain result a1 where
    a1: "array_setsize mem_ok a (arr_num a + 1) = Some (result, a1)" and
    r: "case result of
          Inl e \<Rightarrow> e = ENOMEM \<and> \<not> mem_ok \<and> arr_max a < arr_num a + 1 \<and> a1 = a
        | Inr _ \<Rightarrow> (mem_ok \<or> arr_num a + 1 \<le> arr_max a) \<and> arr_num a1 = arr_num a + 1 \<and>
             arr_num a + 1 \<le> arr_max a1 \<and> int (length (arr_cells a1)) = arr_max a1 \<and>
             take (nat (arr_num a)) (arr_cells a1) = take (nat (arr_num a)) (arr_cells a)"
    by blast
  show ?thesis
  proof (cases result)
    case (Inl e)
    with a1 r ok show ?thesis by (auto simp: array_add_def array_ok_def)
  next
    case (Inr u)
    let ?i = "nat (arr_num a)"
    let ?cells = "(arr_cells a1)[?i := Some x]"
    from ok have pos: "0 \<le> arr_num a" by (simp add: array_ok_def)
    from Inr r have "arr_num a < int (length (arr_cells a1))" by simp
    with pos have lt: "?i < length (arr_cells a1)" by linarith
    from pos have i: "nat (arr_num a + 1) = Suc ?i" by simp
    have "take (Suc ?i) ?cells = take ?i (arr_cells a) @ [Some x]"
      using lt Inr r by (simp add: take_Suc_update)
    with Inr a1 r ok lt pos i show ?thesis
      by (auto simp: array_add_def array_ok_def array_guys_def arr_cells_def)
  qed
qed

lemma array_setguy_ok:
  assumes ok: "array_ok a" and i: "0 \<le> index" "index < array_getnum a"
  shows "\<exists>a'. array_setguy a index x = Some a' \<and> array_ok a' \<and>
           array_guys a' = (array_guys a)[nat index := x]"
proof -
  from ok i have lt: "nat index < length (arr_cells a)"
    by (auto simp: array_ok_def array_getnum_def)
  let ?cells = "(arr_cells a)[nat index := Some x]"
  from ok have "None \<notin> set (take (nat (arr_num a)) ?cells)"
    by (auto simp: array_ok_def take_update_swap dest!: in_set_takeD set_update_subset_insert [THEN subsetD])
  with ok i lt show ?thesis
    by (simp add: array_setguy_def array_ok_def array_getnum_def array_guys_def arr_cells_def
        take_update_swap map_update)
qed

lemma remove_cell_list:
  assumes "k < n" "n \<le> length c"
  defines "new \<equiv> take k c @ take (n - Suc k) (drop (Suc k) c) @ drop (n - 1) c"
  shows "move_cells c k (Suc k) (n - Suc k) = Some new" "length new = length c"
    "take (n - 1) new = take k (take n c) @ drop (Suc k) (take n c)"
proof -
  from assms have len: "length (take k c @ take (n - Suc k) (drop (Suc k) c)) = n - 1" by simp
  from assms(1) have n1: "k + (n - Suc k) = n - 1" "Suc k + (n - Suc k) = n" by auto
  have "n - 1 \<le> length c" using assms by simp
  with assms show "move_cells c k (Suc k) (n - Suc k) = Some new"
    unfolding move_cells_def new_def n1 by simp
  show "length new = length c" using assms(1,2) by (simp add: new_def)
  have "take (n - 1) new = take k c @ take (n - Suc k) (drop (Suc k) c)"
    unfolding new_def using len by (metis append.assoc append_eq_conv_conj)
  also have "\<dots> = take k (take n c) @ drop (Suc k) (take n c)"
    using assms(1) by (simp add: drop_take)
  finally show "take (n - 1) new = take k (take n c) @ drop (Suc k) (take n c)" .
qed

lemma array_remove_ok:
  assumes ok: "array_ok a" and i: "0 \<le> index" "index < array_getnum a"
  shows "\<exists>a'. array_remove a index = Some a' \<and> array_ok a' \<and>
           array_guys a' = take (nat index) (array_guys a) @ drop (Suc (nat index)) (array_guys a)"
proof -
  obtain k n where k: "k < n" "n \<le> length (arr_cells a)" "arr_num a = int n" "index = int k"
    using ok i by (auto simp: array_ok_def array_getnum_def intro: that [of "nat index" "nat (arr_num a)"])
  then have nums: "nat (arr_num a - (index + 1)) = n - Suc k" "nat (index + 1) = Suc k"
    "nat index = k" "nat (arr_num a - 1) = n - 1" "nat (arr_num a) = n"
    by auto
  obtain new where new: "move_cells (arr_cells a) k (Suc k) (n - Suc k) = Some new"
    "length new = length (arr_cells a)"
    "take (n - 1) new = take k (take n (arr_cells a)) @ drop (Suc k) (take n (arr_cells a))"
    using remove_cell_list [OF k(1,2)] by blast
  have init: "None \<notin> set (take n (arr_cells a))" using ok nums by (simp add: array_ok_def)
  have "None \<notin> set (take (n - 1) new)"
    unfolding new(3) set_append using init by (meson UnE in_set_dropD in_set_takeD)
  then have "array_ok (a\<lparr>arr_v := Some new, arr_num := arr_num a - 1\<rparr>)"
    unfolding array_ok_upd nums using ok k new(2) by (simp add: array_ok_def)
  moreover have "array_guys (a\<lparr>arr_v := Some new, arr_num := arr_num a - 1\<rparr>) =
      take (nat index) (array_guys a) @ drop (Suc (nat index)) (array_guys a)"
    unfolding array_guys_upd nums new(3) by (simp add: array_guys_def nums take_map drop_map)
  moreover have "array_remove a index = Some (a\<lparr>arr_v := Some new, arr_num := arr_num a - 1\<rparr>)"
    using ok i new(1) nums by (simp add: array_remove_def array_ok_def array_getnum_def)
  ultimately show ?thesis by blast
qed

lemma array_scan_find:
  assumes get: "\<And>k. i \<le> k \<Longrightarrow> k < int (length xs) \<Longrightarrow> getguy k = Some (xs ! nat k)"
    and "0 \<le> i" "n = int (length xs)"
  shows "array_scan getguy P i n =
           Some (map_option (\<lambda>k. int k) (find (\<lambda>k. P (xs ! k)) [nat i..<length xs]))"
  using assms
proof (induction getguy P i n rule: array_scan.induct)
  case (1 getguy P i n)
  show ?case
  proof (cases "i < n")
    case False
    with "1.prems" show ?thesis by (simp add: array_scan.simps)
  next
    case True
    with "1.prems" have up: "[nat i..<length xs] = nat i # [nat (i + 1)..<length xs]"
      by (simp add: upt_conv_Cons nat_add_distrib)
    have gi: "getguy i = Some (xs ! nat i)" using "1.prems" True by simp
    show ?thesis
    proof (cases "P (xs ! nat i)")
      case P: True
      with True gi up "1.prems" show ?thesis by (simp add: array_scan.simps [of getguy P i "int (length xs)"])
    next
      case False
      have "array_scan getguy P (i + 1) n =
           Some (map_option (\<lambda>k. int k) (find (\<lambda>k. P (xs ! k)) [nat (i + 1)..<length xs]))"
        using "1.IH" [OF True gi False] "1.prems" by simp
      with False True gi up show ?thesis by (simp add: array_scan.simps [of getguy P i n])
    qed
  qed
qed

section \<open>The interface the clients rely on\<close>

locale dyn_array =
  fixes wf :: "'s \<Rightarrow> bool"
    and guys :: "'s \<Rightarrow> 'a list"
    and getnum :: "'s \<Rightarrow> int"
    and getguy :: "'s \<Rightarrow> int \<Rightarrow> 'a outcome"
    and setguy :: "'s \<Rightarrow> int \<Rightarrow> 'a \<Rightarrow> 's outcome"
    and add :: "bool \<Rightarrow> 's \<Rightarrow> 'a \<Rightarrow> ((errno + unit) \<times> 's) outcome"
    and remove :: "'s \<Rightarrow> int \<Rightarrow> 's outcome"
  assumes num: "wf a \<Longrightarrow> getnum a = int (length (guys a))"
    and get: "wf a \<Longrightarrow> 0 \<le> i \<Longrightarrow> i < getnum a \<Longrightarrow> getguy a i = Some (guys a ! nat i)"
    and set: "wf a \<Longrightarrow> 0 \<le> i \<Longrightarrow> i < getnum a \<Longrightarrow>
      \<exists>a'. setguy a i x = Some a' \<and> wf a' \<and> guys a' = (guys a)[nat i := x]"
    and add: "wf a \<Longrightarrow> getnum a < 2 ^ 30 - 1 \<Longrightarrow>
      \<exists>r a'. add mem_ok a x = Some (r, a') \<and> wf a' \<and>
        (case r of Inl e \<Rightarrow> e = ENOMEM \<and> \<not> mem_ok \<and> a' = a | Inr _ \<Rightarrow> guys a' = guys a @ [x])"
    and remove: "wf a \<Longrightarrow> 0 \<le> i \<Longrightarrow> i < getnum a \<Longrightarrow>
      \<exists>a'. remove a i = Some a' \<and> wf a' \<and>
        guys a' = take (nat i) (guys a) @ drop (Suc (nat i)) (guys a)"
begin

text \<open>A search loop over the whole array finds the first element that satisfies the test.\<close>

lemma scan_find:
  assumes "wf a"
  shows "array_scan (getguy a) P 0 (getnum a) =
           Some (map_option int (find (\<lambda>k. P (guys a ! k)) [0..<length (guys a)]))"
  using array_scan_find [of 0 "guys a" "getguy a" "getnum a" P] num [OF assms] get [OF assms]
  by simp

lemma scan_None_iff:
  assumes "wf a"
  shows "array_scan (getguy a) P 0 (getnum a) = Some None \<longleftrightarrow> (\<forall>x \<in> set (guys a). \<not> P x)"
  unfolding scan_find [OF assms] by (auto simp: find_None_iff set_conv_nth)

lemma scan_Some_iff:
  assumes "wf a"
  shows "array_scan (getguy a) P 0 (getnum a) = Some (Some i) \<longleftrightarrow>
    (0 \<le> i \<and> nat i < length (guys a) \<and> P (guys a ! nat i) \<and> (\<forall>k < nat i. \<not> P (guys a ! k)))"
  unfolding scan_find [OF assms]
  by (auto simp: find_upt_Some_iff)

lemma add_then_get:
  assumes "wf a" and "getnum a < 2 ^ 30 - 1" and "add mem_ok a x = Some (Inr u, a')"
  shows "getguy a' (getnum a) = Some x"
proof -
  from add [OF assms(1,2), of mem_ok x] assms(3) have wf': "wf a'" and g: "guys a' = guys a @ [x]"
    by auto
  then show ?thesis
    using num [OF wf'] num [OF assms(1)] get [OF wf', of "getnum a"] by simp
qed

end

interpretation karr: dyn_array array_ok array_guys array_getnum array_getguy array_setguy array_add array_remove
proof unfold_locales
  fix a :: "'a karray" and mem_ok x
  assume "array_ok a" "array_getnum a < 2 ^ 30 - 1"
  with array_add_ok [of a mem_ok x] show "\<exists>r a'. array_add mem_ok a x = Some (r, a') \<and> array_ok a' \<and>
      (case r of Inl e \<Rightarrow> e = ENOMEM \<and> \<not> mem_ok \<and> a' = a | Inr _ \<Rightarrow> array_guys a' = array_guys a @ [x])"
    by (fastforce simp: array_getnum_def split: sum.splits)
qed (simp_all add: array_ok_num array_getguy_ok array_setguy_ok array_remove_ok)

section \<open>Properties\<close>

text \<open>
  C14. Appending to a well-formed array never stops the kernel.  It fails with ENOMEM, leaving the
  array untouched, only when the array is full and the allocator has no memory; otherwise the new
  pointer is at the end, all earlier pointers keep their places, and it is what \<open>array_getguy\<close>
  returns at the old length.
\<close>

theorem array_add_appends:
  assumes "array_ok a" and "array_getnum a < 2 ^ 30 - 1"
  shows "(array_add mem_ok a x = Some (Inl ENOMEM, a) \<and> \<not> mem_ok \<and> arr_num a = arr_max a) \<or>
         (\<exists>a'. array_add mem_ok a x = Some (Inr (), a') \<and> (mem_ok \<or> arr_num a < arr_max a) \<and>
            array_ok a' \<and> array_guys a' = array_guys a @ [x] \<and>
            array_getguy a' (array_getnum a) = Some x)"
proof -
  from array_add_ok [of a mem_ok x] assms obtain r a' where
    r: "array_add mem_ok a x = Some (r, a')" "array_ok a'"
       "case r of Inl e \<Rightarrow> e = ENOMEM \<and> \<not> mem_ok \<and> arr_num a = arr_max a \<and> a' = a
                | Inr _ \<Rightarrow> (mem_ok \<or> arr_num a < arr_max a) \<and> array_guys a' = array_guys a @ [x]"
    by (auto simp: array_getnum_def)
  then show ?thesis
    using karr.add_then_get [OF assms, of mem_ok x] by (cases r) auto
qed

definition array_of :: "'a list \<Rightarrow> int \<Rightarrow> 'a karray" where
  "array_of xs m = \<lparr>arr_num = int (length xs), arr_max = m,
     arr_v = Some (map Some xs @ replicate (nat m - length xs) None)\<rparr>"

theorem array_add_appends_witness:
  "array_ok (array_of [1::nat, 2] 2) \<and> array_getnum (array_of [1::nat, 2] 2) < 2 ^ 30 - 1 \<and>
   (\<exists>a'. array_add True (array_of [1::nat, 2] 2) 7 = Some (Inr (), a') \<and> array_guys a' = [1, 2, 7])"
proof -
  have h: "array_ok (array_of [1::nat, 2] 2)" "array_getnum (array_of [1::nat, 2] 2) < 2 ^ 30 - 1"
    by (auto simp: array_of_def array_ok_def arr_cells_def array_getnum_def)
  have "array_guys (array_of [1::nat, 2] 2) = [1, 2]"
    by (simp add: array_of_def array_guys_def arr_cells_def)
  with h array_add_appends [OF h, of True 7] show ?thesis by auto
qed

text \<open>
  C15. Removing slot \<open>index\<close> deletes exactly that pointer: the pointers before it keep their slots and
  the pointers after it move down by one, in order.
\<close>

theorem array_remove_deletes:
  assumes "array_ok a" and "0 \<le> index" and "index < array_getnum a"
  shows "\<exists>a'. array_remove a index = Some a' \<and> array_ok a' \<and>
           array_getnum a' = array_getnum a - 1 \<and>
           (\<forall>k. 0 \<le> k \<longrightarrow> k < array_getnum a' \<longrightarrow>
              array_getguy a' k = array_getguy a (if k < index then k else k + 1))"
proof -
  from array_remove_ok [OF assms] obtain a' where
    a': "array_remove a index = Some a'" "array_ok a'"
    and g: "array_guys a' = take (nat index) (array_guys a) @ drop (Suc (nat index)) (array_guys a)"
    by blast
  have i: "nat index < length (array_guys a)" using assms array_ok_num by fastforce
  then have n: "array_getnum a' = array_getnum a - 1"
    unfolding array_ok_num [OF a'(2)] array_ok_num [OF assms(1)] g by simp
  have "array_getguy a' k = array_getguy a (if k < index then k else k + 1)"
    if k: "0 \<le> k" "k < array_getnum a'" for k
  proof -
    have "array_guys a' ! nat k = array_guys a ! (if nat k < nat index then nat k else Suc (nat k))"
      unfolding g using i k n array_ok_num [OF assms(1)] by (auto simp: nth_append)
    moreover have "array_getguy a' k = Some (array_guys a' ! nat k)"
      using k by (rule array_getguy_ok [OF a'(2)])
    moreover have "array_getguy a (if k < index then k else k + 1) =
        Some (array_guys a ! nat (if k < index then k else k + 1))"
      using k n assms by (intro array_getguy_ok [OF assms(1)]) auto
    ultimately show ?thesis using k assms by (auto simp: nat_add_distrib split: if_splits)
  qed
  with a' n show ?thesis by blast
qed

theorem array_remove_deletes_witness:
  "\<exists>a'. array_remove (array_of [5::nat, 6, 7] 3) 1 = Some a' \<and> array_getnum a' = 2 \<and>
     array_getguy a' 1 = array_getguy (array_of [5::nat, 6, 7] 3) 2"
proof -
  have h: "array_ok (array_of [5::nat, 6, 7] 3)" "(0::int) \<le> 1" "1 < array_getnum (array_of [5::nat, 6, 7] 3)"
    by (auto simp: array_of_def array_ok_def arr_cells_def array_getnum_def)
  have n: "array_getnum (array_of [5::nat, 6, 7] 3) = 3" by (simp add: array_of_def array_getnum_def)
  obtain a' where a': "array_remove (array_of [5::nat, 6, 7] 3) 1 = Some a'" "array_getnum a' = 2"
    and k: "\<And>k. 0 \<le> k \<Longrightarrow> k < array_getnum a' \<Longrightarrow>
       array_getguy a' k = array_getguy (array_of [5::nat, 6, 7] 3) (if k < 1 then k else k + 1)"
    using array_remove_deletes [OF h] n by force
  with k [of 1] show ?thesis by simp
qed



text \<open>
  Shrinking an array of more than 16 slots to size 0 gives the whole reservation back: the next
  \<open>array_add\<close> then fails when the allocator has no memory.  \<^verbatim>\<open>exorcise\<close> does this to the zombie
  list, so the remark in \<^verbatim>\<open>mi_switch\<close> that its \<open>array_add\<close> cannot fail does not hold.
\<close>

theorem array_setsize_zero_drops_reservation:
  assumes "array_ok a" and "16 < arr_max a"
  shows "\<exists>a'. array_setsize mem_ok a 0 = Some (Inr (), a') \<and> array_ok a' \<and> array_guys a' = [] \<and>
           array_add False a' x = Some (Inl ENOMEM, a')"
proof -
  let ?a' = "a\<lparr>arr_v := None, arr_max := 0, arr_num := 0\<rparr>"
  from assms have "arr_v a \<noteq> None" by (auto simp: array_ok_def arr_cells_def split: option.splits)
  with assms have "array_setsize mem_ok a 0 = Some (Inr (), ?a')"
    by (simp add: array_setsize_def array_ok_def)
  moreover have ok: "array_ok ?a'" "array_guys ?a' = []"
    by (simp_all add: array_ok_def array_guys_def arr_cells_def)
  moreover have "array_add False ?a' x = Some (Inl ENOMEM, ?a')"
    by (simp add: array_add_def array_setsize_def array_preallocate_def array_newmax.simps [of 0 1]
        array_newmax.simps [of 2 1])
  ultimately show ?thesis by blast
qed

theorem array_setsize_zero_drops_reservation_witness:
  "array_ok (array_of [1::nat] 17) \<and>
   (\<exists>a'. array_setsize True (array_of [1::nat] 17) 0 = Some (Inr (), a') \<and>
      array_add False a' 2 = Some (Inl ENOMEM, a'))"
proof -
  have h: "array_ok (array_of [1::nat] 17)" "16 < arr_max (array_of [1::nat] 17)"
    by (auto simp: array_of_def array_ok_def arr_cells_def)
  with array_setsize_zero_drops_reservation [OF h, of True 2] show ?thesis by blast
qed

end
