(* ===== verification/KBitmap.thy ===== *)
theory KBitmap
  imports Kernel_Prelude
begin

text \<open>
  Arrays of bits (\<^verbatim>\<open>kern/lib/bitmap.c\<close>), kept at byte level as in the source: \<^verbatim>\<open>v\<close> is a list of
  8-bit words and the operations mask and shift them.  The abstraction \<open>bitmap_used\<close> is the set of
  the indices whose bit is set.  The locale \<open>bit_allocator\<close> is what the file system's block
  allocator relies on.
\<close>

unbundle bit_operations_syntax

section \<open>Model\<close>

record bitmap =
  nbits :: nat
  bm_v :: "8 word list"

text \<open>The loop \<^verbatim>\<open>for (j=overbits; j<BITS_PER_WORD; j++) b->v[ix] |= (1 << j)\<close>.\<close>

definition set_leftover :: "nat \<Rightarrow> 8 word \<Rightarrow> 8 word" where
  "set_leftover overbits w = fold (\<lambda>j w. w OR push_bit j 1) [overbits..<8] w"

definition bitmap_create :: "bool \<Rightarrow> bool \<Rightarrow> nat \<Rightarrow> bitmap option outcome" where
  "bitmap_create struct_ok words_ok n =
     (let words = divroundup n 8 in
      if \<not> struct_ok then Some None
      else if \<not> words_ok then Some None
      else let v = replicate words 0 in
        if n div 8 < words then
          (let ix = words - 1; overbits = n - ix * 8 in do {
             kassert (n div 8 = words - 1);
             kassert (0 < overbits \<and> overbits < 8);
             w \<leftarrow> load_cell v ix;
             v' \<leftarrow> store_cell v ix (set_leftover overbits w);
             Some (Some \<lparr>nbits = n, bm_v = v'\<rparr>)
           })
        else Some (Some \<lparr>nbits = n, bm_v = v\<rparr>))"

definition bitmap_getdata :: "bitmap \<Rightarrow> 8 word list" where
  "bitmap_getdata b = bm_v b"

text \<open>The inner loop of \<^verbatim>\<open>bitmap_alloc\<close>; running off its end is the source's \<^verbatim>\<open>assert(0)\<close>.\<close>

function free_offset :: "8 word \<Rightarrow> nat \<Rightarrow> nat outcome" where
  "free_offset w offset =
     (if offset < 8 then
        (if w AND push_bit offset 1 = 0 then Some offset else free_offset w (Suc offset))
      else None)"
  by pat_completeness auto
termination
  by (relation "measure (\<lambda>(w, offset). 8 - offset)") auto

declare free_offset.simps [simp del]

function bitmap_alloc_from :: "bitmap \<Rightarrow> nat \<Rightarrow> nat \<Rightarrow> ((errno + nat) \<times> bitmap) outcome" where
  "bitmap_alloc_from b ix maxix =
     (if ix < maxix then do {
        w \<leftarrow> load_cell (bm_v b) ix;
        if w \<noteq> 0xff then do {
          offset \<leftarrow> free_offset w 0;
          v' \<leftarrow> store_cell (bm_v b) ix (w OR push_bit offset 1);
          let index = ix * 8 + offset;
          kassert (index < nbits b);
          Some (Inr index, b\<lparr>bm_v := v'\<rparr>)
        }
        else bitmap_alloc_from b (Suc ix) maxix
      }
      else Some (Inl ENOSPC, b))"
  by pat_completeness auto
termination
  by (relation "measure (\<lambda>(b, ix, maxix). maxix - ix)") auto

declare bitmap_alloc_from.simps [simp del]

definition bitmap_alloc :: "bitmap \<Rightarrow> ((errno + nat) \<times> bitmap) outcome" where
  "bitmap_alloc b = bitmap_alloc_from b 0 (divroundup (nbits b) 8)"

definition bitmap_translate :: "nat \<Rightarrow> nat \<times> 8 word" where
  "bitmap_translate bitno = (bitno div 8, push_bit (bitno mod 8) 1)"

definition bitmap_mark :: "bitmap \<Rightarrow> nat \<Rightarrow> bitmap outcome" where
  "bitmap_mark b index = do {
     kassert (index < nbits b);
     let (ix, mask) = bitmap_translate index;
     w \<leftarrow> load_cell (bm_v b) ix;
     kassert (w AND mask = 0);
     v' \<leftarrow> store_cell (bm_v b) ix (w OR mask);
     Some (b\<lparr>bm_v := v'\<rparr>)
   }"

definition bitmap_unmark :: "bitmap \<Rightarrow> nat \<Rightarrow> bitmap outcome" where
  "bitmap_unmark b index = do {
     kassert (index < nbits b);
     let (ix, mask) = bitmap_translate index;
     w \<leftarrow> load_cell (bm_v b) ix;
     kassert (w AND mask \<noteq> 0);
     v' \<leftarrow> store_cell (bm_v b) ix (w AND NOT mask);
     Some (b\<lparr>bm_v := v'\<rparr>)
   }"

text \<open>The result is the masked byte: nonzero exactly when the bit is set.\<close>

definition bitmap_isset :: "bitmap \<Rightarrow> nat \<Rightarrow> 8 word outcome" where
  "bitmap_isset b index =
     (let (ix, mask) = bitmap_translate index in do {
        w \<leftarrow> load_cell (bm_v b) ix;
        Some (w AND mask)
      })"

section \<open>Bits of a byte\<close>

text \<open>The proofs keep the masks in the source's form \<^verbatim>\<open>1 << k\<close>.\<close>

declare push_bit_of_1 [simp del]

lemma mask_zero_iff: "k < 8 \<Longrightarrow> (w :: 8 word) AND push_bit k 1 = 0 \<longleftrightarrow> \<not> bit w k"
proof -
  assume k: "k < 8"
  have "bit (w AND push_bit k 1) n \<longleftrightarrow> bit w k \<and> n = k" for n
    using k by (auto simp: bit_simps)
  then have "(w AND push_bit k 1 = 0) \<longleftrightarrow> (\<forall>n < 8. bit w k \<longrightarrow> n \<noteq> k)"
    using bit_eq_iff [of "w AND push_bit k 1" 0] by simp
  with k show ?thesis by blast
qed

lemma bit_or_mask: "k < 8 \<Longrightarrow> j < 8 \<Longrightarrow> bit ((w :: 8 word) OR push_bit k 1) j \<longleftrightarrow> bit w j \<or> j = k"
  by (auto simp: bit_simps)

lemma bit_and_not_mask:
  "k < 8 \<Longrightarrow> j < 8 \<Longrightarrow> bit ((w :: 8 word) AND NOT (push_bit k 1)) j \<longleftrightarrow> bit w j \<and> j \<noteq> k"
  by (auto simp: bit_simps)

lemma allbits_iff: "(w :: 8 word) = 0xff \<longleftrightarrow> (\<forall>k < 8. bit w k)"
proof
  assume w: "w = 0xff"
  show "\<forall>k < 8. bit w k"
  proof (intro allI impI)
    fix k :: nat assume "k < 8"
    then have "k \<in> {0, 1, 2, 3, 4, 5, 6, 7}" by auto
    then show "bit w k" unfolding w by auto
  qed
next
  assume a: "\<forall>k < 8. bit w k"
  have "bit (255 :: 8 word) k" if "k < 8" for k
  proof -
    from that have "k \<in> {0, 1, 2, 3, 4, 5, 6, 7}" by auto
    then show ?thesis by auto
  qed
  with a show "w = 0xff" by (intro bit_word_eqI) simp
qed

lemma bit_set_leftover:
  "j < 8 \<Longrightarrow> bit (set_leftover n w) j \<longleftrightarrow> bit w j \<or> n \<le> j"
proof -
  assume j: "j < 8"
  have "bit (fold (\<lambda>j w. w OR push_bit j 1) ks w) j \<longleftrightarrow> bit w j \<or> j \<in> set ks"
    if "set ks \<subseteq> {..<8}" for ks and w :: "8 word"
    using that j by (induction ks arbitrary: w) (auto simp: bit_or_mask)
  moreover have "set [n..<8] \<subseteq> {..<8}" by auto
  ultimately show ?thesis using j by (simp add: set_leftover_def)
qed

lemma free_offset_Some:
  "free_offset w k = Some n \<longleftrightarrow> k \<le> n \<and> n < 8 \<and> \<not> bit w n \<and> (\<forall>j. k \<le> j \<and> j < n \<longrightarrow> bit w j)"
proof (induction w k rule: free_offset.induct)
  case (1 w k)
  have split: "(\<forall>j. k \<le> j \<and> j < n \<longrightarrow> bit w j) \<longleftrightarrow>
      (k < n \<longrightarrow> bit w k) \<and> (\<forall>j. Suc k \<le> j \<and> j < n \<longrightarrow> bit w j)"
    by (metis Suc_le_eq le_eq_less_or_eq order_refl)
  show ?case
  proof (cases "k < 8 \<and> bit w k")
    case True
    then have "free_offset w k = free_offset w (Suc k)"
      by (simp add: free_offset.simps [of w k] mask_zero_iff)
    moreover have "Suc k \<le> n \<longleftrightarrow> k \<le> n" if "\<not> bit w n"
      using True that by (auto simp: Suc_le_eq le_eq_less_or_eq)
    ultimately show ?thesis using True "1.IH" unfolding split by (auto simp: mask_zero_iff)
  next
    case False
    then show ?thesis
      by (auto simp: free_offset.simps [of w k] mask_zero_iff not_le le_eq_less_or_eq)
  qed
qed

section \<open>Well-formedness and abstraction\<close>

definition bm_bit :: "bitmap \<Rightarrow> nat \<Rightarrow> bool" where
  "bm_bit b i \<longleftrightarrow> i div 8 < length (bm_v b) \<and> bit (bm_v b ! (i div 8)) (i mod 8)"

definition bitmap_used :: "bitmap \<Rightarrow> nat set" where
  "bitmap_used b = {i. i < nbits b \<and> bm_bit b i}"

definition bitmap_ok :: "bitmap \<Rightarrow> bool" where
  "bitmap_ok b \<longleftrightarrow> nbits b + 7 < u32_max \<and> length (bm_v b) = (nbits b + 7) div 8 \<and>
     (\<forall>i. nbits b \<le> i \<and> i div 8 < length (bm_v b) \<longrightarrow> bm_bit b i)"

lemma bitmap_index_in: "bitmap_ok b \<Longrightarrow> i < nbits b \<Longrightarrow> i div 8 < length (bm_v b)"
  unfolding bitmap_ok_def by linarith

lemma div_mod_8_cases: "(i :: nat) div 8 = j div 8 \<Longrightarrow> i mod 8 = j mod 8 \<Longrightarrow> i = j"
  by (metis div_mult_mod_eq)

lemma bm_bit_update:
  assumes "i div 8 < length (bm_v b)"
  shows "bm_bit (b\<lparr>bm_v := (bm_v b)[i div 8 := w]\<rparr>) j \<longleftrightarrow>
    (if j div 8 = i div 8 then bit w (j mod 8) else bm_bit b j)"
  using assms by (auto simp: bm_bit_def nth_list_update)

lemma bm_bit_or:
  assumes "i div 8 < length (bm_v b)"
  shows "bm_bit (b\<lparr>bm_v := (bm_v b)[i div 8 := bm_v b ! (i div 8) OR push_bit (i mod 8) 1]\<rparr>) j
    \<longleftrightarrow> bm_bit b j \<or> j = i"
  unfolding bm_bit_update [OF assms]
  using assms by (auto simp: bit_or_mask bm_bit_def dest: div_mod_8_cases)

lemma bm_bit_and_not:
  assumes "i div 8 < length (bm_v b)"
  shows "bm_bit (b\<lparr>bm_v := (bm_v b)[i div 8 := bm_v b ! (i div 8) AND NOT (push_bit (i mod 8) 1)]\<rparr>) j
    \<longleftrightarrow> bm_bit b j \<and> j \<noteq> i"
  unfolding bm_bit_update [OF assms]
  using assms by (auto simp: bit_and_not_mask bm_bit_def dest: div_mod_8_cases)

lemma bitmap_set_bit:
  assumes "bitmap_ok b" and "i < nbits b"
  defines "b' \<equiv> b\<lparr>bm_v := (bm_v b)[i div 8 := bm_v b ! (i div 8) OR push_bit (i mod 8) 1]\<rparr>"
  shows "bitmap_ok b'" and "bitmap_used b' = insert i (bitmap_used b)"
proof -
  note in_range = bitmap_index_in [OF assms(1,2)]
  from assms(1,2) show "bitmap_ok b'"
    using bm_bit_or [OF in_range] by (simp add: bitmap_ok_def b'_def)
  from assms(2) show "bitmap_used b' = insert i (bitmap_used b)"
    using bm_bit_or [OF in_range] by (auto simp: bitmap_used_def b'_def)
qed

lemma bitmap_clear_bit:
  assumes "bitmap_ok b" and "i < nbits b"
  defines "b' \<equiv> b\<lparr>bm_v := (bm_v b)[i div 8 := bm_v b ! (i div 8) AND NOT (push_bit (i mod 8) 1)]\<rparr>"
  shows "bitmap_ok b'" and "bitmap_used b' = bitmap_used b - {i}"
proof -
  note in_range = bitmap_index_in [OF assms(1,2)]
  from assms(1,2) show "bitmap_ok b'"
    using bm_bit_and_not [OF in_range] by (auto simp: bitmap_ok_def b'_def)
  from assms(2) show "bitmap_used b' = bitmap_used b - {i}"
    using bm_bit_and_not [OF in_range] by (auto simp: bitmap_used_def b'_def)
qed

section \<open>Correctness of the operations\<close>

lemma ceil8_split: "(n + 7) div 8 = n div 8 + (n mod 8 + 7) div (8 :: nat)"
proof -
  have "n + 7 = (n mod 8 + 7) + 8 * (n div 8)" by simp
  then show ?thesis by (metis add.commute div_mult_self2 zero_neq_numeral)
qed

lemma ceil8_exact: "n mod 8 = 0 \<Longrightarrow> (n + 7) div 8 = n div (8 :: nat)"
  using ceil8_split [of n] by simp

lemma ceil8_over: "n mod 8 \<noteq> 0 \<Longrightarrow> (n + 7) div 8 = Suc (n div (8 :: nat))"
proof -
  assume "n mod 8 \<noteq> 0"
  moreover have "n mod 8 < 8" by simp
  ultimately have "(n mod 8 + 7) div 8 = 1" by (intro div_nat_eqI) auto
  then show ?thesis using ceil8_split [of n] by simp
qed

lemma leftover_iff:
  assumes "i div 8 \<le> n div (8 :: nat)"
  shows "i div 8 = n div 8 \<and> n mod 8 \<le> i mod 8 \<longleftrightarrow> n \<le> i"
proof -
  define a b c d where "a = i div 8" and "b = i mod 8" and "c = n div 8" and "d = n mod 8"
  have "i = 8 * a + b" "n = 8 * c + d" "b < 8" "d < 8" "a \<le> c"
    using assms by (simp_all add: a_def b_def c_def d_def)
  then show ?thesis unfolding a_def [symmetric] b_def [symmetric] c_def [symmetric] d_def [symmetric]
    by (cases "a = c") auto
qed

lemma bitmap_create_exact:
  assumes "n + 7 < u32_max" and "n mod 8 = 0"
  shows "\<exists>b. bitmap_create True True n = Some (Some b) \<and> bitmap_ok b \<and> nbits b = n \<and> bitmap_used b = {}"
proof -
  let ?b = "\<lparr>nbits = n, bm_v = replicate (n div 8) 0\<rparr>"
  have none: "\<not> bm_bit ?b i" for i by (simp add: bm_bit_def)
  have w: "divroundup n 8 = n div 8" using assms by (simp add: divroundup_8 ceil8_exact)
  have "\<not> (n \<le> i \<and> i div 8 < n div 8)" for i using div_le_mono [of n i 8] by linarith
  then have "bitmap_ok ?b" unfolding bitmap_ok_def using assms by (auto simp: ceil8_exact)
  moreover have "bitmap_used ?b = {}" using none by (simp add: bitmap_used_def)
  moreover have "bitmap_create True True n = Some (Some ?b)" by (simp add: bitmap_create_def w)
  ultimately show ?thesis by (metis bitmap.select_convs(1))
qed

lemma bitmap_create_leftover:
  assumes "n + 7 < u32_max" and "n mod 8 \<noteq> 0"
  shows "\<exists>b. bitmap_create True True n = Some (Some b) \<and> bitmap_ok b \<and> nbits b = n \<and> bitmap_used b = {}"
proof -
  have w: "divroundup n 8 = Suc (n div 8)" using assms by (simp add: divroundup_8 ceil8_over)
  have over: "n - n div 8 * 8 = n mod 8" by (simp add: minus_div_mult_eq_mod)
  define vs :: "8 word list" where
    "vs = (replicate (Suc (n div 8)) 0)[n div 8 := set_leftover (n mod 8) 0]"
  let ?b = "\<lparr>nbits = n, bm_v = vs\<rparr>"
  have len: "length vs = Suc (n div 8)" by (simp add: vs_def del: replicate.simps)
  have bits: "bm_bit ?b i \<longleftrightarrow> i div 8 \<le> n div 8 \<and> n \<le> i" for i
  proof -
    have "bm_bit ?b i \<longleftrightarrow> i div 8 = n div 8 \<and> n mod 8 \<le> i mod 8"
      unfolding bm_bit_def vs_def
      by (auto simp: nth_list_update bit_set_leftover simp del: replicate.simps)
    then show ?thesis using leftover_iff [of i n] by auto
  qed
  have "bitmap_create True True n = Some (Some ?b)"
    using assms(2) w over by (simp add: bitmap_create_def Let_def vs_def del: replicate.simps)
  moreover have "bitmap_ok ?b" unfolding bitmap_ok_def using assms len bits by (simp add: ceil8_over)
  moreover have "bitmap_used ?b = {}" using bits by (simp add: bitmap_used_def)
  ultimately show ?thesis by (metis bitmap.select_convs(1))
qed

lemma bitmap_create_ok:
  assumes "n + 7 < u32_max"
  shows "\<exists>b. bitmap_create True True n = Some (Some b) \<and> bitmap_ok b \<and> nbits b = n \<and> bitmap_used b = {}"
  using bitmap_create_exact [OF assms] bitmap_create_leftover [OF assms] by blast

lemma bitmap_mark_eq:
  assumes "bitmap_ok b" "i < nbits b"
  shows "bitmap_mark b i = (if i \<in> bitmap_used b then None
     else Some (b\<lparr>bm_v := (bm_v b)[i div 8 := bm_v b ! (i div 8) OR push_bit (i mod 8) 1]\<rparr>))"
  using assms bitmap_index_in [OF assms]
  by (simp add: bitmap_mark_def bitmap_translate_def mask_zero_iff bitmap_used_def bm_bit_def)

lemma bitmap_unmark_eq:
  assumes "bitmap_ok b" "i < nbits b"
  shows "bitmap_unmark b i = (if i \<notin> bitmap_used b then None
     else Some (b\<lparr>bm_v := (bm_v b)[i div 8 := bm_v b ! (i div 8) AND NOT (push_bit (i mod 8) 1)]\<rparr>))"
  using assms bitmap_index_in [OF assms]
  by (simp add: bitmap_unmark_def bitmap_translate_def mask_zero_iff bitmap_used_def bm_bit_def)

lemma bitmap_isset_eq:
  assumes "bitmap_ok b" "i < nbits b"
  shows "\<exists>w. bitmap_isset b i = Some w \<and> (w \<noteq> 0 \<longleftrightarrow> i \<in> bitmap_used b)"
  using assms bitmap_index_in [OF assms]
  by (simp add: bitmap_isset_def bitmap_translate_def mask_zero_iff bitmap_used_def bm_bit_def)

text \<open>The outer loop of \<^verbatim>\<open>bitmap_alloc\<close>, from byte \<open>ix\<close> on, when every earlier byte is full.\<close>

lemma bitmap_alloc_from_spec:
  assumes ok: "bitmap_ok b" and max: "maxix = length (bm_v b)"
    and full: "\<And>i. i < ix * 8 \<Longrightarrow> i < nbits b \<Longrightarrow> i \<in> bitmap_used b"
  shows "(bitmap_alloc_from b ix maxix = Some (Inl ENOSPC, b) \<and> bitmap_used b = {..<nbits b}) \<or>
    (\<exists>i b'. bitmap_alloc_from b ix maxix = Some (Inr i, b') \<and> i < nbits b \<and> i \<notin> bitmap_used b \<and>
       (\<forall>j < i. j \<in> bitmap_used b) \<and>
       b' = b\<lparr>bm_v := (bm_v b)[i div 8 := bm_v b ! (i div 8) OR push_bit (i mod 8) 1]\<rparr>)"
  using assms
proof (induction b ix maxix rule: bitmap_alloc_from.induct)
  case (1 b ix maxix)
  show ?case
  proof (cases "ix < maxix")
    case False
    have "i \<in> bitmap_used b" if "i < nbits b" for i
    proof -
      have "i div 8 < length (bm_v b)" by (rule bitmap_index_in [OF "1.prems"(1) that])
      with False "1.prems"(2) have "i < ix * 8" by (simp add: div_less_iff_less_mult)
      with "1.prems"(3) that show ?thesis by blast
    qed
    then have "bitmap_used b = {..<nbits b}" by (auto simp: bitmap_used_def)
    with False show ?thesis by (simp add: bitmap_alloc_from.simps)
  next
    case True
    let ?w = "bm_v b ! ix"
    have w: "load_cell (bm_v b) ix = Some ?w" using True "1.prems"(2) by simp
    show ?thesis
    proof (cases "?w = 0xff")
      case full: True
      have "i \<in> bitmap_used b" if "i < Suc ix * 8" "i < nbits b" for i
      proof (cases "i < ix * 8")
        case True
        then show ?thesis using "1.prems"(3) that by blast
      next
        case False
        with that(1) have "i div 8 = ix" by (auto intro!: div_nat_eqI)
        with full w that(2) show ?thesis by (auto simp: bitmap_used_def bm_bit_def allbits_iff)
      qed
      moreover have "bitmap_alloc_from b ix maxix = bitmap_alloc_from b (Suc ix) maxix"
        using True w full by (subst bitmap_alloc_from.simps) simp
      ultimately show ?thesis using "1.IH" [OF True w] full "1.prems" by simp
    next
      case False
      then obtain k where k: "k < 8" "\<not> bit ?w k" and min: "\<forall>j < k. bit ?w j"
        using exists_least_iff [of "\<lambda>k. k < 8 \<and> \<not> bit ?w k"] by (auto simp: allbits_iff)
      then have off: "free_offset ?w 0 = Some k" by (simp add: free_offset_Some)
      define i where "i = ix * 8 + k"
      have i: "i div 8 = ix" "i mod 8 = k" using k by (auto simp: i_def)
      have unused: "\<not> bm_bit b i" using k i w by (simp add: bm_bit_def)
      then have lt: "i < nbits b"
        using "1.prems"(1,2) True i by (auto simp: bitmap_ok_def not_le [symmetric])
      have below: "j \<in> bitmap_used b" if "j < i" for j
      proof (cases "j < ix * 8")
        case True
        then show ?thesis using "1.prems"(3) that lt by simp
      next
        case False
        with that k have "j div 8 = ix" by (auto simp: i_def intro!: div_nat_eqI)
        moreover have "j mod 8 < k" using False that \<open>j div 8 = ix\<close> by (simp add: i_def) presburger
        ultimately show ?thesis using min w that lt by (auto simp: bitmap_used_def bm_bit_def)
      qed
      have "bitmap_alloc_from b ix maxix =
          Some (Inr i, b\<lparr>bm_v := (bm_v b)[i div 8 := bm_v b ! (i div 8) OR push_bit (i mod 8) 1]\<rparr>)"
        using True w False off lt i by (subst bitmap_alloc_from.simps) (simp add: i_def)
      with lt unused below show ?thesis by (auto simp: bitmap_used_def)
    qed
  qed
qed

lemma bitmap_alloc_spec:
  assumes "bitmap_ok b"
  shows "(bitmap_alloc b = Some (Inl ENOSPC, b) \<and> bitmap_used b = {..<nbits b}) \<or>
    (\<exists>i b'. bitmap_alloc b = Some (Inr i, b') \<and> bitmap_ok b' \<and> nbits b' = nbits b \<and>
       i < nbits b \<and> i \<notin> bitmap_used b \<and> (\<forall>j < i. j \<in> bitmap_used b) \<and>
       bitmap_used b' = insert i (bitmap_used b))"
proof -
  have "divroundup (nbits b) 8 = length (bm_v b)"
    using assms by (simp add: bitmap_ok_def divroundup_8)
  then show ?thesis
    using bitmap_alloc_from_spec [OF assms, of "divroundup (nbits b) 8" 0]
      bitmap_set_bit [OF assms] by (auto simp: bitmap_alloc_def)
qed

section \<open>The interface of an allocator of numbered units\<close>

locale bit_allocator =
  fixes wf :: "'s \<Rightarrow> bool"
    and used :: "'s \<Rightarrow> nat set"
    and total :: "'s \<Rightarrow> nat"
    and alloc :: "'s \<Rightarrow> ((errno + nat) \<times> 's) outcome"
    and mark :: "'s \<Rightarrow> nat \<Rightarrow> 's outcome"
    and unmark :: "'s \<Rightarrow> nat \<Rightarrow> 's outcome"
    and isset :: "'s \<Rightarrow> nat \<Rightarrow> 8 word outcome"
  assumes used_bound: "wf b \<Longrightarrow> used b \<subseteq> {..<total b}"
    and alloc_cases: "wf b \<Longrightarrow>
      (alloc b = Some (Inl ENOSPC, b) \<and> used b = {..<total b}) \<or>
      (\<exists>i b'. alloc b = Some (Inr i, b') \<and> wf b' \<and> total b' = total b \<and> i < total b \<and>
         i \<notin> used b \<and> used b' = insert i (used b))"
    and mark_free: "wf b \<Longrightarrow> i < total b \<Longrightarrow> i \<notin> used b \<Longrightarrow>
      \<exists>b'. mark b i = Some b' \<and> wf b' \<and> total b' = total b \<and> used b' = insert i (used b)"
    and mark_used: "wf b \<Longrightarrow> i \<in> used b \<Longrightarrow> mark b i = None"
    and unmark_used: "wf b \<Longrightarrow> i \<in> used b \<Longrightarrow>
      \<exists>b'. unmark b i = Some b' \<and> wf b' \<and> total b' = total b \<and> used b' = used b - {i}"
    and unmark_free: "wf b \<Longrightarrow> i < total b \<Longrightarrow> i \<notin> used b \<Longrightarrow> unmark b i = None"
    and isset_iff: "wf b \<Longrightarrow> i < total b \<Longrightarrow> \<exists>w. isset b i = Some w \<and> (w \<noteq> 0 \<longleftrightarrow> i \<in> used b)"
begin

lemma used_finite: "wf b \<Longrightarrow> finite (used b)"
  using used_bound finite_subset by blast

lemma alloc_never_stuck: "wf b \<Longrightarrow> alloc b \<noteq> None"
  using alloc_cases by fastforce

lemma alloc_Inr:
  assumes "wf b" "alloc b = Some (Inr i, b')"
  shows "wf b' \<and> total b' = total b \<and> i < total b \<and> i \<notin> used b \<and> used b' = insert i (used b)"
  using alloc_cases [OF assms(1)] assms(2) by auto

lemma alloc_Inl:
  assumes "wf b" "alloc b = Some (Inl e, b')"
  shows "e = ENOSPC \<and> b' = b \<and> used b = {..<total b}"
  using alloc_cases [OF assms(1)] assms(2) by auto

lemma alloc_succeeds_iff:
  assumes "wf b"
  shows "(\<exists>i b'. alloc b = Some (Inr i, b')) \<longleftrightarrow> card (used b) < total b"
proof
  assume "\<exists>i b'. alloc b = Some (Inr i, b')"
  then obtain i b' where "i < total b" "i \<notin> used b" using alloc_Inr [OF assms] by blast
  then have "used b \<subset> {..<total b}" using used_bound [OF assms] by auto
  then show "card (used b) < total b" using psubset_card_mono [of "{..<total b}"] by simp
next
  assume "card (used b) < total b"
  then show "\<exists>i b'. alloc b = Some (Inr i, b')" using alloc_cases [OF assms] by auto
qed

text \<open>Giving back a unit just allocated restores the set of used units.\<close>

lemma alloc_unmark:
  assumes "wf b" "alloc b = Some (Inr i, b')"
  shows "\<exists>b''. unmark b' i = Some b'' \<and> wf b'' \<and> total b'' = total b \<and> used b'' = used b"
proof -
  note a = alloc_Inr [OF assms]
  then obtain b'' where "unmark b' i = Some b''" "wf b''" "total b'' = total b'" "used b'' = used b' - {i}"
    using unmark_used [of b' i] by auto
  with a show ?thesis by auto
qed

text \<open>Successive allocations hand out different units.\<close>

lemma alloc_twice:
  assumes "wf b" "alloc b = Some (Inr i, b')" "alloc b' = Some (Inr j, b'')"
  shows "i \<noteq> j \<and> used b'' = {i, j} \<union> used b \<and> card (used b'') = card (used b) + 2"
proof -
  note a = alloc_Inr [OF assms(1,2)]
  then have "j \<notin> used b'" "used b'' = insert j (used b')" using alloc_Inr assms(3) by blast+
  with a show ?thesis using used_finite [OF assms(1)] by auto
qed

end

interpretation bmap: bit_allocator bitmap_ok bitmap_used nbits bitmap_alloc bitmap_mark
  bitmap_unmark bitmap_isset
proof unfold_locales
  fix b :: bitmap and i :: nat
  assume ok: "bitmap_ok b"
  show "bitmap_used b \<subseteq> {..<nbits b}" by (auto simp: bitmap_used_def)
  show "(bitmap_alloc b = Some (Inl ENOSPC, b) \<and> bitmap_used b = {..<nbits b}) \<or>
      (\<exists>i b'. bitmap_alloc b = Some (Inr i, b') \<and> bitmap_ok b' \<and> nbits b' = nbits b \<and> i < nbits b \<and>
         i \<notin> bitmap_used b \<and> bitmap_used b' = insert i (bitmap_used b))"
    using bitmap_alloc_spec [OF ok] by blast
  show "bitmap_mark b i = None" if "i \<in> bitmap_used b"
    using that bitmap_mark_eq [OF ok, of i] by (simp add: bitmap_used_def)
  show "\<exists>b'. bitmap_unmark b i = Some b' \<and> bitmap_ok b' \<and> nbits b' = nbits b \<and>
      bitmap_used b' = bitmap_used b - {i}" if "i \<in> bitmap_used b"
  proof -
    have "i < nbits b" using that by (simp add: bitmap_used_def)
    then show ?thesis using bitmap_unmark_eq [OF ok] bitmap_clear_bit [OF ok] that by simp
  qed
  assume i: "i < nbits b"
  show "\<exists>b'. bitmap_mark b i = Some b' \<and> bitmap_ok b' \<and> nbits b' = nbits b \<and>
      bitmap_used b' = insert i (bitmap_used b)" if "i \<notin> bitmap_used b"
    using that bitmap_mark_eq [OF ok i] bitmap_set_bit [OF ok i] by simp
  show "bitmap_unmark b i = None" if "i \<notin> bitmap_used b"
    using that bitmap_unmark_eq [OF ok i] by simp
  show "\<exists>w. bitmap_isset b i = Some w \<and> (w \<noteq> 0 \<longleftrightarrow> i \<in> bitmap_used b)"
    by (rule bitmap_isset_eq [OF ok i])
qed

section \<open>Properties\<close>

text \<open>C17. \<^verbatim>\<open>bitmap_alloc\<close> on a well-formed bitmap never trips an assertion: it returns \<open>ENOSPC\<close>
  and changes nothing exactly when all bits are set, and otherwise it returns the least clear
  index, which is below \<^verbatim>\<open>nbits\<close>, and sets that bit and no other.\<close>

theorem bitmap_alloc_least_free:
  assumes "bitmap_ok b"
  shows "(bitmap_alloc b = Some (Inl ENOSPC, b) \<and> bitmap_used b = {..<nbits b}) \<or>
    (\<exists>i b'. bitmap_alloc b = Some (Inr i, b') \<and> bitmap_ok b' \<and> nbits b' = nbits b \<and>
       i < nbits b \<and> i \<notin> bitmap_used b \<and> (\<forall>j < i. j \<in> bitmap_used b) \<and>
       bitmap_used b' = insert i (bitmap_used b))"
  by (rule bitmap_alloc_spec [OF assms])

lemma bitmap_ok_example: "bitmap_ok \<lparr>nbits = 3, bm_v = [0xf9]\<rparr>"
proof -
  have "bit (0xf9 :: 8 word) (i mod 8)" if "3 \<le> i" "i div 8 < 1" for i :: nat
  proof -
    from that have "i \<in> {3, 4, 5, 6, 7}" by auto
    then show ?thesis by auto
  qed
  then show ?thesis by (auto simp: bitmap_ok_def bm_bit_def u32_max_def)
qed

theorem bitmap_alloc_least_free_witness:
  "bitmap_ok \<lparr>nbits = 3, bm_v = [0xf9]\<rparr> \<and> bitmap_alloc \<lparr>nbits = 3, bm_v = [0xf9]\<rparr> \<noteq> None"
  using bitmap_ok_example bitmap_alloc_least_free [OF bitmap_ok_example] by auto

text \<open>A bitmap of any size up to \<^verbatim>\<open>2^32 - 8\<close> is created with no used index and with its
  leftover bits set, so that the allocator never hands out an index beyond the size: after
  creating it, allocation succeeds exactly while fewer than \<^verbatim>\<open>nbits\<close> indices are in use.\<close>

theorem bitmap_create_usable:
  assumes "n + 7 < u32_max"
  shows "\<exists>b. bitmap_create True True n = Some (Some b) \<and> bitmap_ok b \<and> nbits b = n \<and>
    bitmap_used b = {} \<and> ((\<exists>i b'. bitmap_alloc b = Some (Inr i, b')) \<longleftrightarrow> 0 < n)"
  using bitmap_create_ok [OF assms] bmap.alloc_succeeds_iff by force

theorem bitmap_create_usable_witness:
  "\<exists>b. bitmap_create True True 11 = Some (Some b) \<and> bitmap_ok b \<and> nbits b = 11 \<and> bitmap_used b = {}"
  using bitmap_create_usable [of 11] by (auto simp: u32_max_def)

end
