(* ===== verification/KQueue.thy ===== *)
theory KQueue
  imports Kernel_Prelude
begin

text \<open>
  The kernel's queue of pointers, a growing ring buffer (\<^verbatim>\<open>kern/lib/queue.c\<close>).  The indices are
  naturals below \<^verbatim>\<open>size\<close>; a cell nobody wrote yet is \<open>None\<close>.  \<^verbatim>\<open>q_addtail\<close> and \<^verbatim>\<open>q_grow\<close> call each
  other, so their common recursion has fuel, and the entry points use two levels: the theorems
  show that under the invariant the second level never grows again.  The abstraction \<open>q_list\<close>
  is the list of the queued pointers in order, and the locale \<open>fifo\<close> is what the scheduler
  relies on.
\<close>

section \<open>Model\<close>

record 'a queue =
  q_size :: nat
  q_nextwrite :: nat
  q_nextread :: nat
  q_data :: "'a option list"

text \<open>
  The doubling loop of \<^verbatim>\<open>q_grow\<close>.  The double of an \<^verbatim>\<open>int\<close> beyond the 31-bit range is negative,
  so \<^verbatim>\<open>assert(nsize > 0)\<close> stops there and at zero.
\<close>

function q_newsize :: "nat \<Rightarrow> nat \<Rightarrow> nat outcome" where
  "q_newsize nsize targetsize =
     (if nsize < targetsize then
        (if 0 < nsize * 2 \<and> nsize * 2 < 2 ^ 31 then q_newsize (nsize * 2) targetsize else None)
      else Some nsize)"
  by pat_completeness auto
termination
  by (relation "measure (\<lambda>(nsize, targetsize). targetsize - nsize)") auto

declare q_newsize.simps [simp del]

text \<open>The cells of \<^verbatim>\<open>kmalloc(n * sizeof(void *))\<close>, the product being a 32-bit \<^verbatim>\<open>size_t\<close>.\<close>

definition alloc_cells :: "nat \<Rightarrow> 'a option list" where
  "alloc_cells n = replicate (n * 4 mod u32_max div 4) None"

definition q_create :: "bool \<Rightarrow> bool \<Rightarrow> nat \<Rightarrow> 'a queue option" where
  "q_create struct_ok data_ok n =
     (if \<not> struct_ok then None
      else if \<not> data_ok then None
      else Some \<lparr>q_size = n, q_nextwrite = 0, q_nextread = 0, q_data = alloc_cells n\<rparr>)"

definition q_empty :: "'a queue \<Rightarrow> bool" where
  "q_empty q \<longleftrightarrow> q_nextwrite q = q_nextread q"

text \<open>
  The copy loop of \<^verbatim>\<open>q_grow\<close>, from index \<open>i\<close> of the old data to \<open>onw\<close>; \<open>addtail\<close> is the call of
  \<^verbatim>\<open>q_addtail\<close> on the new queue, which must not fail.
\<close>

partial_function (option) q_refill ::
  "('a queue \<Rightarrow> 'a \<Rightarrow> ((errno + unit) \<times> 'a queue) outcome) \<Rightarrow> nat \<Rightarrow> nat \<Rightarrow> 'a option list \<Rightarrow> nat \<Rightarrow>
   'a queue \<Rightarrow> 'a queue outcome" where
  "q_refill addtail osize onw olddata i q =
     (if i = onw then Some q
      else do {
        cell \<leftarrow> load_cell olddata i;
        ptr \<leftarrow> cell;
        (result, q') \<leftarrow> addtail q ptr;
        kassert (result = Inr ());
        q_refill addtail osize onw olddata ((i + 1) mod osize) q'
      })"

definition q_grow_with ::
  "('a queue \<Rightarrow> 'a \<Rightarrow> ((errno + unit) \<times> 'a queue) outcome) \<Rightarrow> bool \<Rightarrow> 'a queue \<Rightarrow> nat \<Rightarrow>
   ((errno + unit) \<times> 'a queue) outcome" where
  "q_grow_with addtail mem_ok q targetsize = do {
     nsize \<leftarrow> q_newsize (q_size q) targetsize;
     if \<not> mem_ok then Some (Inl ENOMEM, q)
     else do {
       q' \<leftarrow> q_refill addtail (q_size q) (q_nextwrite q) (q_data q) (q_nextread q)
               \<lparr>q_size = nsize, q_nextwrite = 0, q_nextread = 0, q_data = alloc_cells nsize\<rparr>;
       Some (Inr (), q')
     }
   }"

fun q_addtail_fuel :: "nat \<Rightarrow> bool \<Rightarrow> 'a queue \<Rightarrow> 'a \<Rightarrow> ((errno + unit) \<times> 'a queue) outcome" where
  "q_addtail_fuel 0 mem_ok q ptr = None"
| "q_addtail_fuel (Suc fuel) mem_ok q ptr = do {
     kassert (0 < q_size q);
     let nextnext = (q_nextwrite q + 1) mod q_size q;
     if nextnext = q_nextread q then do {
       (result, q') \<leftarrow> q_grow_with (q_addtail_fuel fuel mem_ok) mem_ok q (q_size q + 1);
       if result \<noteq> Inr () then Some (result, q')
       else do {
         data \<leftarrow> store_cell (q_data q') (q_nextwrite q') (Some ptr);
         Some (Inr (), q'\<lparr>q_data := data, q_nextwrite := (q_nextwrite q' + 1) mod q_size q'\<rparr>)
       }
     }
     else do {
       data \<leftarrow> store_cell (q_data q) (q_nextwrite q) (Some ptr);
       Some (Inr (), q\<lparr>q_data := data, q_nextwrite := nextnext\<rparr>)
     }
   }"

definition q_addtail :: "bool \<Rightarrow> 'a queue \<Rightarrow> 'a \<Rightarrow> ((errno + unit) \<times> 'a queue) outcome" where
  "q_addtail = q_addtail_fuel 2"

definition q_grow :: "bool \<Rightarrow> 'a queue \<Rightarrow> nat \<Rightarrow> ((errno + unit) \<times> 'a queue) outcome" where
  "q_grow mem_ok = q_grow_with (q_addtail_fuel 1 mem_ok) mem_ok"

definition q_preallocate :: "bool \<Rightarrow> 'a queue \<Rightarrow> nat \<Rightarrow> ((errno + unit) \<times> 'a queue) outcome" where
  "q_preallocate mem_ok q n = do {
     kassert (0 < q_size q);
     if n > q_size q then q_grow mem_ok q n else Some (Inr (), q)
   }"

definition q_remhead :: "'a queue \<Rightarrow> ('a \<times> 'a queue) outcome" where
  "q_remhead q = do {
     kassert (0 < q_size q);
     kassert (\<not> q_empty q);
     cell \<leftarrow> load_cell (q_data q) (q_nextread q);
     ret \<leftarrow> cell;
     Some (ret, q\<lparr>q_nextread := (q_nextread q + 1) mod q_size q\<rparr>)
   }"

definition q_destroy :: "'a queue \<Rightarrow> unit outcome" where
  "q_destroy q = kassert (q_empty q)"

definition q_getstart :: "'a queue \<Rightarrow> nat" where
  "q_getstart q = q_nextread q"

definition q_getend :: "'a queue \<Rightarrow> nat" where
  "q_getend q = q_nextwrite q"

definition q_getsize :: "'a queue \<Rightarrow> nat" where
  "q_getsize q = q_size q"

definition q_getguy :: "'a queue \<Rightarrow> int \<Rightarrow> 'a outcome" where
  "q_getguy q index = do {
     kassert (0 \<le> index \<and> index < int (q_size q));
     cell \<leftarrow> load_cell (q_data q) (nat index);
     cell
   }"

section \<open>Positions on the ring\<close>

text \<open>Number of steps from index \<open>r\<close> to index \<open>w\<close> on a ring of \<open>n\<close> cells.\<close>

definition ring_dist :: "nat \<Rightarrow> nat \<Rightarrow> nat \<Rightarrow> nat" where
  "ring_dist n r w = (if r \<le> w then w - r else n - r + w)"

lemma ring_dist_less: "r < n \<Longrightarrow> w < n \<Longrightarrow> ring_dist n r w < n"
  by (auto simp: ring_dist_def)

lemma ring_dist_zero: "r < n \<Longrightarrow> w < n \<Longrightarrow> ring_dist n r w = 0 \<longleftrightarrow> r = w"
  by (auto simp: ring_dist_def)

lemma ring_next: "i < n \<Longrightarrow> Suc i mod n = (if Suc i = n then 0 else Suc i)"
  by auto

lemma ring_dist_step_w:
  assumes "r < n" "w < n" "(w + 1) mod n \<noteq> r"
  shows "ring_dist n r ((w + 1) mod n) = Suc (ring_dist n r w)"
  using assms by (auto simp: ring_dist_def ring_next split: if_splits)

lemma ring_dist_step_r:
  assumes "r < n" "w < n" "r \<noteq> w"
  shows "ring_dist n r w = Suc (ring_dist n ((r + 1) mod n) w)"
  using assms by (auto simp: ring_dist_def ring_next split: if_splits)

lemma ring_full:
  assumes "r < n" "w < n" "0 < n"
  shows "(w + 1) mod n = r \<longleftrightarrow> Suc (ring_dist n r w) = n"
  using assms by (auto simp: ring_dist_def ring_next split: if_splits)

lemma ring_add: "r < n \<Longrightarrow> k < n \<Longrightarrow> (r + k) mod n = (if r + k < n then r + k else r + k - (n :: nat))"
  by (auto simp: mod_if)

lemma ring_pos_w:
  assumes "r < n" "w < n"
  shows "(r + ring_dist n r w) mod n = w"
  using assms by (auto simp: ring_dist_def)

lemma ring_pos_neq_w:
  assumes "r < n" "w < n" "k < ring_dist n r w"
  shows "(r + k) mod n \<noteq> w"
proof -
  have "k < n" using assms ring_dist_less [of r n w] by simp
  then show ?thesis using assms by (auto simp: ring_add ring_dist_def split: if_splits)
qed

lemma ring_pos_Suc: "((r + 1) mod n + k) mod n = (r + Suc k) mod (n :: nat)"
  by (simp add: mod_add_left_eq)

section \<open>Invariant and abstraction\<close>

definition q_count :: "'a queue \<Rightarrow> nat" where
  "q_count q = ring_dist (q_size q) (q_nextread q) (q_nextwrite q)"

definition q_cell :: "'a queue \<Rightarrow> nat \<Rightarrow> 'a option" where
  "q_cell q k = q_data q ! ((q_nextread q + k) mod q_size q)"

definition q_list :: "'a queue \<Rightarrow> 'a list" where
  "q_list q = map (\<lambda>k. the (q_cell q k)) [0..<q_count q]"

definition queue_ok :: "'a queue \<Rightarrow> bool" where
  "queue_ok q \<longleftrightarrow> 0 < q_size q \<and> q_nextread q < q_size q \<and> q_nextwrite q < q_size q \<and>
     length (q_data q) = q_size q \<and> (\<forall>k < q_count q. q_cell q k \<noteq> None)"

lemma q_list_length [simp]: "length (q_list q) = q_count q"
  by (simp add: q_list_def)

lemma queue_count_less: "queue_ok q \<Longrightarrow> q_count q < q_size q"
  by (simp add: queue_ok_def q_count_def ring_dist_less)

lemma queue_empty_iff: "queue_ok q \<Longrightarrow> q_empty q \<longleftrightarrow> q_list q = []"
  using ring_dist_zero [of "q_nextread q" "q_size q" "q_nextwrite q"]
  by (auto simp: q_empty_def q_list_def queue_ok_def q_count_def)

definition q_full :: "'a queue \<Rightarrow> bool" where
  "q_full q \<longleftrightarrow> Suc (q_count q) = q_size q"

lemma queue_full_iff:
  "queue_ok q \<Longrightarrow> (q_nextwrite q + 1) mod q_size q = q_nextread q \<longleftrightarrow> q_full q"
  unfolding q_full_def queue_ok_def q_count_def by (rule ring_full) auto

text \<open>Writing at the write index and advancing it appends.\<close>

definition q_push :: "'a queue \<Rightarrow> 'a \<Rightarrow> 'a queue" where
  "q_push q x = q\<lparr>q_data := (q_data q)[q_nextwrite q := Some x],
                 q_nextwrite := (q_nextwrite q + 1) mod q_size q\<rparr>"

lemma q_push_correct:
  assumes ok: "queue_ok q" and room: "\<not> q_full q"
  shows "queue_ok (q_push q x)" and "q_list (q_push q x) = q_list q @ [x]"
    and "q_size (q_push q x) = q_size q"
proof -
  let ?n = "q_size q" and ?r = "q_nextread q" and ?w = "q_nextwrite q"
  have rng: "?r < ?n" "?w < ?n" "length (q_data q) = ?n" "0 < ?n" using ok by (auto simp: queue_ok_def)
  have nofull: "(?w + 1) mod ?n \<noteq> ?r" using room queue_full_iff [OF ok] by simp
  have cnt: "q_count (q_push q x) = Suc (q_count q)"
    using ring_dist_step_w [OF rng(1,2) nofull] by (simp add: q_count_def q_push_def)
  have last: "q_cell (q_push q x) (q_count q) = Some x"
    using ring_pos_w [OF rng(1,2)] rng by (simp add: q_cell_def q_push_def q_count_def)
  have other: "q_cell (q_push q x) k = q_cell q k" if "k < q_count q" for k
    using ring_pos_neq_w [OF rng(1,2), of k] that by (simp add: q_cell_def q_push_def q_count_def)
  show "q_size (q_push q x) = ?n" by (simp add: q_push_def)
  show "q_list (q_push q x) = q_list q @ [x]" using last other by (simp add: q_list_def cnt)
  have "q_cell (q_push q x) k \<noteq> None" if "k < Suc (q_count q)" for k
    using that ok last other [of k] by (cases "k = q_count q") (auto simp: queue_ok_def)
  then show "queue_ok (q_push q x)" unfolding queue_ok_def cnt using rng by (simp add: q_push_def)
qed

lemma q_addtail_room:
  assumes "queue_ok q" "\<not> q_full q"
  shows "q_addtail_fuel (Suc fuel) mem_ok q x = Some (Inr (), q_push q x)"
  using assms queue_full_iff [OF assms(1)] by (simp add: queue_ok_def q_push_def Let_def)

section \<open>Growing\<close>

lemma q_newsize_spec:
  "q_newsize n t = Some m \<Longrightarrow> n \<le> m \<and> t \<le> m \<and> (m = n \<or> m < 2 ^ 31)"
  by (induction n t rule: q_newsize.induct) (subst (asm) (2) q_newsize.simps, auto split: if_splits)

lemma q_newsize_double: "0 < n \<Longrightarrow> n * 2 < 2 ^ 31 \<Longrightarrow> q_newsize n (n + 1) = Some (n * 2)"
  by (simp add: q_newsize.simps [of n] q_newsize.simps [of "n * 2"])

lemma q_newsize_overflow: "2 ^ 31 \<le> n * 2 \<Longrightarrow> q_newsize n (n + 1) = None"
  by (simp add: q_newsize.simps [of n])

text \<open>The copy loop moves the rest of the old queue behind what the new queue already holds.\<close>

lemma q_refill_spec:
  assumes "queue_ok old" "queue_ok q" "q_count q + q_count old < q_size q"
  shows "\<exists>q'. q_refill (q_addtail_fuel (Suc fuel) mem_ok) (q_size old) (q_nextwrite old)
      (q_data old) (q_nextread old) q = Some q' \<and> queue_ok q' \<and> q_size q' = q_size q \<and>
      q_list q' = q_list q @ q_list old"
  using assms
proof (induction "q_count old" arbitrary: old q)
  case 0
  then have "q_nextread old = q_nextwrite old" "q_list old = []"
    using ring_dist_zero [of "q_nextread old" "q_size old" "q_nextwrite old"]
    by (auto simp: queue_ok_def q_count_def q_list_def)
  then show ?case using 0 by (simp add: q_refill.simps)
next
  case (Suc m)
  let ?n = "q_size old" and ?r = "q_nextread old" and ?w = "q_nextwrite old"
  let ?old = "old\<lparr>q_nextread := (?r + 1) mod ?n\<rparr>"
  have rng: "?r < ?n" "?w < ?n" "length (q_data old) = ?n" using Suc.prems by (auto simp: queue_ok_def)
  have neq: "?r \<noteq> ?w" using Suc.hyps(2) ring_dist_zero [OF rng(1,2)] by (simp add: q_count_def)
  have cnt: "q_count old = Suc (q_count ?old)"
    using ring_dist_step_r [OF rng(1,2) neq] by (simp add: q_count_def)
  have shift: "q_cell ?old k = q_cell old (Suc k)" for k
    by (simp add: q_cell_def mod_add_left_eq)
  have first: "q_cell old 0 \<noteq> None" using Suc.prems(1) cnt by (simp add: queue_ok_def)
  then obtain x where x: "q_cell old 0 = Some x" by auto
  have cell: "q_data old ! ?r = Some x" using x rng by (simp add: q_cell_def)
  have "queue_ok ?old" using Suc.prems(1) cnt rng shift by (auto simp: queue_ok_def)
  moreover have "\<not> q_full q" using Suc.prems(3) cnt by (simp add: q_full_def)
  note push = q_push_correct [OF Suc.prems(2) this] q_addtail_room [OF Suc.prems(2) this]
  moreover have "q_count (q_push q x) = Suc (q_count q)"
    using push(2) [of x] by (metis length_append_singleton q_list_length)
  ultimately obtain q' where q': "q_refill (q_addtail_fuel (Suc fuel) mem_ok) ?n ?w (q_data old)
      ((?r + 1) mod ?n) (q_push q x) = Some q'" "queue_ok q'" "q_size q' = q_size q"
      "q_list q' = q_list (q_push q x) @ q_list ?old"
    using Suc.hyps(1) [of ?old "q_push q x"] Suc.hyps(2) Suc.prems(3) cnt by auto
  have "q_list old = x # q_list ?old"
    unfolding q_list_def cnt upt_conv_Cons [OF zero_less_Suc] map_Suc_upt [symmetric]
    using x shift by (simp add: comp_def)
  with q' push(2) show ?case
    using rng neq cell by (subst q_refill.simps) (simp add: push(4) del: q_addtail_fuel.simps)
qed

lemma alloc_cells_length: "n < 2 ^ 30 \<Longrightarrow> length (alloc_cells n) = n"
  by (simp add: alloc_cells_def u32_max_def)

lemma fresh_queue_ok:
  "0 < n \<Longrightarrow> n < 2 ^ 30 \<Longrightarrow>
     queue_ok \<lparr>q_size = n, q_nextwrite = 0, q_nextread = 0, q_data = alloc_cells n\<rparr> \<and>
     q_list \<lparr>q_size = n, q_nextwrite = 0, q_nextread = 0, q_data = alloc_cells n\<rparr> = []"
  by (simp add: queue_ok_def q_count_def q_list_def ring_dist_def alloc_cells_length)

lemma q_grow_with_spec:
  assumes ok: "queue_ok q" and n: "q_newsize (q_size q) t = Some n" and lim: "n < 2 ^ 30"
  shows "\<exists>q'. q_grow_with (q_addtail_fuel (Suc fuel) mem_ok) True q t = Some (Inr (), q') \<and>
    queue_ok q' \<and> q_size q' = n \<and> q_list q' = q_list q"
proof -
  let ?new = "\<lparr>q_size = n, q_nextwrite = 0, q_nextread = 0, q_data = alloc_cells n\<rparr> :: 'a queue"
  have "q_size q \<le> n" using q_newsize_spec [OF n] by simp
  then have pos: "0 < n" "q_count q < n" using ok queue_count_less [OF ok] by (auto simp: queue_ok_def)
  note new = fresh_queue_ok [OF pos(1) lim, where 'a = 'a]
  have "q_count ?new = 0" by (simp add: q_count_def ring_dist_def)
  then obtain q' where "q_refill (q_addtail_fuel (Suc fuel) mem_ok) (q_size q) (q_nextwrite q) (q_data q)
      (q_nextread q) ?new = Some q'" "queue_ok q'" "q_size q' = n" "q_list q' = q_list q"
    using q_refill_spec [OF ok, of ?new fuel mem_ok] new pos by auto
  then show ?thesis using n by (simp add: q_grow_with_def del: q_addtail_fuel.simps)
qed

lemma q_addtail_full:
  assumes ok: "queue_ok q" and full: "q_full q" and lim: "q_size q < 2 ^ 29"
  shows "\<exists>q'. q_addtail_fuel (Suc (Suc fuel)) True q x = Some (Inr (), q') \<and> queue_ok q' \<and>
    q_size q' = q_size q * 2 \<and> q_list q' = q_list q @ [x]"
proof -
  have pos: "0 < q_size q" using ok by (simp add: queue_ok_def)
  have "q_newsize (q_size q) (q_size q + 1) = Some (q_size q * 2)"
    using pos lim by (intro q_newsize_double) auto
  from q_grow_with_spec [OF ok this, of fuel True] lim obtain q' where
    g: "q_grow_with (q_addtail_fuel (Suc fuel) True) True q (q_size q + 1) = Some (Inr (), q')"
    and q': "queue_ok q'" "q_size q' = q_size q * 2" "q_list q' = q_list q" by auto
  have "q_count q' = q_count q" using q'(3) by (metis q_list_length)
  then have room: "\<not> q_full q'" using q'(2) full pos by (simp add: q_full_def)
  have "q_addtail_fuel (Suc (Suc fuel)) True q x = Some (Inr (), q_push q' x)"
    using g q'(1) pos queue_full_iff [OF ok] full
    by (subst q_addtail_fuel.simps) (simp add: q_push_def queue_ok_def del: q_addtail_fuel.simps)
  then show ?thesis using q_push_correct [OF q'(1) room] q' by auto
qed

lemma q_addtail_nomem:
  assumes ok: "queue_ok q" and full: "q_full q" and lim: "q_size q < 2 ^ 29"
  shows "q_addtail_fuel (Suc fuel) False q x = Some (Inl ENOMEM, q)"
proof -
  have pos: "0 < q_size q" using ok by (simp add: queue_ok_def)
  have "q_newsize (q_size q) (q_size q + 1) = Some (q_size q * 2)"
    using pos lim by (intro q_newsize_double) auto
  then show ?thesis using pos queue_full_iff [OF ok] full by (simp add: q_grow_with_def)
qed

text \<open>The behaviour of \<^verbatim>\<open>q_addtail\<close> does not depend on fuel beyond two.\<close>

lemma q_addtail_spec:
  assumes ok: "queue_ok q" and lim: "q_size q < 2 ^ 29"
  shows "\<exists>r q'. q_addtail_fuel (Suc (Suc fuel)) mem_ok q x = Some (r, q') \<and> queue_ok q' \<and>
    (if q_full q \<and> \<not> mem_ok then r = Inl ENOMEM \<and> q' = q
     else r = Inr () \<and> q_list q' = q_list q @ [x] \<and>
       q_size q' = (if q_full q then q_size q * 2 else q_size q))"
proof (cases "q_full q")
  case False
  then show ?thesis
    using q_addtail_room [OF ok False, of "Suc fuel" mem_ok x] q_push_correct [OF ok False, of x]
    by (simp del: q_addtail_fuel.simps)
next
  case True
  then show ?thesis
    using q_addtail_full [OF ok True lim, of fuel x] q_addtail_nomem [OF ok True lim, of "Suc fuel" x] ok
    by (cases mem_ok) (auto simp del: q_addtail_fuel.simps)
qed

lemma q_remhead_spec:
  assumes ok: "queue_ok q" and "q_list q = x # xs"
  shows "\<exists>q'. q_remhead q = Some (x, q') \<and> queue_ok q' \<and> q_size q' = q_size q \<and> q_list q' = xs"
proof -
  let ?n = "q_size q" and ?r = "q_nextread q" and ?w = "q_nextwrite q"
  let ?q = "q\<lparr>q_nextread := (?r + 1) mod ?n\<rparr>"
  have rng: "?r < ?n" "?w < ?n" "length (q_data q) = ?n" using ok by (auto simp: queue_ok_def)
  have ne: "\<not> q_empty q" using queue_empty_iff [OF ok] assms(2) by simp
  then have cnt: "q_count q = Suc (q_count ?q)"
    using ring_dist_step_r [OF rng(1,2)] by (simp add: q_count_def q_empty_def)
  have shift: "q_cell ?q k = q_cell q (Suc k)" for k by (simp add: q_cell_def mod_add_left_eq)
  obtain y where y: "q_cell q 0 = Some y" using ok cnt by (auto simp: queue_ok_def)
  have "q_list q = y # q_list ?q"
    unfolding q_list_def cnt upt_conv_Cons [OF zero_less_Suc] map_Suc_upt [symmetric]
    using y shift by (simp add: comp_def)
  then have "y = x" "q_list ?q = xs" using assms(2) by auto
  moreover have "queue_ok ?q" using ok cnt rng shift by (auto simp: queue_ok_def)
  moreover have "q_remhead q = Some (y, ?q)" using ne rng y by (simp add: q_remhead_def q_cell_def)
  ultimately show ?thesis by simp
qed

lemma q_newsize_bound:
  assumes "0 < n" "t \<le> 2 ^ 29"
  shows "\<exists>m. q_newsize n t = Some m \<and> (n < t \<longrightarrow> m < 2 * t) \<and> (t \<le> n \<longrightarrow> m = n)"
  using assms
proof (induction n t rule: q_newsize.induct)
  case (1 n t)
  show ?case
  proof (cases "n < t")
    case True
    then have c: "0 < n * 2 \<and> n * 2 < 2 ^ 31" using "1.prems" by simp
    then have "q_newsize n t = q_newsize (n * 2) t" using True by (simp add: q_newsize.simps [of n])
    then show ?thesis using "1.IH" [OF True c] "1.prems" True by (cases "n * 2 < t") auto
  next
    case False
    then show ?thesis by (simp add: q_newsize.simps [of n])
  qed
qed

lemma q_preallocate_spec:
  assumes ok: "queue_ok q" and n: "n \<le> 2 ^ 29"
  shows "\<exists>r q'. q_preallocate mem_ok q n = Some (r, q') \<and> queue_ok q' \<and> q_list q' = q_list q \<and>
    q_size q \<le> q_size q' \<and> q_size q' \<le> max (q_size q) (2 * n) \<and> (if r = Inr () then n \<le> q_size q' else \<not> mem_ok \<and> r = Inl ENOMEM \<and> q' = q)"
proof (cases "n > q_size q")
  case False
  then show ?thesis using ok by (simp add: q_preallocate_def queue_ok_def)
next
  case True
  have pos: "0 < q_size q" using ok by (simp add: queue_ok_def)
  then obtain m where m: "q_newsize (q_size q) n = Some m" "m < 2 * n"
    using q_newsize_bound [OF pos n] True by auto
  have "n \<le> m \<and> q_size q \<le> m" using q_newsize_spec [OF m(1)] by simp
  moreover have "m < 2 ^ 30" using m(2) n by simp
  ultimately show ?thesis using True pos m q_grow_with_spec [OF ok m(1), of 0 True] ok
    by (cases mem_ok) (fastforce simp: q_preallocate_def q_grow_def q_grow_with_def)+
qed

section \<open>The interface of a first-in first-out queue\<close>

locale fifo =
  fixes ok :: "'q \<Rightarrow> bool"
    and elems :: "'q \<Rightarrow> 'a list"
    and room :: "'q \<Rightarrow> nat"
    and is_empty :: "'q \<Rightarrow> bool"
    and addtail :: "bool \<Rightarrow> 'q \<Rightarrow> 'a \<Rightarrow> ((errno + unit) \<times> 'q) outcome"
    and remhead :: "'q \<Rightarrow> ('a \<times> 'q) outcome"
  assumes empty_iff: "ok q \<Longrightarrow> is_empty q \<longleftrightarrow> elems q = []"
    and add_room: "ok q \<Longrightarrow> 0 < room q \<Longrightarrow>
      \<exists>q'. addtail m q x = Some (Inr (), q') \<and> ok q' \<and> room q' = room q - 1 \<and> elems q' = elems q @ [x]"
    and rem_Cons: "ok q \<Longrightarrow> elems q = x # xs \<Longrightarrow>
      \<exists>q'. remhead q = Some (x, q') \<and> ok q' \<and> room q' = Suc (room q) \<and> elems q' = xs"
    and rem_Nil: "ok q \<Longrightarrow> elems q = [] \<Longrightarrow> remhead q = None"
begin

lemma rem_Some_iff: "ok q \<Longrightarrow> (\<exists>x q'. remhead q = Some (x, q')) \<longleftrightarrow> \<not> is_empty q"
  using rem_Cons rem_Nil empty_iff by (cases "elems q") fastforce+

text \<open>Taking the head and putting something at the tail never needs memory and rotates the queue.\<close>

lemma rotate:
  assumes "ok q" "elems q = x # xs"
  shows "\<exists>q' q''. remhead q = Some (x, q') \<and> addtail m q' y = Some (Inr (), q'') \<and> ok q'' \<and>
    room q'' = room q \<and> elems q'' = xs @ [y]"
proof -
  obtain q' where q': "remhead q = Some (x, q')" "ok q'" "room q' = Suc (room q)" "elems q' = xs"
    using rem_Cons [OF assms] by blast
  then obtain q'' where "addtail m q' y = Some (Inr (), q'')" "ok q''" "room q'' = room q"
    "elems q'' = xs @ [y]"
    using add_room [of q' m y] by auto
  with q' show ?thesis by blast
qed

end

definition q_room :: "'a queue \<Rightarrow> nat" where
  "q_room q = q_size q - Suc (q_count q)"

interpretation ring: fifo queue_ok q_list q_room q_empty q_addtail q_remhead
proof unfold_locales
  fix q :: "'a queue" and x :: 'a and xs and m
  assume ok: "queue_ok q"
  show "q_empty q \<longleftrightarrow> q_list q = []" by (rule queue_empty_iff [OF ok])
  show "\<exists>q'. q_addtail m q x = Some (Inr (), q') \<and> queue_ok q' \<and> q_room q' = q_room q - 1 \<and>
      q_list q' = q_list q @ [x]" if "0 < q_room q"
  proof -
    have nf: "\<not> q_full q" using that by (auto simp: q_full_def q_room_def)
    note p = q_push_correct [OF ok nf, of x]
    have "q_count (q_push q x) = Suc (q_count q)" using p(2) by (metis length_append_singleton q_list_length)
    then show ?thesis using p q_addtail_room [OF ok nf, of 1 m x]
      by (simp add: q_addtail_def numeral_2_eq_2 q_room_def del: q_addtail_fuel.simps)
  qed
  show "\<exists>q'. q_remhead q = Some (x, q') \<and> queue_ok q' \<and> q_room q' = Suc (q_room q) \<and> q_list q' = xs"
    if l: "q_list q = x # xs"
  proof -
    obtain q' where q': "q_remhead q = Some (x, q')" "queue_ok q'" "q_size q' = q_size q" "q_list q' = xs"
      using q_remhead_spec [OF ok l] by blast
    have "q_count q = Suc (q_count q')" using l q'(4) by (metis length_Cons q_list_length)
    then show ?thesis using q' queue_count_less [OF ok] by (auto simp: q_room_def)
  qed
  show "q_remhead q = None" if "q_list q = []"
    using that queue_empty_iff [OF ok] by (auto simp: q_remhead_def kassert_def)
qed

section \<open>Properties\<close>

text \<open>C8. \<^verbatim>\<open>q_addtail\<close> on a well-formed queue of fewer than \<^verbatim>\<open>2^29\<close> cells always returns, for any
  recursion depth of at least two: it appends the pointer behind everything queued before, doubling
  the ring when it was full; only a full ring without memory gives \<open>ENOMEM\<close>, and then nothing
  changed.\<close>

theorem q_addtail_appends:
  assumes "queue_ok q" and "q_size q < 2 ^ 29" and "2 \<le> fuel"
  shows "\<exists>r q'. q_addtail_fuel fuel mem_ok q x = Some (r, q') \<and> queue_ok q' \<and>
    (if q_full q \<and> \<not> mem_ok then r = Inl ENOMEM \<and> q' = q
     else r = Inr () \<and> q_list q' = q_list q @ [x] \<and>
       q_size q' = (if q_full q then q_size q * 2 else q_size q))"
proof -
  obtain k where "fuel = Suc (Suc k)" using le_Suc_ex [OF assms(3)] by auto
  then show ?thesis using q_addtail_spec [OF assms(1,2), of k mem_ok x] by simp
qed

lemma queue_ok_example:
  "queue_ok \<lparr>q_size = 2, q_nextwrite = 0, q_nextread = 1, q_data = [None, Some (7 :: nat)]\<rparr>"
  by (simp add: queue_ok_def q_count_def q_cell_def ring_dist_def)

theorem q_addtail_appends_witness:
  "\<exists>r q'. q_addtail_fuel 2 True
      \<lparr>q_size = 2, q_nextwrite = 0, q_nextread = 1, q_data = [None, Some (7 :: nat)]\<rparr> 9 = Some (r, q') \<and>
      queue_ok q' \<and> r = Inr ()"
  using q_addtail_appends [OF queue_ok_example, of 2 True 9] by auto

text \<open>After a successful \<^verbatim>\<open>q_preallocate(q, n)\<close> the queue holds what it held and \<^verbatim>\<open>q_addtail\<close> needs
  no memory as long as fewer than \<open>n - 1\<close> pointers are queued: a ring of \<^verbatim>\<open>n\<close> cells stores
  \<open>n - 1\<close> pointers.\<close>

theorem q_preallocate_reserves:
  assumes "queue_ok q" and "n \<le> 2 ^ 29" and "q_preallocate mem_ok q n = Some (Inr (), q')"
    and "Suc (length (q_list q)) < n"
  shows "q_list q' = q_list q \<and> (\<exists>q''. q_addtail False q' x = Some (Inr (), q'') \<and> queue_ok q'' \<and>
    q_list q'' = q_list q @ [x])"
proof -
  have q': "queue_ok q'" "q_list q' = q_list q" "n \<le> q_size q'"
    using q_preallocate_spec [OF assms(1,2), of mem_ok] assms(3) by auto
  then have "0 < q_room q'" using assms(4) q_list_length [of q'] by (simp add: q_room_def)
  then show ?thesis using ring.add_room [OF q'(1), of False x] q' by auto
qed

theorem q_preallocate_reserves_witness:
  "\<exists>q''. q_addtail False \<lparr>q_size = 4, q_nextwrite = 0, q_nextread = 0, q_data = [None, None, None, None]\<rparr>
     (5 :: nat) = Some (Inr (), q'')"
proof -
  let ?q = "\<lparr>q_size = 2, q_nextwrite = 0, q_nextread = 0, q_data = [None, None]\<rparr> :: nat queue"
  let ?q' = "\<lparr>q_size = 4, q_nextwrite = 0, q_nextread = 0, q_data = [None, None, None, None]\<rparr> :: nat queue"
  have ok: "queue_ok ?q" by (simp add: queue_ok_def q_count_def ring_dist_def)
  have "q_newsize 2 4 = Some 4" by (simp add: q_newsize.simps [of 2] q_newsize.simps [of 4])
  moreover have "(4 * 4 :: nat) mod u32_max div 4 = Suc (Suc (Suc (Suc 0)))" by (simp add: u32_max_def)
  then have "alloc_cells 4 = [None, None, None, None :: nat option]"
    unfolding alloc_cells_def by (simp only: replicate.simps)
  ultimately have pre: "q_preallocate True ?q 4 = Some (Inr (), ?q')"
    by (simp add: q_preallocate_def q_grow_def q_grow_with_def q_refill.simps [of _ 2])
  have "Suc (length (q_list ?q)) < 4" by (simp add: q_count_def ring_dist_def)
  then show ?thesis using q_preallocate_reserves [OF ok _ pre] by auto
qed

end
