(* ===== verification/Scheduler.thy ===== *)
theory Scheduler
  imports KQueue
begin

text \<open>
  The round-robin scheduler (\<^verbatim>\<open>kern/thread/scheduler.c\<close>).  A thread is the address of its
  \<^verbatim>\<open>struct thread\<close>, a natural number.  The record \<open>sched\<close> holds the globals the file uses, the run
  queue and the interrupt level \<^verbatim>\<open>curspl\<close>; the thread system extends it.  The idle loop consumes a
  list of interrupt handlers, one for each return of \<^verbatim>\<open>cpu_idle\<close>; when the list ends with the queue
  still empty the machine idles forever, which is the outcome \<open>None\<close>.
\<close>

section \<open>Model\<close>

record sched =
  curspl :: nat
  runqueue :: "nat queue option"

definition scheduler_bootstrap :: "bool \<Rightarrow> bool \<Rightarrow> 'z sched_scheme \<Rightarrow> 'z sched_scheme outcome" where
  "scheduler_bootstrap struct_ok data_ok s =
     (case q_create struct_ok data_ok 32 of
        None \<Rightarrow> None
      | Some q \<Rightarrow> Some (s\<lparr>runqueue := Some q\<rparr>))"

definition scheduler_preallocate ::
  "bool \<Rightarrow> nat \<Rightarrow> 'z sched_scheme \<Rightarrow> ((errno + unit) \<times> 'z sched_scheme) outcome" where
  "scheduler_preallocate mem_ok nthreads s = do {
     kassert (0 < curspl s);
     q \<leftarrow> runqueue s;
     (r, q') \<leftarrow> q_preallocate mem_ok q nthreads;
     Some (r, s\<lparr>runqueue := Some q'\<rparr>)
   }"

text \<open>The loop of \<^verbatim>\<open>scheduler_killall\<close>, with the threads whose names it prints.\<close>

partial_function (option) killall_loop :: "nat queue \<Rightarrow> (nat list \<times> nat queue) outcome" where
  "killall_loop q =
     (if q_empty q then Some ([], q)
      else do {
        (t, q') \<leftarrow> q_remhead q;
        (dropped, q'') \<leftarrow> killall_loop q';
        Some (t # dropped, q'')
      })"

definition scheduler_killall :: "'z sched_scheme \<Rightarrow> (nat list \<times> 'z sched_scheme) outcome" where
  "scheduler_killall s = do {
     kassert (0 < curspl s);
     q \<leftarrow> runqueue s;
     (dropped, q') \<leftarrow> killall_loop q;
     Some (dropped, s\<lparr>runqueue := Some q'\<rparr>)
   }"

definition scheduler_shutdown :: "'z sched_scheme \<Rightarrow> (nat list \<times> 'z sched_scheme) outcome" where
  "scheduler_shutdown s = do {
     (dropped, s1) \<leftarrow> scheduler_killall s;
     kassert (0 < curspl s1);
     q \<leftarrow> runqueue s1;
     q_destroy q;
     Some (dropped, s1\<lparr>runqueue := None\<rparr>)
   }"

fun idle_loop ::
  "('z sched_scheme \<Rightarrow> 'z sched_scheme outcome) list \<Rightarrow> 'z sched_scheme \<Rightarrow> 'z sched_scheme outcome" where
  "idle_loop [] s = do {
     q \<leftarrow> runqueue s;
     if q_empty q then None else Some s
   }"
| "idle_loop (irq # irqs) s = do {
     q \<leftarrow> runqueue s;
     if q_empty q then do {
       s' \<leftarrow> irq s;
       idle_loop irqs s'
     }
     else Some s
   }"

definition scheduler ::
  "('z sched_scheme \<Rightarrow> 'z sched_scheme outcome) list \<Rightarrow> 'z sched_scheme \<Rightarrow> (nat \<times> 'z sched_scheme) outcome" where
  "scheduler irqs s = do {
     kassert (0 < curspl s);
     s' \<leftarrow> idle_loop irqs s;
     q \<leftarrow> runqueue s';
     (t, q') \<leftarrow> q_remhead q;
     Some (t, s'\<lparr>runqueue := Some q'\<rparr>)
   }"

definition make_runnable ::
  "bool \<Rightarrow> nat \<Rightarrow> 'z sched_scheme \<Rightarrow> ((errno + unit) \<times> 'z sched_scheme) outcome" where
  "make_runnable mem_ok t s = do {
     kassert (0 < curspl s);
     q \<leftarrow> runqueue s;
     (r, q') \<leftarrow> q_addtail mem_ok q t;
     Some (r, s\<lparr>runqueue := Some q'\<rparr>)
   }"

text \<open>\<^verbatim>\<open>print_run_queue\<close>: the numbered lines it prints, by thread.\<close>

partial_function (option) print_loop :: "nat queue \<Rightarrow> nat \<Rightarrow> nat \<Rightarrow> (nat \<times> nat) list outcome" where
  "print_loop q i k =
     (if i = q_getend q then Some []
      else do {
        t \<leftarrow> q_getguy q (int i);
        rest \<leftarrow> print_loop q ((i + 1) mod q_getsize q) (k + 1);
        Some ((k, t) # rest)
      })"

definition print_run_queue :: "'z sched_scheme \<Rightarrow> (nat \<times> nat) list outcome" where
  "print_run_queue s = do {
     q \<leftarrow> runqueue s;
     print_loop q (q_getstart q) 0
   }"

section \<open>Invariant, abstraction and laws\<close>

definition sched_ok :: "'z sched_scheme \<Rightarrow> bool" where
  "sched_ok s \<longleftrightarrow> (\<exists>q. runqueue s = Some q \<and> queue_ok q)"

definition runq :: "'z sched_scheme \<Rightarrow> nat list" where
  "runq s = (case runqueue s of None \<Rightarrow> [] | Some q \<Rightarrow> q_list q)"

definition runq_room :: "'z sched_scheme \<Rightarrow> nat" where
  "runq_room s = (case runqueue s of None \<Rightarrow> 0 | Some q \<Rightarrow> q_room q)"

named_theorems sched_defs

lemmas [sched_defs] = sched_ok_def runq_def runq_room_def

lemma scheduler_bootstrap_ok:
  "\<exists>s'. scheduler_bootstrap True True s = Some s' \<and> sched_ok s' \<and> runq s' = [] \<and> runq_room s' = 31 \<and>
     (\<exists>q. s' = s\<lparr>runqueue := Some q\<rparr>)"
proof -
  have "0 < (32 :: nat)" "(32 :: nat) < 2 ^ 30" by simp_all
  from fresh_queue_ok [OF this, where 'a = nat] show ?thesis
    by (auto simp: scheduler_bootstrap_def q_create_def sched_defs q_room_def q_count_def ring_dist_def)
qed

lemma make_runnable_ok:
  assumes "sched_ok s" "0 < curspl s" "0 < runq_room s"
  shows "\<exists>q'. make_runnable m t s = Some (Inr (), s\<lparr>runqueue := Some q'\<rparr>) \<and> queue_ok q' \<and>
    q_list q' = runq s @ [t] \<and> q_room q' = runq_room s - 1"
proof -
  obtain q where q: "runqueue s = Some q" "queue_ok q" using assms by (auto simp: sched_defs)
  then show ?thesis using ring.add_room [OF q(2), of m t] assms
    by (auto simp: make_runnable_def sched_defs)
qed

lemma idle_loop_ready: "sched_ok s \<Longrightarrow> runq s \<noteq> [] \<Longrightarrow> idle_loop irqs s = Some s"
  by (cases irqs) (auto simp: sched_defs ring.empty_iff)

lemma scheduler_ready:
  assumes "sched_ok s" "0 < curspl s" "runq s = t # ts"
  shows "\<exists>q'. scheduler irqs s = Some (t, s\<lparr>runqueue := Some q'\<rparr>) \<and> queue_ok q' \<and> q_list q' = ts \<and>
    q_room q' = Suc (runq_room s)"
proof -
  obtain q where q: "runqueue s = Some q" "queue_ok q" using assms by (auto simp: sched_defs)
  have "q_list q = t # ts" using assms(3) q by (simp add: sched_defs)
  from ring.rem_Cons [OF q(2) this] show ?thesis using q assms idle_loop_ready [of s irqs]
    by (auto simp: scheduler_def sched_defs)
qed

lemma killall_loop_spec:
  "queue_ok q \<Longrightarrow> \<exists>q'. killall_loop q = Some (q_list q, q') \<and> queue_ok q' \<and> q_list q' = []"
proof (induction "q_list q" arbitrary: q)
  case Nil
  then show ?case using ring.empty_iff [OF Nil.prems] by (subst killall_loop.simps) simp
next
  case (Cons t ts)
  obtain q1 where q1: "q_remhead q = Some (t, q1)" "queue_ok q1" "q_list q1 = ts"
    using ring.rem_Cons [OF Cons.prems, of t ts] Cons.hyps(2) by auto
  then obtain q' where "killall_loop q1 = Some (ts, q')" "queue_ok q'" "q_list q' = []"
    using Cons.hyps(1) [of q1] by auto
  moreover have "\<not> q_empty q" using ring.empty_iff [OF Cons.prems] Cons.hyps(2) by auto
  ultimately show ?case using q1(1) Cons.hyps(2) [symmetric] by (subst killall_loop.simps) simp
qed

lemma print_loop_spec:
  assumes ok: "queue_ok q" and "j + n = q_count q"
  shows "print_loop q ((q_nextread q + j) mod q_size q) k =
    Some (map (\<lambda>m. (k + m, q_list q ! (j + m))) [0..<n])"
  using assms(2)
proof (induction n arbitrary: j k)
  case 0
  have "q_nextread q < q_size q" "q_nextwrite q < q_size q" using ok by (auto simp: queue_ok_def)
  from ring_pos_w [OF this] 0 show ?case
    by (subst print_loop.simps) (simp add: q_getend_def q_count_def)
next
  case (Suc n)
  let ?i = "(q_nextread q + j) mod q_size q"
  have rng: "q_nextread q < q_size q" "q_nextwrite q < q_size q" "length (q_data q) = q_size q"
    using ok by (auto simp: queue_ok_def)
  have j: "j < q_count q" using Suc.prems by simp
  then have ne: "?i \<noteq> q_nextwrite q" using ring_pos_neq_w [OF rng(1,2)] by (simp add: q_count_def)
  have lt: "?i < q_size q" using rng by (intro mod_less_divisor) simp
  have "q_cell q j \<noteq> None" using ok j by (simp add: queue_ok_def)
  then have "q_data q ! ?i = Some (q_list q ! j)" using j by (auto simp: q_cell_def q_list_def)
  then have get: "q_getguy q (int ?i) = Some (q_list q ! j)" using lt rng by (simp add: q_getguy_def)
  have next_i: "(?i + 1) mod q_size q = (q_nextread q + Suc j) mod q_size q"
    by (simp add: mod_Suc_eq)
  have "[0..<Suc n] = 0 # map Suc [0..<n]" by (simp add: upt_conv_Cons map_Suc_upt del: upt_Suc)
  then show ?case using ne get Suc.IH [of "Suc j" "k + 1"] Suc.prems next_i
    by (subst print_loop.simps) (simp add: q_getend_def q_getsize_def comp_def del: upt_Suc)
qed

section \<open>Properties\<close>

text \<open>
  What the idle loop waits for, as a relation: \<open>idle_run irqs s s'\<close> holds when the interrupts \<open>irqs\<close>,
  taken one at a time from \<open>s\<close> while the run queue is empty, first make it nonempty in \<open>s'\<close>.
\<close>

inductive idle_run ::
  "('z sched_scheme \<Rightarrow> 'z sched_scheme outcome) list \<Rightarrow> 'z sched_scheme \<Rightarrow> 'z sched_scheme \<Rightarrow> bool" where
  ready: "sched_ok s \<Longrightarrow> runq s \<noteq> [] \<Longrightarrow> idle_run irqs s s"
| wait: "sched_ok s \<Longrightarrow> runq s = [] \<Longrightarrow> irq s = Some s1 \<Longrightarrow> idle_run irqs s1 s' \<Longrightarrow>
    idle_run (irq # irqs) s s'"

lemma idle_run_loop: "idle_run irqs s s' \<Longrightarrow> idle_loop irqs s = Some s' \<and> sched_ok s' \<and> runq s' \<noteq> []"
proof (induction rule: idle_run.induct)
  case (ready s irqs)
  then show ?case by (simp add: idle_loop_ready)
next
  case (wait s irq s1 irqs s')
  then show ?case by (auto simp: sched_defs ring.empty_iff)
qed

text \<open>C18. The scheduler does not lose a thread made runnable while it idles: it returns the head of the
  run queue in the first state in which the queue is nonempty, whatever number of interrupts that
  takes, and the other runnable threads stay queued in order.\<close>

theorem scheduler_returns_first_ready:
  assumes "0 < curspl s" and "idle_run irqs s s'"
  shows "\<exists>q'. scheduler irqs s = Some (hd (runq s'), s'\<lparr>runqueue := Some q'\<rparr>) \<and> queue_ok q' \<and>
    q_list q' = tl (runq s')"
proof -
  note r = idle_run_loop [OF assms(2)]
  then obtain q where q: "runqueue s' = Some q" "queue_ok q" by (auto simp: sched_defs)
  have "q_list q = hd (runq s') # tl (runq s')" using r q by (simp add: sched_defs)
  from ring.rem_Cons [OF q(2) this] show ?thesis using assms(1) r q by (auto simp: scheduler_def)
qed

definition example_sched :: sched where
  "example_sched = \<lparr>curspl = 1, runqueue =
     Some \<lparr>q_size = 2, q_nextwrite = 0, q_nextread = 0, q_data = [None, None]\<rparr>\<rparr>"

theorem scheduler_returns_first_ready_witness:
  "\<exists>s'. scheduler [Some, \<lambda>s. map_option snd (make_runnable False 7 s)] example_sched = Some (7, s')"
proof -
  have sched: "sched_ok example_sched" "runq example_sched = []"
    by (simp_all add: example_sched_def sched_defs queue_ok_def q_count_def ring_dist_def q_list_def)
  have room: "runq_room example_sched = 1" "0 < curspl example_sched"
    by (simp_all add: example_sched_def sched_defs q_room_def q_count_def ring_dist_def)
  then obtain q' where q': "make_runnable False 7 example_sched = Some (Inr (), example_sched\<lparr>runqueue := Some q'\<rparr>)"
    "queue_ok q'" "q_list q' = [7]"
    using make_runnable_ok [OF sched(1), of False 7] sched by auto
  let ?s1 = "example_sched\<lparr>runqueue := Some q'\<rparr>"
  have "idle_run [Some, \<lambda>s. map_option snd (make_runnable False 7 s)] example_sched ?s1"
  proof (rule wait [OF sched], rule refl, rule wait [OF sched])
    show "map_option snd (make_runnable False 7 example_sched) = Some ?s1" using q' by simp
    show "idle_run [] ?s1 ?s1" by (rule ready) (simp_all add: sched_defs q')
  qed
  from scheduler_returns_first_ready [OF room(2) this] q' show ?thesis by (auto simp: sched_defs)
qed

text \<open>\<^verbatim>\<open>print_run_queue\<close> lists exactly the runnable threads, numbered in queue order.\<close>

theorem print_run_queue_lists:
  assumes "sched_ok s"
  shows "print_run_queue s = Some (zip [0..<length (runq s)] (runq s))"
proof -
  obtain q where q: "runqueue s = Some q" "queue_ok q" using assms by (auto simp: sched_defs)
  have "map (\<lambda>m. (m, q_list q ! m)) [0..<q_count q] = zip [0..<q_count q] (q_list q)"
    by (rule nth_equalityI) auto
  moreover have "q_nextread q mod q_size q = q_nextread q" using q by (auto simp: queue_ok_def)
  ultimately show ?thesis using q print_loop_spec [OF q(2), of 0 "q_count q" 0]
    by (simp add: print_run_queue_def q_getstart_def sched_defs)
qed

theorem print_run_queue_lists_witness:
  "print_run_queue (example_sched\<lparr>runqueue := Some \<lparr>q_size = 2, q_nextwrite = 0, q_nextread = 1,
     q_data = [None, Some 4]\<rparr>\<rparr>) = Some [(0, 4)]"
proof -
  let ?s = "example_sched\<lparr>runqueue := Some \<lparr>q_size = 2, q_nextwrite = 0, q_nextread = 1,
     q_data = [None, Some 4]\<rparr>\<rparr>"
  have "sched_ok ?s" by (simp add: sched_defs queue_ok_def q_count_def ring_dist_def q_cell_def)
  moreover have "runq ?s = [4]" by (simp add: sched_defs q_list_def q_count_def ring_dist_def q_cell_def)
  ultimately show ?thesis using print_run_queue_lists [of ?s] by simp
qed

end
