(* ===== verification/Threads.thy ===== *)
theory Threads
  imports KArray Scheduler
begin

text \<open>
  The thread system (\<^verbatim>\<open>kern/thread/thread.c\<close>): creation, destruction, context switch, sleep and
  wake-up.  The record \<open>tsys\<close> extends the scheduler's globals by the ones of \<^verbatim>\<open>thread.c\<close>; \<open>thr\<close> is the
  memory of thread structures, a partial map from addresses.  A context switch hands the processor
  to another kernel stack, so \<^verbatim>\<open>mi_switch\<close> is modelled in two halves: \<open>mi_switch\<close> runs up to
  \<^verbatim>\<open>md_switch\<close> in the old thread, \<open>mi_switch_resume\<close> is what the thread that is switched to does when
  its own call of \<^verbatim>\<open>mi_switch\<close> returns.  Calls into other subsystems (vnode references, address
  spaces, the TLB) are recorded in order in the field \<open>effects\<close>.
\<close>

section \<open>State\<close>

datatype threadstate = S_RUN | S_READY | S_SLEEP | S_ZOMB

record thread =
  t_name :: string
  t_sleepaddr :: "nat option"
  t_stack :: "8 word list option"
  t_vmspace :: "nat option"
  t_cwd :: "nat option"
  t_pid :: int
  t_pagedir :: "nat option"

datatype effect =
    Vop_Incref nat
  | Vop_Decref nat
  | As_Destroy nat
  | As_Activate nat
  | Tlb_Flush
  | Copy_Vnode nat nat
  | Md_Initpcb nat
  | Kfree nat

record tsys = sched +
  curthread :: "nat option"
  thr :: "nat \<rightharpoonup> thread"
  sleepers :: "nat karray option"
  zombies :: "nat karray option"
  numthreads :: int
  cv_wakeup_one_thread :: int
  in_interrupt :: int
  effects :: "effect list"

definition spl_high :: nat where
  "spl_high = 15"

definition splx :: "nat \<Rightarrow> 'z sched_scheme \<Rightarrow> nat \<times> 'z sched_scheme" where
  "splx newspl s = (curspl s, s\<lparr>curspl := newspl\<rparr>)"

definition splhigh :: "'z sched_scheme \<Rightarrow> nat \<times> 'z sched_scheme" where
  "splhigh s = splx spl_high s"

definition emit :: "effect \<Rightarrow> 'z tsys_scheme \<Rightarrow> 'z tsys_scheme" where
  "emit e s = s\<lparr>effects := effects s @ [e]\<rparr>"

section \<open>Creation and destruction\<close>

text \<open>
  \<^verbatim>\<open>thread_create\<close>: \<open>p\<close> is the address \<^verbatim>\<open>kmalloc\<close> returned for the structure (\<open>None\<close> is \<^verbatim>\<open>NULL\<close>),
  \<open>name_ok\<close> says whether \<^verbatim>\<open>kstrdup\<close> got memory.  The page directory field is not initialised.
\<close>

definition thread_create ::
  "nat option \<Rightarrow> bool \<Rightarrow> string \<Rightarrow> 'z tsys_scheme \<Rightarrow> nat option \<times> 'z tsys_scheme" where
  "thread_create p name_ok nm s =
     (case p of
        None \<Rightarrow> (None, s)
      | Some a \<Rightarrow>
          if \<not> name_ok then (None, s)
          else (Some a, s\<lparr>thr := (thr s)(a \<mapsto> \<lparr>t_name = nm, t_sleepaddr = None, t_stack = None,
                  t_vmspace = None, t_cwd = None, t_pid = 0, t_pagedir = None\<rparr>)\<rparr>))"

definition thread_destroy :: "nat \<Rightarrow> 'z tsys_scheme \<Rightarrow> 'z tsys_scheme outcome" where
  "thread_destroy a s = do {
     kassert (curthread s \<noteq> Some a);
     t \<leftarrow> thr s a;
     kassert (t_vmspace t = None);
     kassert (t_cwd t = None);
     Some (s\<lparr>thr := (thr s)(a := None)\<rparr>)
   }"

partial_function (option) exorcise_loop :: "int \<Rightarrow> 'z tsys_scheme \<Rightarrow> 'z tsys_scheme outcome" where
  "exorcise_loop i s = do {
     zs \<leftarrow> zombies s;
     if i < array_getnum zs then do {
       z \<leftarrow> array_getguy zs i;
       kassert (Some z \<noteq> curthread s);
       s' \<leftarrow> thread_destroy z s;
       exorcise_loop (i + 1) s'
     }
     else Some s
   }"

definition exorcise :: "'z tsys_scheme \<Rightarrow> 'z tsys_scheme outcome" where
  "exorcise s = do {
     kassert (0 < curspl s);
     s1 \<leftarrow> exorcise_loop 0 s;
     zs \<leftarrow> zombies s1;
     (result, zs') \<leftarrow> array_setsize False zs 0;
     kassert (result = Inr ());
     Some (s1\<lparr>zombies := Some zs'\<rparr>)
   }"

text \<open>\<^verbatim>\<open>thread_killall\<close> drops the sleepers; the list is of the threads whose names it prints.\<close>

partial_function (option) sleep_names :: "nat karray \<Rightarrow> int \<Rightarrow> nat list outcome" where
  "sleep_names a i =
     (if i < array_getnum a then do {
        t \<leftarrow> array_getguy a i;
        rest \<leftarrow> sleep_names a (i + 1);
        Some (t # rest)
      }
      else Some [])"

definition thread_killall :: "'z tsys_scheme \<Rightarrow> (nat list \<times> 'z tsys_scheme) outcome" where
  "thread_killall s = do {
     kassert (0 < curspl s);
     sl \<leftarrow> sleepers s;
     dropped \<leftarrow> sleep_names sl 0;
     (result, sl') \<leftarrow> array_setsize False sl 0;
     kassert (result = Inr ());
     Some (dropped, s\<lparr>sleepers := Some sl'\<rparr>)
   }"

definition thread_panic :: "'z tsys_scheme \<Rightarrow> (nat list \<times> 'z tsys_scheme) outcome" where
  "thread_panic s = do {
     kassert (0 < curspl s);
     (asleep, s1) \<leftarrow> thread_killall s;
     (ready, s2) \<leftarrow> scheduler_killall s1;
     Some (asleep @ ready, s2)
   }"

definition one_thread_only :: "'z tsys_scheme \<Rightarrow> bool" where
  "one_thread_only s \<longleftrightarrow> numthreads s = 1"

definition thread_bootstrap ::
  "bool \<Rightarrow> bool \<Rightarrow> nat option \<Rightarrow> bool \<Rightarrow> 'z tsys_scheme \<Rightarrow> (nat \<times> 'z tsys_scheme) outcome" where
  "thread_bootstrap sl_ok zo_ok p name_ok s = do {
     sl \<leftarrow> array_create sl_ok;
     zo \<leftarrow> array_create zo_ok;
     let (me, s1) = thread_create p name_ok ''<boot/menu>'' (s\<lparr>sleepers := Some sl, zombies := Some zo\<rparr>);
     a \<leftarrow> me;
     Some (a, s1\<lparr>curthread := Some a, numthreads := 1\<rparr>)
   }"

definition thread_shutdown :: "'z tsys_scheme \<Rightarrow> 'z tsys_scheme outcome" where
  "thread_shutdown s = do {
     sl \<leftarrow> sleepers s;
     zo \<leftarrow> zombies s;
     Some (s\<lparr>sleepers := None, zombies := None\<rparr>)
   }"

section \<open>Forking\<close>

text \<open>The four magic bytes at the bottom of a stack.\<close>

definition set_magic :: "8 word list \<Rightarrow> 8 word list outcome" where
  "set_magic st = do {
     a \<leftarrow> store_cell st 0 0xae;
     b \<leftarrow> store_cell a 1 0x11;
     c \<leftarrow> store_cell b 2 0xda;
     store_cell c 3 0x33
   }"

definition check_magic :: "8 word list option \<Rightarrow> unit outcome" where
  "check_magic st =
     (case st of
        None \<Rightarrow> Some ()
      | Some bytes \<Rightarrow> kassert (take 4 bytes = [0xae, 0x11, 0xda, 0x33]))"

text \<open>
  The end of \<^verbatim>\<open>thread_fork\<close> and \<^verbatim>\<open>process_fork\<close>: reserve space for one more thread, make the new
  thread runnable and count it.  The four booleans say whether each reservation and the final
  insertion would get memory if they asked for some.
\<close>

definition fork_enqueue ::
  "bool \<times> bool \<times> bool \<times> bool \<Rightarrow> nat \<Rightarrow> 'z tsys_scheme \<Rightarrow> ((errno + unit) \<times> 'z tsys_scheme) outcome" where
  "fork_enqueue mem newguy s = (case mem of (m1, m2, m3, m4) \<Rightarrow> do {
     sl \<leftarrow> sleepers s;
     (r1, sl') \<leftarrow> array_preallocate m1 sl (numthreads s + 1);
     let s1 = s\<lparr>sleepers := Some sl'\<rparr>;
     if r1 \<noteq> Inr () then Some (r1, s1)
     else do {
       zo \<leftarrow> zombies s1;
       (r2, zo') \<leftarrow> array_preallocate m2 zo (numthreads s1 + 1);
       let s2 = s1\<lparr>zombies := Some zo'\<rparr>;
       if r2 \<noteq> Inr () then Some (r2, s2)
       else do {
         (r3, s3) \<leftarrow> scheduler_preallocate m3 (nat (numthreads s2 + 1)) s2;
         if r3 \<noteq> Inr () then Some (r3, s3)
         else do {
           (r4, s4) \<leftarrow> make_runnable m4 newguy s3;
           if r4 \<noteq> Inr () then Some (r4, s4)
           else Some (Inr (), s4\<lparr>numthreads := numthreads s4 + 1\<rparr>)
         }
       }
     }
   })"

text \<open>
  What a fork gets from outside: the address for the thread structure, memory for the name, the
  fresh stack block, the page directory, the answer of \<^verbatim>\<open>allocatePid\<close>.
\<close>

record fork_env =
  fe_thread :: "nat option"
  fe_name_ok :: bool
  fe_stack :: "8 word list option"
  fe_pid :: "errno + int"
  fe_pagedir :: "nat option"
  fe_mem :: "bool \<times> bool \<times> bool \<times> bool"

definition drop_thread :: "nat \<Rightarrow> 'z tsys_scheme \<Rightarrow> 'z tsys_scheme" where
  "drop_thread a s = s\<lparr>thr := (thr s)(a := None)\<rparr>"

definition thread_fork ::
  "fork_env \<Rightarrow> string \<Rightarrow> 'z tsys_scheme \<Rightarrow> ((errno + nat) \<times> 'z tsys_scheme) outcome" where
  "thread_fork env nm s = do {
     let (g, s1) = thread_create (fe_thread env) (fe_name_ok env) nm s;
     case g of
       None \<Rightarrow> Some (Inl ENOMEM, s1)
     | Some a \<Rightarrow>
         (case fe_stack env of
            None \<Rightarrow> Some (Inl ENOMEM, drop_thread a s1)
          | Some st \<Rightarrow> do {
              st' \<leftarrow> set_magic st;
              me \<leftarrow> curthread s1;
              c \<leftarrow> thr s1 me;
              t \<leftarrow> thr s1 a;
              let t1 = t\<lparr>t_stack := Some st'\<rparr>;
              let (s2, t2) = (case t_cwd c of
                                None \<Rightarrow> (s1, t1)
                              | Some v \<Rightarrow> (emit (Vop_Incref v) s1, t1\<lparr>t_cwd := Some v\<rparr>));
              let s3 = emit (Md_Initpcb a) s2;
              case fe_pid env of
                Inl e \<Rightarrow> Some (Inl e, s3\<lparr>thr := (thr s3)(a \<mapsto> t2)\<rparr>)
              | Inr pid \<Rightarrow> do {
                  let t3 = t2\<lparr>t_pid := pid, t_pagedir := fe_pagedir env\<rparr>;
                  let (spl, s4) = splhigh (s3\<lparr>thr := (thr s3)(a \<mapsto> t3)\<rparr>);
                  (r, s5) \<leftarrow> fork_enqueue (fe_mem env) a s4;
                  let s6 = snd (splx spl s5);
                  case r of
                    Inr _ \<Rightarrow> Some (Inr a, s6)
                  | Inl e \<Rightarrow>
                      Some (Inl e, drop_thread a
                        (case t_cwd t3 of None \<Rightarrow> s6 | Some v \<Rightarrow> emit (Vop_Decref v) s6))
                }
            })
   }"

text \<open>
  \<^verbatim>\<open>process_fork\<close> needs more from outside: a block for the copy of the current directory's vnode, the
  answer of \<^verbatim>\<open>as_copy\<close> (the address of the new address space), a block for the trap frame.
\<close>

record process_env = fork_env +
  pe_cwd :: "nat option"
  pe_vmspace :: "errno + nat"
  pe_trapframe :: "nat option"

text \<open>The current directory is inherited as a byte copy of the vnode, after taking a reference.\<close>

definition fork_copy_cwd ::
  "process_env \<Rightarrow> thread \<Rightarrow> thread \<Rightarrow> 'z tsys_scheme \<Rightarrow> (errno + thread) \<times> 'z tsys_scheme" where
  "fork_copy_cwd env c t s =
     (case t_cwd c of
        None \<Rightarrow> (Inr t, s)
      | Some v \<Rightarrow>
          (let s1 = emit (Vop_Incref v) s in
           case pe_cwd env of
             None \<Rightarrow> (Inl ENOMEM, s1)
           | Some v' \<Rightarrow> (Inr (t\<lparr>t_cwd := Some v'\<rparr>), emit (Copy_Vnode v v') s1)))"

definition fork_copy_vmspace :: "process_env \<Rightarrow> thread \<Rightarrow> thread \<Rightarrow> errno + thread" where
  "fork_copy_vmspace env c t =
     (case t_vmspace c of
        None \<Rightarrow> Inr t
      | Some vm \<Rightarrow> (case pe_vmspace env of
                      Inl e \<Rightarrow> Inl ENOMEM
                    | Inr vm' \<Rightarrow> Inr (t\<lparr>t_vmspace := Some vm'\<rparr>)))"

definition kfree_opt :: "nat option \<Rightarrow> 'z tsys_scheme \<Rightarrow> 'z tsys_scheme" where
  "kfree_opt p s = (case p of None \<Rightarrow> s | Some a \<Rightarrow> emit (Kfree a) s)"

text \<open>From the process id on; \<open>t\<close> is the new thread structure so far.\<close>

definition process_fork_finish ::
  "process_env \<Rightarrow> nat \<Rightarrow> thread \<Rightarrow> nat \<Rightarrow> 'z tsys_scheme \<Rightarrow> ((errno + nat) \<times> 'z tsys_scheme) outcome" where
  "process_fork_finish env a t tf s =
     (let s1 = emit (Md_Initpcb a) s in
      case fe_pid env of
        Inl e \<Rightarrow> Some (Inl e, s1\<lparr>thr := (thr s1)(a \<mapsto> t)\<rparr>)
      | Inr pid \<Rightarrow> do {
          let (spl, s2) = splhigh (s1\<lparr>thr := (thr s1)(a \<mapsto> t\<lparr>t_pid := pid\<rparr>)\<rparr>);
          (r, s3) \<leftarrow> fork_enqueue (fe_mem env) a s2;
          let s4 = snd (splx spl s3);
          case r of
            Inr _ \<Rightarrow> Some (Inr a, s4)
          | Inl e \<Rightarrow>
              let s5 = (case t_cwd t of None \<Rightarrow> s4 | Some v \<Rightarrow> emit (Vop_Decref v) s4) in
              Some (Inl e, drop_thread a
                (emit (Kfree tf) (kfree_opt (t_cwd t) (kfree_opt (t_vmspace t) s5))))
        })"

definition process_fork ::
  "process_env \<Rightarrow> string \<Rightarrow> 'z tsys_scheme \<Rightarrow> ((errno + nat) \<times> 'z tsys_scheme) outcome" where
  "process_fork env nm s = do {
     let (g, s1) = thread_create (fe_thread env) (fe_name_ok env) nm s;
     case g of
       None \<Rightarrow> Some (Inl ENOMEM, s1)
     | Some a \<Rightarrow>
         (case fe_stack env of
            None \<Rightarrow> Some (Inl ENOMEM, drop_thread a s1)
          | Some st \<Rightarrow> do {
              st' \<leftarrow> set_magic st;
              me \<leftarrow> curthread s1;
              c \<leftarrow> thr s1 me;
              t \<leftarrow> thr s1 a;
              let (r1, s2) = fork_copy_cwd env c (t\<lparr>t_stack := Some st'\<rparr>) s1;
              case r1 of
                Inl e \<Rightarrow> Some (Inl e, drop_thread a s2)
              | Inr t1 \<Rightarrow>
                  let t2 = t1\<lparr>t_pagedir := fe_pagedir env\<rparr> in
                  (case fork_copy_vmspace env c t2 of
                     Inl e \<Rightarrow> Some (Inl e, drop_thread a (kfree_opt (t_cwd t2) s2))
                   | Inr t3 \<Rightarrow>
                       let t4 = (if t_sleepaddr c \<noteq> None then t3\<lparr>t_sleepaddr := t_sleepaddr c\<rparr> else t3) in
                       (case pe_trapframe env of
                          None \<Rightarrow> Some (Inl ENOMEM,
                            drop_thread a (kfree_opt (t_vmspace t4) (kfree_opt (t_cwd t4) s2)))
                        | Some tf \<Rightarrow> process_fork_finish env a t4 tf s2))
            })
   }"

section \<open>Context switch\<close>

definition mi_switch ::
  "('z tsys_scheme \<Rightarrow> 'z tsys_scheme outcome) list \<Rightarrow> bool \<Rightarrow> threadstate \<Rightarrow> 'z tsys_scheme \<Rightarrow>
   'z tsys_scheme outcome" where
  "mi_switch irqs mem_ok nextstate s = do {
     kassert (0 < curspl s);
     case curthread s of
       None \<Rightarrow> Some s
     | Some cur \<Rightarrow> do {
         c \<leftarrow> thr s cur;
         check_magic (t_stack c);
         let s0 = s\<lparr>curthread := None\<rparr>;
         (result, s1) \<leftarrow>
           (if nextstate = S_READY then make_runnable mem_ok cur s0
            else if nextstate = S_SLEEP then do {
              sl \<leftarrow> sleepers s0;
              (r, sl') \<leftarrow> array_add mem_ok sl cur;
              Some (r, s0\<lparr>sleepers := Some sl'\<rparr>)
            }
            else do {
              kassert (nextstate = S_ZOMB);
              zo \<leftarrow> zombies s0;
              (r, zo') \<leftarrow> array_add mem_ok zo cur;
              Some (r, s0\<lparr>zombies := Some zo'\<rparr>)
            });
         kassert (result = Inr ());
         (nxt, s2) \<leftarrow> scheduler irqs s1;
         Some (emit Tlb_Flush (s2\<lparr>curthread := Some nxt\<rparr>))
       }
   }"

definition mi_switch_resume :: "'z tsys_scheme \<Rightarrow> 'z tsys_scheme outcome" where
  "mi_switch_resume s = do {
     s1 \<leftarrow> exorcise s;
     me \<leftarrow> curthread s1;
     t \<leftarrow> thr s1 me;
     Some (case t_vmspace t of None \<Rightarrow> s1 | Some vm \<Rightarrow> emit (As_Activate vm) s1)
   }"

definition thread_exit ::
  "('z tsys_scheme \<Rightarrow> 'z tsys_scheme outcome) list \<Rightarrow> bool \<Rightarrow> 'z tsys_scheme \<Rightarrow> 'z tsys_scheme outcome" where
  "thread_exit irqs mem_ok s = do {
     me \<leftarrow> curthread s;
     t \<leftarrow> thr s me;
     check_magic (t_stack t);
     let s1 = snd (splhigh s);
     let s2 = (case t_vmspace t of
                 None \<Rightarrow> s1
               | Some vm \<Rightarrow> emit (As_Destroy vm) (s1\<lparr>thr := (thr s1)(me \<mapsto> t\<lparr>t_vmspace := None\<rparr>)\<rparr>));
     let s3 = (case t_cwd t of
                 None \<Rightarrow> s2
               | Some v \<Rightarrow> (emit (Vop_Decref v) s2)\<lparr>thr := (thr s2)(me \<mapsto> t\<lparr>t_vmspace := None, t_cwd := None\<rparr>)\<rparr>);
     kassert (0 < numthreads s3);
     mi_switch irqs mem_ok S_ZOMB (s3\<lparr>numthreads := numthreads s3 - 1\<rparr>)
   }"

text \<open>The part of \<^verbatim>\<open>thread_yield\<close> before the switch, and the part after it.\<close>

definition thread_yield ::
  "('z tsys_scheme \<Rightarrow> 'z tsys_scheme outcome) list \<Rightarrow> bool \<Rightarrow> 'z tsys_scheme \<Rightarrow> (nat \<times> 'z tsys_scheme) outcome" where
  "thread_yield irqs mem_ok s = do {
     let (spl, s1) = splhigh s;
     kassert (sleepers s1 \<noteq> None);
     s2 \<leftarrow> mi_switch irqs mem_ok S_READY s1;
     Some (spl, s2)
   }"

definition thread_yield_resume :: "nat \<Rightarrow> 'z tsys_scheme \<Rightarrow> 'z tsys_scheme outcome" where
  "thread_yield_resume spl s = do {
     s1 \<leftarrow> mi_switch_resume s;
     Some (snd (splx spl s1))
   }"

text \<open>Likewise for \<^verbatim>\<open>thread_sleep\<close>.\<close>

definition set_sleepaddr :: "nat \<Rightarrow> nat option \<Rightarrow> 'z tsys_scheme \<Rightarrow> 'z tsys_scheme outcome" where
  "set_sleepaddr a addr s = do {
     t \<leftarrow> thr s a;
     Some (s\<lparr>thr := (thr s)(a \<mapsto> t\<lparr>t_sleepaddr := addr\<rparr>)\<rparr>)
   }"

definition thread_sleep ::
  "('z tsys_scheme \<Rightarrow> 'z tsys_scheme outcome) list \<Rightarrow> bool \<Rightarrow> nat \<Rightarrow> 'z tsys_scheme \<Rightarrow> 'z tsys_scheme outcome" where
  "thread_sleep irqs mem_ok addr s = do {
     kassert (in_interrupt s = 0);
     me \<leftarrow> curthread s;
     s1 \<leftarrow> set_sleepaddr me (Some addr) s;
     mi_switch irqs mem_ok S_SLEEP s1
   }"

definition thread_sleep_resume :: "'z tsys_scheme \<Rightarrow> 'z tsys_scheme outcome" where
  "thread_sleep_resume s = do {
     s1 \<leftarrow> mi_switch_resume s;
     me \<leftarrow> curthread s1;
     set_sleepaddr me None s1
   }"

section \<open>Waking up\<close>

text \<open>The loop of \<^verbatim>\<open>thread_wakeup\<close>; after a removal the same index is looked at again.\<close>

partial_function (option) wakeup_loop ::
  "bool \<Rightarrow> nat \<Rightarrow> int \<Rightarrow> 'z tsys_scheme \<Rightarrow> 'z tsys_scheme outcome" where
  "wakeup_loop mem_ok addr i s = do {
     sl \<leftarrow> sleepers s;
     if i < array_getnum sl then do {
       a \<leftarrow> array_getguy sl i;
       t \<leftarrow> thr s a;
       if t_sleepaddr t = Some addr then do {
         sl' \<leftarrow> array_remove sl i;
         (result, s') \<leftarrow> make_runnable mem_ok a (s\<lparr>sleepers := Some sl'\<rparr>);
         kassert (result = Inr ());
         if cv_wakeup_one_thread s' = 1 then Some s' else wakeup_loop mem_ok addr i s'
       }
       else wakeup_loop mem_ok addr (i + 1) s
     }
     else Some s
   }"

definition thread_wakeup :: "bool \<Rightarrow> nat \<Rightarrow> 'z tsys_scheme \<Rightarrow> 'z tsys_scheme outcome" where
  "thread_wakeup mem_ok addr s = do {
     kassert (0 < curspl s);
     wakeup_loop mem_ok addr 0 s
   }"

partial_function (option) hassleepers_loop :: "nat \<Rightarrow> int \<Rightarrow> 'z tsys_scheme \<Rightarrow> bool outcome" where
  "hassleepers_loop addr i s = do {
     sl \<leftarrow> sleepers s;
     if i < array_getnum sl then do {
       a \<leftarrow> array_getguy sl i;
       t \<leftarrow> thr s a;
       if t_sleepaddr t = Some addr then Some True else hassleepers_loop addr (i + 1) s
     }
     else Some False
   }"

definition thread_hassleepers :: "nat \<Rightarrow> 'z tsys_scheme \<Rightarrow> bool outcome" where
  "thread_hassleepers addr s = do {
     kassert (0 < curspl s);
     hassleepers_loop addr 0 s
   }"

text \<open>
  \<^verbatim>\<open>mi_threadstart\<close> up to the call of the thread's function: activate the address space, enable
  interrupts.  Its end is \<open>thread_exit\<close>.
\<close>

definition mi_threadstart :: "'z tsys_scheme \<Rightarrow> 'z tsys_scheme outcome" where
  "mi_threadstart s = do {
     me \<leftarrow> curthread s;
     t \<leftarrow> thr s me;
     let s1 = (case t_vmspace t of None \<Rightarrow> s | Some vm \<Rightarrow> emit (As_Activate vm) s);
     Some (snd (splx 0 s1))
   }"

end
