(* ===== verification/Synch.thy ===== *)
theory Synch
  imports Threads
begin

text \<open>
  Semaphores, locks and condition variables (\<^verbatim>\<open>kern/thread/synch.c\<close>).  The kernel state is extended by
  the memory of synchronization objects \<open>objs\<close>, by the continuation of every thread that is not
  running (\<open>conts\<close>: where in which call it sleeps and which interrupt levels it will restore), and
  by a log \<open>klog\<close>, newest event first, of what completed.  The log is read by no operation.

  A blocking call is one function up to the point where it returns or the processor goes to
  another thread; \<open>resume\<close> continues the call of the thread that got the processor.  Between those
  points interrupts are off and nothing else runs.
\<close>

datatype kobj =
    Sem string int
  | Lock string int
  | Cv string int

datatype event =
    Ev_P nat nat
  | Ev_V nat
  | Ev_Acquire nat nat
  | Ev_Release nat nat
  | Ev_Pass nat nat
  | Ev_Signal nat

datatype cont =
    C_Run
  | C_P nat nat
  | C_Acquire nat "nat list"
  | C_Wait nat nat nat
  | C_Yield nat

record ksys = tsys +
  objs :: "nat \<rightharpoonup> kobj"
  conts :: "nat \<Rightarrow> cont"
  klog :: "event list"

type_synonym irqs = "(ksys \<Rightarrow> ksys outcome) list"

definition note_event :: "event \<Rightarrow> ksys \<Rightarrow> ksys" where
  "note_event e s = s\<lparr>klog := e # klog s\<rparr>"

definition set_obj :: "nat \<Rightarrow> kobj \<Rightarrow> ksys \<Rightarrow> ksys" where
  "set_obj a ob s = s\<lparr>objs := (objs s)(a \<mapsto> ob)\<rparr>"

definition set_cont :: "nat \<Rightarrow> cont \<Rightarrow> ksys \<Rightarrow> ksys" where
  "set_cont t k s = s\<lparr>conts := (conts s)(t := k)\<rparr>"

definition splx_all :: "nat list \<Rightarrow> ksys \<Rightarrow> ksys" where
  "splx_all spls s = fold (\<lambda>spl s. snd (splx spl s)) spls s"

section \<open>Semaphores\<close>

text \<open>\<open>p\<close> is the address of the new object, \<open>None\<close> when \<^verbatim>\<open>kmalloc\<close> failed.\<close>

definition sem_create ::
  "nat option \<Rightarrow> bool \<Rightarrow> string \<Rightarrow> int \<Rightarrow> ksys \<Rightarrow> (nat option \<times> ksys) outcome" where
  "sem_create p name_ok nm initial_count s = do {
     kassert (0 \<le> initial_count);
     case p of
       None \<Rightarrow> Some (None, s)
     | Some a \<Rightarrow>
         if \<not> name_ok then Some (None, s)
         else Some (Some a, set_obj a (Sem nm initial_count) s)
   }"

definition destroy_obj :: "nat \<Rightarrow> ksys \<Rightarrow> ksys outcome" where
  "destroy_obj a s = do {
     kassert (objs s a \<noteq> None);
     let (spl, s1) = splhigh s;
     busy \<leftarrow> thread_hassleepers a s1;
     kassert (\<not> busy);
     let s2 = snd (splx spl s1);
     Some (s2\<lparr>objs := (objs s2)(a := None)\<rparr>)
   }"

definition sem_destroy :: "nat \<Rightarrow> ksys \<Rightarrow> ksys outcome" where
  "sem_destroy a s = destroy_obj a s"

text \<open>The loop of \<^verbatim>\<open>P\<close> from the test on, with the saved interrupt level.\<close>

definition P_loop :: "irqs \<Rightarrow> bool \<Rightarrow> nat \<Rightarrow> nat \<Rightarrow> ksys \<Rightarrow> ksys outcome" where
  "P_loop irqs mem_ok a spl s =
     (case objs s a of
        Some (Sem nm count) \<Rightarrow> do {
          me \<leftarrow> curthread s;
          if count = 0 then thread_sleep irqs mem_ok a (set_cont me (C_P a spl) s)
          else do {
            kassert (0 < count);
            Some (snd (splx spl (note_event (Ev_P a me) (set_cont me C_Run
              (set_obj a (Sem nm (count - 1)) s)))))
          }
        }
      | _ \<Rightarrow> None)"

definition P :: "irqs \<Rightarrow> bool \<Rightarrow> nat \<Rightarrow> ksys \<Rightarrow> ksys outcome" where
  "P irqs mem_ok a s = do {
     kassert (objs s a \<noteq> None);
     kassert (in_interrupt s = 0);
     let (spl, s1) = splhigh s;
     P_loop irqs mem_ok a spl s1
   }"

definition V :: "bool \<Rightarrow> nat \<Rightarrow> ksys \<Rightarrow> ksys outcome" where
  "V mem_ok a s =
     (case objs s a of
        Some (Sem nm count) \<Rightarrow> do {
          let (spl, s1) = splhigh s;
          let c = wrap32 (count + 1);
          kassert (0 < c);
          s2 \<leftarrow> thread_wakeup mem_ok a (note_event (Ev_V a) (set_obj a (Sem nm c) s1));
          Some (snd (splx spl s2))
        }
      | _ \<Rightarrow> None)"

section \<open>Locks\<close>

definition lock_create :: "nat option \<Rightarrow> bool \<Rightarrow> string \<Rightarrow> ksys \<Rightarrow> nat option \<times> ksys" where
  "lock_create p name_ok nm s =
     (case p of
        None \<Rightarrow> (None, s)
      | Some a \<Rightarrow> if \<not> name_ok then (None, s) else (Some a, set_obj a (Lock nm 1) s))"

definition lock_destroy :: "nat \<Rightarrow> ksys \<Rightarrow> ksys outcome" where
  "lock_destroy a s = destroy_obj a s"

text \<open>
  The loop of \<^verbatim>\<open>lock_acquire\<close>; \<open>spls\<close> are the interrupt levels restored one after the other when it
  is done (a second one when \<^verbatim>\<open>cv_wait\<close> is the caller).
\<close>

definition lock_acquire_loop :: "irqs \<Rightarrow> bool \<Rightarrow> nat \<Rightarrow> nat list \<Rightarrow> ksys \<Rightarrow> ksys outcome" where
  "lock_acquire_loop irqs mem_ok a spls s =
     (case objs s a of
        Some (Lock nm count) \<Rightarrow> do {
          me \<leftarrow> curthread s;
          if count = 0 then thread_sleep irqs mem_ok a (set_cont me (C_Acquire a spls) s)
          else do {
            kassert (count = 1);
            Some (splx_all spls (note_event (Ev_Acquire a me) (set_cont me C_Run
              (set_obj a (Lock nm (count - 1)) s))))
          }
        }
      | _ \<Rightarrow> None)"

definition lock_acquire_in :: "irqs \<Rightarrow> bool \<Rightarrow> nat \<Rightarrow> nat list \<Rightarrow> ksys \<Rightarrow> ksys outcome" where
  "lock_acquire_in irqs mem_ok a outer s = do {
     kassert (objs s a \<noteq> None);
     kassert (in_interrupt s = 0);
     let (spl, s1) = splhigh s;
     lock_acquire_loop irqs mem_ok a (spl # outer) s1
   }"

definition lock_acquire :: "irqs \<Rightarrow> bool \<Rightarrow> nat \<Rightarrow> ksys \<Rightarrow> ksys outcome" where
  "lock_acquire irqs mem_ok a s = lock_acquire_in irqs mem_ok a [] s"

text \<open>
  The body of \<^verbatim>\<open>lock_release\<close> between the two \<^verbatim>\<open>spl\<close> calls, which \<^verbatim>\<open>cv_wait\<close> repeats.
\<close>

definition lock_give :: "bool \<Rightarrow> nat \<Rightarrow> ksys \<Rightarrow> ksys outcome" where
  "lock_give mem_ok a s =
     (case objs s a of
        Some (Lock nm count) \<Rightarrow> do {
          me \<leftarrow> curthread s;
          kassert (count + 1 = 1);
          thread_wakeup mem_ok a (note_event (Ev_Release a me) (set_obj a (Lock nm (count + 1)) s))
        }
      | _ \<Rightarrow> None)"

definition lock_release :: "bool \<Rightarrow> nat \<Rightarrow> ksys \<Rightarrow> ksys outcome" where
  "lock_release mem_ok a s = do {
     kassert (objs s a \<noteq> None);
     let (spl, s1) = splhigh s;
     s2 \<leftarrow> lock_give mem_ok a s1;
     Some (snd (splx spl s2))
   }"

definition lock_do_i_hold :: "nat \<Rightarrow> ksys \<Rightarrow> int" where
  "lock_do_i_hold a s = 1"

section \<open>Condition variables\<close>

definition cv_create :: "nat option \<Rightarrow> bool \<Rightarrow> string \<Rightarrow> ksys \<Rightarrow> nat option \<times> ksys" where
  "cv_create p name_ok nm s =
     (case p of
        None \<Rightarrow> (None, s)
      | Some a \<Rightarrow> if \<not> name_ok then (None, s) else (Some a, set_obj a (Cv nm 0) s))"

definition cv_destroy :: "nat \<Rightarrow> ksys \<Rightarrow> ksys outcome" where
  "cv_destroy a s = destroy_obj a s"

definition cv_wait_loop :: "irqs \<Rightarrow> bool \<Rightarrow> nat \<Rightarrow> nat \<Rightarrow> nat \<Rightarrow> ksys \<Rightarrow> ksys outcome" where
  "cv_wait_loop irqs mem_ok a lk spl s =
     (case objs s a of
        Some (Cv nm signal) \<Rightarrow> do {
          me \<leftarrow> curthread s;
          if signal = 0 then thread_sleep irqs mem_ok a (set_cont me (C_Wait a lk spl) s)
          else do {
            kassert (signal = 1);
            lock_acquire_in irqs mem_ok lk [spl]
              (note_event (Ev_Pass a me) (set_cont me C_Run (set_obj a (Cv nm 0) s)))
          }
        }
      | _ \<Rightarrow> None)"

definition cv_wait :: "irqs \<Rightarrow> bool \<Rightarrow> nat \<Rightarrow> nat \<Rightarrow> ksys \<Rightarrow> ksys outcome" where
  "cv_wait irqs mem_ok a lk s = do {
     kassert (objs s a \<noteq> None);
     kassert (objs s lk \<noteq> None);
     let (spl, s1) = splhigh s;
     s2 \<leftarrow> lock_give mem_ok lk s1;
     cv_wait_loop irqs mem_ok a lk spl s2
   }"

definition cv_signal :: "bool \<Rightarrow> nat \<Rightarrow> ksys \<Rightarrow> ksys outcome" where
  "cv_signal mem_ok a s =
     (case objs s a of
        Some (Cv nm signal) \<Rightarrow> do {
          let (spl, s1) = splhigh s;
          s2 \<leftarrow> thread_wakeup mem_ok a
            ((note_event (Ev_Signal a) (set_obj a (Cv nm 1) s1))\<lparr>cv_wakeup_one_thread := 1\<rparr>);
          Some (snd (splx spl (s2\<lparr>cv_wakeup_one_thread := 0\<rparr>)))
        }
      | _ \<Rightarrow> None)"

definition cv_broadcast :: "bool \<Rightarrow> nat \<Rightarrow> ksys \<Rightarrow> ksys outcome" where
  "cv_broadcast mem_ok a s =
     (case objs s a of
        Some (Cv nm signal) \<Rightarrow> do {
          let (spl, s1) = splhigh s;
          s2 \<leftarrow> thread_wakeup mem_ok a (note_event (Ev_Signal a) (set_obj a (Cv nm 1) s1));
          Some (snd (splx spl s2))
        }
      | _ \<Rightarrow> None)"

section \<open>Getting the processor back\<close>

text \<open>
  What the thread that was switched to does first: it returns from \<^verbatim>\<open>mi_switch\<close> into the call it
  was blocked in and goes on there.
\<close>

definition resume :: "irqs \<Rightarrow> bool \<Rightarrow> ksys \<Rightarrow> ksys outcome" where
  "resume irqs mem_ok s = do {
     me \<leftarrow> curthread s;
     case conts s me of
       C_Run \<Rightarrow> None
     | C_P a spl \<Rightarrow> do { s1 \<leftarrow> thread_sleep_resume s; P_loop irqs mem_ok a spl s1 }
     | C_Acquire a spls \<Rightarrow> do { s1 \<leftarrow> thread_sleep_resume s; lock_acquire_loop irqs mem_ok a spls s1 }
     | C_Wait a lk spl \<Rightarrow> do { s1 \<leftarrow> thread_sleep_resume s; cv_wait_loop irqs mem_ok a lk spl s1 }
     | C_Yield spl \<Rightarrow> do {
         s1 \<leftarrow> thread_yield_resume spl s;
         Some (set_cont me C_Run s1)
       }
   }"

definition do_yield :: "irqs \<Rightarrow> bool \<Rightarrow> ksys \<Rightarrow> ksys outcome" where
  "do_yield irqs mem_ok s = do {
     me \<leftarrow> curthread s;
     let spl = curspl s;
     (spl', s1) \<leftarrow> thread_yield irqs mem_ok (set_cont me (C_Yield spl) s);
     Some s1
   }"

section \<open>Runs\<close>

text \<open>
  One step of the machine: the running thread calls an operation, or, if it has just been given the
  processor inside a call, goes on with that call.  The interrupts taken while idling are \<^verbatim>\<open>V\<close>
  operations, the only ones the device drivers perform.
\<close>

definition irq_V :: "bool \<Rightarrow> nat \<Rightarrow> ksys \<Rightarrow> ksys outcome" where
  "irq_V mem_ok a s = V mem_ok a s"

definition ready_to_run :: "ksys \<Rightarrow> bool" where
  "ready_to_run s \<longleftrightarrow> (\<exists>t. curthread s = Some t \<and> conts s t = C_Run)"

inductive kstep :: "ksys \<Rightarrow> ksys \<Rightarrow> bool" where
  kP: "ready_to_run s \<Longrightarrow> P (map (irq_V m) vs) m a s = Some s' \<Longrightarrow> kstep s s'"
| kV: "ready_to_run s \<Longrightarrow> V m a s = Some s' \<Longrightarrow> kstep s s'"
| kacquire: "ready_to_run s \<Longrightarrow> lock_acquire (map (irq_V m) vs) m a s = Some s' \<Longrightarrow> kstep s s'"
| krelease: "ready_to_run s \<Longrightarrow> lock_release m a s = Some s' \<Longrightarrow> kstep s s'"
| kwait: "ready_to_run s \<Longrightarrow> cv_wait (map (irq_V m) vs) m a lk s = Some s' \<Longrightarrow> kstep s s'"
| ksignal: "ready_to_run s \<Longrightarrow> cv_signal m a s = Some s' \<Longrightarrow> kstep s s'"
| kbroadcast: "ready_to_run s \<Longrightarrow> cv_broadcast m a s = Some s' \<Longrightarrow> kstep s s'"
| kyield: "ready_to_run s \<Longrightarrow> do_yield (map (irq_V m) vs) m s = Some s' \<Longrightarrow> kstep s s'"
| kresume: "0 < curspl s \<Longrightarrow> resume (map (irq_V m) vs) m s = Some s' \<Longrightarrow> kstep s s'"

inductive kreach :: "ksys \<Rightarrow> ksys \<Rightarrow> bool" where
  krefl: "kreach s s"
| kmore: "kreach s s1 \<Longrightarrow> kstep s1 s2 \<Longrightarrow> kreach s s2"

end
