(* ===== verification/Threads_Inv.thy ===== *)
theory Threads_Inv
  imports Threads
begin

text \<open>
  The invariant of the thread system and its preservation.  \<open>threads_ok\<close> says that every thread is on
  exactly one of the lists (running, ready, asleep, dead), that the count of threads is right and
  that the space the forks reserved is there.  The wake-up, the context switch, the fork, the exit
  and the disposal of dead threads are each shown to do what they should on the lists, and the
  relation \<open>tstep\<close> puts them together into runs of the system.
\<close>

section \<open>Invariant\<close>

definition cur_list :: "'z tsys_scheme \<Rightarrow> nat list" where
  "cur_list s = (case curthread s of None \<Rightarrow> [] | Some a \<Rightarrow> [a])"

definition sleep_list :: "'z tsys_scheme \<Rightarrow> nat list" where
  "sleep_list s = (case sleepers s of None \<Rightarrow> [] | Some a \<Rightarrow> array_guys a)"

definition zombie_list :: "'z tsys_scheme \<Rightarrow> nat list" where
  "zombie_list s = (case zombies s of None \<Rightarrow> [] | Some a \<Rightarrow> array_guys a)"

text \<open>Every live thread is on exactly one list, has a structure in memory and an intact stack.\<close>

definition magic_ok :: "8 word list option \<Rightarrow> bool" where
  "magic_ok st \<longleftrightarrow> check_magic st = Some ()"

definition live_ok :: "(nat \<rightharpoonup> thread) \<Rightarrow> nat \<Rightarrow> bool" where
  "live_ok h a \<longleftrightarrow> (case h a of None \<Rightarrow> False | Some t \<Rightarrow> magic_ok (t_stack t))"

definition dead_ok :: "(nat \<rightharpoonup> thread) \<Rightarrow> nat \<Rightarrow> bool" where
  "dead_ok h a \<longleftrightarrow> (case h a of None \<Rightarrow> False | Some t \<Rightarrow> t_vmspace t = None \<and> t_cwd t = None)"

lemma live_dead_upd [simp]:
  "live_ok (h(a \<mapsto> t)) b \<longleftrightarrow> (if b = a then magic_ok (t_stack t) else live_ok h b)"
  "dead_ok (h(a \<mapsto> t)) b \<longleftrightarrow> (if b = a then t_vmspace t = None \<and> t_cwd t = None else dead_ok h b)"
  "live_ok (h(a := None)) b \<longleftrightarrow> b \<noteq> a \<and> live_ok h b"
  "dead_ok (h(a := None)) b \<longleftrightarrow> b \<noteq> a \<and> dead_ok h b"
  by (auto simp: live_ok_def dead_ok_def)

definition lists_ok :: "nat list \<Rightarrow> nat list \<Rightarrow> nat list \<Rightarrow> nat list \<Rightarrow> (nat \<rightharpoonup> thread) \<Rightarrow> bool" where
  "lists_ok cur ready asleep dead h \<longleftrightarrow>
     distinct (cur @ ready @ asleep @ dead) \<and>
     (\<forall>a \<in> set (cur @ ready @ asleep). live_ok h a) \<and> (\<forall>a \<in> set dead. dead_ok h a)"

text \<open>
  The thread count, and the space reserved by the forks: the run queue can hold all threads but
  the running one, the sleepers' array all threads once there is more than one.
\<close>

definition counts_ok :: "'z tsys_scheme \<Rightarrow> bool" where
  "counts_ok s \<longleftrightarrow>
     numthreads s = int (length (cur_list s @ runq s @ sleep_list s)) \<and> numthreads s < 2 ^ 27 \<and>
     numthreads s \<le> int (runq_room s) + int (length (runq s)) + 1 \<and>
     runq_room s + length (runq s) < 2 ^ 28 \<and>
     (1 < numthreads s \<longrightarrow> (\<forall>sl. sleepers s = Some sl \<longrightarrow> numthreads s \<le> arr_max sl))"

definition threads_ok :: "'z tsys_scheme \<Rightarrow> bool" where
  "threads_ok s \<longleftrightarrow>
     sched_ok s \<and> (\<exists>sl. sleepers s = Some sl \<and> array_ok sl) \<and>
     (\<exists>zo. zombies s = Some zo \<and> array_ok zo) \<and>
     lists_ok (cur_list s) (runq s) (sleep_list s) (zombie_list s) (thr s) \<and> counts_ok s"

named_theorems thread_lists

lemmas [thread_lists] = cur_list_def sleep_list_def zombie_list_def

lemma lists_upd [simp]:
  "cur_list (s\<lparr>runqueue := q\<rparr>) = cur_list s" "cur_list (s\<lparr>sleepers := a\<rparr>) = cur_list s"
  "cur_list (s\<lparr>zombies := a\<rparr>) = cur_list s" "cur_list (s\<lparr>thr := h\<rparr>) = cur_list s"
  "cur_list (s\<lparr>numthreads := n\<rparr>) = cur_list s" "cur_list (s\<lparr>curspl := k\<rparr>) = cur_list s"
  "cur_list (s\<lparr>effects := es\<rparr>) = cur_list s"
  "sleep_list (s\<lparr>runqueue := q\<rparr>) = sleep_list s" "sleep_list (s\<lparr>curthread := c\<rparr>) = sleep_list s"
  "sleep_list (s\<lparr>zombies := a\<rparr>) = sleep_list s" "sleep_list (s\<lparr>thr := h\<rparr>) = sleep_list s"
  "sleep_list (s\<lparr>numthreads := n\<rparr>) = sleep_list s" "sleep_list (s\<lparr>curspl := k\<rparr>) = sleep_list s"
  "sleep_list (s\<lparr>effects := es\<rparr>) = sleep_list s"
  "zombie_list (s\<lparr>runqueue := q\<rparr>) = zombie_list s" "zombie_list (s\<lparr>curthread := c\<rparr>) = zombie_list s"
  "zombie_list (s\<lparr>sleepers := a\<rparr>) = zombie_list s" "zombie_list (s\<lparr>thr := h\<rparr>) = zombie_list s"
  "zombie_list (s\<lparr>numthreads := n\<rparr>) = zombie_list s" "zombie_list (s\<lparr>curspl := k\<rparr>) = zombie_list s"
  "zombie_list (s\<lparr>effects := es\<rparr>) = zombie_list s"
  by (simp_all add: thread_lists)

lemma runq_upd [simp]:
  "runq (s\<lparr>runqueue := Some q\<rparr>) = q_list q" "runq (s\<lparr>curthread := c\<rparr>) = runq s"
  "runq (s\<lparr>sleepers := a\<rparr>) = runq s" "runq (s\<lparr>zombies := a\<rparr>) = runq s"
  "runq (s\<lparr>thr := h\<rparr>) = runq s" "runq (s\<lparr>numthreads := n\<rparr>) = runq s"
  "runq (s\<lparr>curspl := k\<rparr>) = runq s" "runq (s\<lparr>effects := es\<rparr>) = runq s"
  "runq_room (s\<lparr>runqueue := Some q\<rparr>) = q_room q" "runq_room (s\<lparr>curthread := c\<rparr>) = runq_room s"
  "runq_room (s\<lparr>sleepers := a\<rparr>) = runq_room s" "runq_room (s\<lparr>zombies := a\<rparr>) = runq_room s"
  "runq_room (s\<lparr>thr := h\<rparr>) = runq_room s" "runq_room (s\<lparr>numthreads := n\<rparr>) = runq_room s"
  "runq_room (s\<lparr>curspl := k\<rparr>) = runq_room s" "runq_room (s\<lparr>effects := es\<rparr>) = runq_room s"
  by (simp_all add: sched_defs)

lemma sched_ok_upd [simp]:
  "sched_ok (s\<lparr>runqueue := Some q\<rparr>) = queue_ok q" "sched_ok (s\<lparr>curthread := c\<rparr>) = sched_ok s"
  "sched_ok (s\<lparr>sleepers := a\<rparr>) = sched_ok s" "sched_ok (s\<lparr>zombies := a\<rparr>) = sched_ok s"
  "sched_ok (s\<lparr>thr := h\<rparr>) = sched_ok s" "sched_ok (s\<lparr>numthreads := n\<rparr>) = sched_ok s"
  "sched_ok (s\<lparr>curspl := k\<rparr>) = sched_ok s" "sched_ok (s\<lparr>effects := es\<rparr>) = sched_ok s"
  by (simp_all add: sched_ok_def)

section \<open>Waking up, functionally\<close>

definition sleeps_on :: "(nat \<rightharpoonup> thread) \<Rightarrow> nat \<Rightarrow> nat \<Rightarrow> bool" where
  "sleeps_on h addr a \<longleftrightarrow> (\<exists>t. h a = Some t \<and> t_sleepaddr t = Some addr)"

lemma array_remove_max: "array_remove a i = Some a' \<Longrightarrow> arr_max a' = arr_max a"
  by (auto simp: array_remove_def split: bind_splits)

lemma wakeup_loop_all:
  assumes "sleepers s = Some sl" "array_ok sl" "array_guys sl = pre @ rest" "sched_ok s" "0 < curspl s"
    and "cv_wakeup_one_thread s \<noteq> 1" "set rest \<subseteq> dom (thr s)"
    and "length (filter (sleeps_on (thr s) addr) rest) \<le> runq_room s"
  shows "\<exists>sl' q'. wakeup_loop m addr (int (length pre)) s = Some (s\<lparr>sleepers := Some sl', runqueue := Some q'\<rparr>) \<and>
    array_ok sl' \<and> arr_max sl' = arr_max sl \<and> queue_ok q' \<and>
    array_guys sl' = pre @ filter (\<lambda>a. \<not> sleeps_on (thr s) addr a) rest \<and>
    q_list q' = runq s @ filter (sleeps_on (thr s) addr) rest \<and>
    q_room q' = runq_room s - length (filter (sleeps_on (thr s) addr) rest)"
  using assms
proof (induction rest arbitrary: pre s sl)
  case Nil
  obtain q where q: "runqueue s = Some q" "queue_ok q" using Nil.prems(4) by (auto simp: sched_ok_def)
  have upd: "s\<lparr>sleepers := Some sl, runqueue := Some q\<rparr> = s" using Nil.prems(1) q by simp
  have "wakeup_loop m addr (int (length pre)) s = Some s"
    using Nil.prems by (subst wakeup_loop.simps) (simp add: array_ok_num)
  with Nil.prems q show ?case
    by (intro exI [of _ sl] exI [of _ q]) (simp add: upd sched_defs)
next
  case (Cons a rest)
  let ?i = "int (length pre)"
  have num: "?i < array_getnum sl" using Cons.prems(2,3) by (simp add: array_ok_num)
  have get: "array_getguy sl ?i = Some a"
    using array_getguy_ok [OF Cons.prems(2) _ num] Cons.prems(3) by simp
  obtain t where t: "thr s a = Some t" using Cons.prems(7) by auto
  show ?case
  proof (cases "sleeps_on (thr s) addr a")
    case False
    then have "wakeup_loop m addr ?i s = wakeup_loop m addr (?i + 1) s"
      using Cons.prems(1) num get t by (subst wakeup_loop.simps) (auto simp: sleeps_on_def)
    then show ?thesis using Cons.IH [of s sl "pre @ [a]"] Cons.prems False by (simp add: add.commute)
  next
    case True
    obtain sl1 where sl1: "array_remove sl ?i = Some sl1" "array_ok sl1" "array_guys sl1 = pre @ rest"
      using array_remove_ok [OF Cons.prems(2) _ num] Cons.prems(3) by auto
    let ?s1 = "s\<lparr>sleepers := Some sl1\<rparr>"
    obtain q1 where q1: "make_runnable m a ?s1 = Some (Inr (), ?s1\<lparr>runqueue := Some q1\<rparr>)" "queue_ok q1"
      "q_list q1 = runq s @ [a]" "q_room q1 = runq_room s - 1"
      using make_runnable_ok [of ?s1 m a] Cons.prems True by auto
    let ?s2 = "?s1\<lparr>runqueue := Some q1\<rparr>"
    have step: "wakeup_loop m addr ?i s = wakeup_loop m addr ?i ?s2"
      using Cons.prems(1,6) num get t True sl1 q1 by (subst wakeup_loop.simps) (auto simp: sleeps_on_def)
    show ?thesis
      using Cons.IH [of ?s2 sl1 pre] Cons.prems True sl1 q1 array_remove_max [OF sl1(1)]
      unfolding step by auto
  qed
qed

text \<open>With the flag set by \<^verbatim>\<open>cv_signal\<close>, only the first sleeper on the address is woken.\<close>

lemma wakeup_loop_one:
  assumes "sleepers s = Some sl" "array_ok sl" "array_guys sl = pre @ rest" "sched_ok s" "0 < curspl s"
    and "cv_wakeup_one_thread s = 1" "set rest \<subseteq> dom (thr s)" "rest \<noteq> [] \<Longrightarrow> 0 < runq_room s"
  shows "if \<exists>a \<in> set rest. sleeps_on (thr s) addr a
    then \<exists>sl' q' us a vs. wakeup_loop m addr (int (length pre)) s =
        Some (s\<lparr>sleepers := Some sl', runqueue := Some q'\<rparr>) \<and>
      array_ok sl' \<and> arr_max sl' = arr_max sl \<and> queue_ok q' \<and> rest = us @ a # vs \<and>
      sleeps_on (thr s) addr a \<and> (\<forall>b \<in> set us. \<not> sleeps_on (thr s) addr b) \<and>
      array_guys sl' = pre @ us @ vs \<and> q_list q' = runq s @ [a] \<and> q_room q' = runq_room s - 1
    else wakeup_loop m addr (int (length pre)) s = Some s"
  using assms
proof (induction rest arbitrary: pre)
  case Nil
  then show ?case by (subst wakeup_loop.simps) (simp add: array_ok_num)
next
  case (Cons a rest)
  let ?i = "int (length pre)"
  have num: "?i < array_getnum sl" using Cons.prems(2,3) by (simp add: array_ok_num)
  have get: "array_getguy sl ?i = Some a"
    using array_getguy_ok [OF Cons.prems(2) _ num] Cons.prems(3) by simp
  obtain t where t: "thr s a = Some t" using Cons.prems(7) by auto
  show ?case
  proof (cases "sleeps_on (thr s) addr a")
    case False
    have step: "wakeup_loop m addr ?i s = wakeup_loop m addr (int (length (pre @ [a]))) s"
      using Cons.prems(1) num get t False by (subst wakeup_loop.simps) (auto simp: sleeps_on_def add.commute)
    note IH = Cons.IH [of "pre @ [a]"]
    show ?thesis
    proof (cases "\<exists>b \<in> set rest. sleeps_on (thr s) addr b")
      case True
      then obtain sl' q' us b vs where "wakeup_loop m addr (int (length (pre @ [a]))) s =
          Some (s\<lparr>sleepers := Some sl', runqueue := Some q'\<rparr>)"
        "array_ok sl'" "arr_max sl' = arr_max sl" "queue_ok q'" "rest = us @ b # vs"
        "sleeps_on (thr s) addr b" "\<forall>b \<in> set us. \<not> sleeps_on (thr s) addr b"
        "array_guys sl' = (pre @ [a]) @ us @ vs" "q_list q' = runq s @ [b]" "q_room q' = runq_room s - 1"
        using IH Cons.prems by auto
      note w = this
      have "\<exists>b \<in> set (a # rest). sleeps_on (thr s) addr b" using True by simp
      then show ?thesis unfolding if_P [OF \<open>\<exists>b \<in> set (a # rest). sleeps_on (thr s) addr b\<close>] step
        by (rule_tac x = sl' in exI, rule_tac x = q' in exI, rule_tac x = "a # us" in exI,
            rule_tac x = b in exI, rule_tac x = vs in exI) (use w False in auto)
    next
      case none: False
      then show ?thesis using IH Cons.prems False by (auto simp: step)
    qed
  next
    case True
    obtain sl1 where sl1: "array_remove sl ?i = Some sl1" "array_ok sl1" "array_guys sl1 = pre @ rest"
      using array_remove_ok [OF Cons.prems(2) _ num] Cons.prems(3) by auto
    let ?s1 = "s\<lparr>sleepers := Some sl1\<rparr>"
    obtain q1 where q1: "make_runnable m a ?s1 = Some (Inr (), ?s1\<lparr>runqueue := Some q1\<rparr>)" "queue_ok q1"
      "q_list q1 = runq s @ [a]" "q_room q1 = runq_room s - 1"
      using make_runnable_ok [of ?s1 m a] Cons.prems by auto
    have "wakeup_loop m addr ?i s = Some (?s1\<lparr>runqueue := Some q1\<rparr>)"
      using Cons.prems(1,6) num get t True sl1 q1 by (subst wakeup_loop.simps) (auto simp: sleeps_on_def)
    then show ?thesis using True sl1 q1 array_remove_max [OF sl1(1)] by fastforce
  qed
qed

section \<open>Preservation of the invariant\<close>

lemma threads_okD:
  assumes "threads_ok s"
  obtains q sl zo where "runqueue s = Some q" "queue_ok q" "sleepers s = Some sl" "array_ok sl"
    "zombies s = Some zo" "array_ok zo" "runq s = q_list q" "runq_room s = q_room q"
    "sleep_list s = array_guys sl" "zombie_list s = array_guys zo"
  using assms by (auto simp: threads_ok_def sched_defs thread_lists)

lemma emit_simps [simp]:
  "threads_ok (emit e s) = threads_ok s" "curthread (emit e s) = curthread s" "curspl (emit e s) = curspl s"
  "thr (emit e s) = thr s" "runq (emit e s) = runq s" "sleep_list (emit e s) = sleep_list s"
  "zombie_list (emit e s) = zombie_list s" "cur_list (emit e s) = cur_list s"
  "numthreads (emit e s) = numthreads s" "sleepers (emit e s) = sleepers s" "zombies (emit e s) = zombies s"
  "runqueue (emit e s) = runqueue s" "in_interrupt (emit e s) = in_interrupt s"
  "cv_wakeup_one_thread (emit e s) = cv_wakeup_one_thread s" "runq_room (emit e s) = runq_room s"
  by (simp_all add: emit_def threads_ok_def counts_ok_def)

lemma threads_ok_spl [simp]: "threads_ok (s\<lparr>curspl := k\<rparr>) = threads_ok s"
  by (simp add: threads_ok_def counts_ok_def)

lemma threads_ok_pick:
  assumes "threads_ok s" "curthread s = None" "runq s = b # bs"
    and "queue_ok q" "q_list q = bs" "q_room q = Suc (runq_room s)"
  shows "threads_ok (s\<lparr>runqueue := Some q, curthread := Some b\<rparr>)"
  using assms by (auto simp: threads_ok_def counts_ok_def lists_ok_def cur_list_def)

lemma threads_ok_sleep_enq:
  assumes "threads_ok s" "curthread s = Some a" "sleepers s = Some sl"
    and "array_ok sl'" "array_guys sl' = array_guys sl @ [a]" "arr_max sl \<le> arr_max sl'"
  shows "threads_ok (s\<lparr>curthread := None, sleepers := Some sl'\<rparr>)"
  using assms by (auto simp: threads_ok_def counts_ok_def lists_ok_def thread_lists)

lemma threads_ok_ready_enq:
  assumes "threads_ok s" "curthread s = Some a" "runqueue s = Some q"
    and "queue_ok q'" "q_list q' = q_list q @ [a]" "q_room q + q_count q \<le> q_room q' + q_count q'"
    and "q_room q' + q_count q' < 2 ^ 28"
  shows "threads_ok (s\<lparr>curthread := None, runqueue := Some q'\<rparr>)"
proof -
  have "runq s = q_list q" "runq_room s = q_room q" using assms(3) by (simp_all add: sched_defs)
  moreover have "q_count q' = Suc (q_count q)" using assms(5) by (metis length_append_singleton q_list_length)
  ultimately show ?thesis using assms by (auto simp: threads_ok_def counts_ok_def lists_ok_def thread_lists)
qed

lemma threads_ok_zombie_enq:
  assumes "threads_ok s" "curthread s = Some a" "zombies s = Some zo" "thr s a = Some t"
    and "t_vmspace t = None" "t_cwd t = None"
    and "array_ok zo'" "array_guys zo' = array_guys zo @ [a]"
  shows "threads_ok (s\<lparr>numthreads := numthreads s - 1, curthread := None, zombies := Some zo'\<rparr>)"
  using assms by (auto simp: threads_ok_def counts_ok_def lists_ok_def thread_lists dead_ok_def)

section \<open>Space in the arrays and the run queue\<close>

lemma array_preallocate_max: "array_preallocate m a n = Some (r, a') \<Longrightarrow> arr_max a \<le> arr_max a'"
  by (auto simp: array_preallocate_def split: bind_splits if_splits dest: array_newmax_ge)

lemma array_add_max:
  assumes "array_add m a x = Some (Inr u, a')" "array_ok a"
  shows "arr_max a \<le> arr_max a'"
proof -
  obtain r a1 where a1: "array_setsize m a (arr_num a + 1) = Some (r, a1)" "r = Inr ()" "arr_max a' = arr_max a1"
    using assms(1) by (auto simp: array_add_def Let_def split: bind_splits sum.splits)
  then show ?thesis using assms(2)
    by (auto simp: array_setsize_def array_ok_def split: bind_splits if_splits sum.splits)
      (metis array_preallocate_max)+
qed

lemma array_add_room:
  assumes ok: "array_ok a" and "m \<or> arr_num a < arr_max a" "arr_num a < 2 ^ 30 - 1"
  shows "\<exists>a'. array_add m a x = Some (Inr (), a') \<and> array_ok a' \<and> array_guys a' = array_guys a @ [x] \<and>
    arr_max a \<le> arr_max a'"
proof -
  from array_add_ok [OF ok assms(3), of m x] obtain r a' where
    r: "array_add m a x = Some (r, a')" "array_ok a'"
       "case r of Inl e \<Rightarrow> e = ENOMEM \<and> \<not> m \<and> arr_num a = arr_max a \<and> a' = a
                | Inr _ \<Rightarrow> (m \<or> arr_num a < arr_max a) \<and> array_guys a' = array_guys a @ [x]"
    by blast
  with assms(2) obtain u where u: "r = Inr u" "array_guys a' = array_guys a @ [x]" by (cases r) auto
  with r array_add_max [OF _ ok] show ?thesis by auto
qed

lemma queue_capacity: "queue_ok q \<Longrightarrow> q_room q + q_count q + 1 = q_size q"
  using queue_count_less [of q] by (simp add: q_room_def)

lemma queue_full_room: "queue_ok q \<Longrightarrow> q_full q \<longleftrightarrow> q_room q = 0"
  using queue_count_less [of q] by (auto simp: q_room_def q_full_def)

lemma make_runnable_mem:
  assumes "runqueue s = Some q" "queue_ok q" "0 < curspl s" "m \<or> 0 < q_room q" "q_size q < 2 ^ 29"
  shows "\<exists>q'. make_runnable m a s = Some (Inr (), s\<lparr>runqueue := Some q'\<rparr>) \<and> queue_ok q' \<and>
    q_list q' = q_list q @ [a] \<and> q_size q' = (if q_full q then q_size q * 2 else q_size q)"
  using q_addtail_spec [OF assms(2,5), of 0 m a] assms queue_full_room [OF assms(2)]
  by (auto simp: make_runnable_def q_addtail_def numeral_2_eq_2 simp del: q_addtail_fuel.simps)

lemma make_runnable_nomem:
  assumes "runqueue s = Some q" "queue_ok q" "0 < curspl s" "q_room q = 0" "q_size q < 2 ^ 29"
  shows "make_runnable False a s = Some (Inl ENOMEM, s)"
proof -
  have "q_addtail False q a = Some (Inl ENOMEM, q)"
    using q_addtail_nomem [OF assms(2) _ assms(5), of 1 a] queue_full_room [OF assms(2)] assms(4)
    by (simp add: q_addtail_def numeral_2_eq_2 del: q_addtail_fuel.simps)
  then show ?thesis using assms by (simp add: make_runnable_def)
qed

section \<open>The context switch\<close>

lemma threads_ok_cur:
  assumes "threads_ok s" "curthread s = Some a"
  obtains t where "thr s a = Some t" "check_magic (t_stack t) = Some ()"
  using assms by (auto simp: threads_ok_def lists_ok_def cur_list_def live_ok_def magic_ok_def split: option.splits)

text \<open>A yield rotates the run queue, the yielding thread going to its end.\<close>

lemma mi_switch_ready:
  assumes ok: "threads_ok s" and cur: "curthread s = Some a" and spl: "0 < curspl s"
    and mem: "m \<or> 0 < runq_room s"
  shows "\<exists>q'. mi_switch irqs m S_READY s =
      Some (emit Tlb_Flush (s\<lparr>runqueue := Some q', curthread := Some (hd (runq s @ [a]))\<rparr>)) \<and>
    q_list q' = tl (runq s @ [a]) \<and>
    threads_ok (s\<lparr>runqueue := Some q', curthread := Some (hd (runq s @ [a]))\<rparr>)"
proof -
  obtain q where q: "runqueue s = Some q" "queue_ok q" "runq s = q_list q" "runq_room s = q_room q"
    using ok by (rule threads_okD)
  obtain t where t: "thr s a = Some t" "check_magic (t_stack t) = Some ()" using ok cur by (rule threads_ok_cur)
  let ?s0 = "s\<lparr>curthread := None\<rparr>"
  have bounds: "q_room q + q_count q < 2 ^ 28" "int (q_count q) < 2 ^ 27"
    using ok q by (auto simp: threads_ok_def counts_ok_def cur_list_def)
  then have "q_size q < 2 ^ 29" using queue_capacity [OF q(2)] by simp
  then obtain q1 where q1: "make_runnable m a ?s0 = Some (Inr (), ?s0\<lparr>runqueue := Some q1\<rparr>)" "queue_ok q1"
    "q_list q1 = q_list q @ [a]" "q_size q1 = (if q_full q then q_size q * 2 else q_size q)"
    using make_runnable_mem [of ?s0 q m a] q spl mem by auto
  let ?s1 = "?s0\<lparr>runqueue := Some q1\<rparr>"
  have cap: "q_room q1 + q_count q1 + 1 = q_size q1" "q_room q + q_count q + 1 = q_size q"
    using q1(2) q(2) queue_capacity by auto
  have "q_size q1 \<le> 2 ^ 28 \<and> q_size q \<le> q_size q1"
    using q1(4) bounds cap(2) by (auto simp: q_full_def)
  then have ok1: "threads_ok ?s1" using threads_ok_ready_enq [OF ok cur q(1) q1(2,3)] cap by simp
  have runq1: "runq ?s1 = hd (runq s @ [a]) # tl (runq s @ [a])" using q1(3) q(3) by simp
  obtain q2 where q2: "scheduler irqs ?s1 = Some (hd (runq s @ [a]), ?s1\<lparr>runqueue := Some q2\<rparr>)" "queue_ok q2"
    "q_list q2 = tl (runq s @ [a])" "q_room q2 = Suc (runq_room ?s1)"
    using scheduler_ready [OF _ _ runq1, of irqs] ok1 spl by (auto simp: threads_ok_def)
  from threads_ok_pick [OF ok1 _ runq1 q2(2-4)] have
    "threads_ok (s\<lparr>runqueue := Some q2, curthread := Some (hd (runq s @ [a]))\<rparr>)" by simp
  moreover have "mi_switch irqs m S_READY s =
      Some (emit Tlb_Flush (s\<lparr>runqueue := Some q2, curthread := Some (hd (runq s @ [a]))\<rparr>))"
    using spl cur t q1(1) q2(1) by (simp add: mi_switch_def)
  ultimately show ?thesis using q2(3) by blast
qed

lemma mi_switch_ready_nomem:
  assumes ok: "threads_ok s" and cur: "curthread s = Some a" and spl: "0 < curspl s" and "runq_room s = 0"
  shows "mi_switch irqs False S_READY s = None"
proof -
  obtain q where q: "runqueue s = Some q" "queue_ok q" "runq s = q_list q" "runq_room s = q_room q"
    using ok by (rule threads_okD)
  obtain t where t: "thr s a = Some t" "check_magic (t_stack t) = Some ()" using ok cur by (rule threads_ok_cur)
  have "q_room q + q_count q < 2 ^ 28" using ok q by (auto simp: threads_ok_def counts_ok_def)
  then have "q_size q < 2 ^ 29" using queue_capacity [OF q(2)] by simp
  then have "make_runnable False a (s\<lparr>curthread := None\<rparr>) = Some (Inl ENOMEM, s\<lparr>curthread := None\<rparr>)"
    using make_runnable_nomem [of "s\<lparr>curthread := None\<rparr>" q a] q spl assms(4) by auto
  then show ?thesis using spl cur t by (simp add: mi_switch_def kassert_def)
qed

text \<open>
  Going to sleep: the thread is appended to the sleepers, and the processor goes to the first
  thread that is or becomes runnable.
\<close>

lemma mi_switch_sleep:
  assumes ok: "threads_ok s" and cur: "curthread s = Some a" and spl: "0 < curspl s"
    and mem: "m \<or> 1 < numthreads s"
  shows "\<exists>sl'. array_guys sl' = sleep_list s @ [a] \<and> threads_ok (s\<lparr>curthread := None, sleepers := Some sl'\<rparr>) \<and>
    (\<forall>s2. idle_run irqs (s\<lparr>curthread := None, sleepers := Some sl'\<rparr>) s2 \<longrightarrow> threads_ok s2 \<longrightarrow> curthread s2 = None \<longrightarrow>
       (\<exists>q'. mi_switch irqs m S_SLEEP s =
           Some (emit Tlb_Flush (s2\<lparr>runqueue := Some q', curthread := Some (hd (runq s2))\<rparr>)) \<and>
         q_list q' = tl (runq s2) \<and> threads_ok (s2\<lparr>runqueue := Some q', curthread := Some (hd (runq s2))\<rparr>)))"
proof -
  obtain sl where sl: "sleepers s = Some sl" "array_ok sl" "sleep_list s = array_guys sl"
    using ok by (rule threads_okD)
  obtain t where t: "thr s a = Some t" "check_magic (t_stack t) = Some ()" using ok cur by (rule threads_ok_cur)
  have n: "arr_num sl = int (length (sleep_list s))" using array_ok_num [OF sl(2)] sl(3) by (simp add: array_getnum_def)
  have "arr_num sl < 2 ^ 27" "m \<or> arr_num sl < arr_max sl"
    using ok cur sl n mem by (auto simp: threads_ok_def counts_ok_def cur_list_def)
  then obtain sl' where sl': "array_add m sl a = Some (Inr (), sl')" "array_ok sl'"
    "array_guys sl' = array_guys sl @ [a]" "arr_max sl \<le> arr_max sl'"
    using array_add_room [OF sl(2), of m a] by auto
  let ?s1 = "s\<lparr>curthread := None, sleepers := Some sl'\<rparr>"
  have "\<exists>q'. mi_switch irqs m S_SLEEP s =
           Some (emit Tlb_Flush (s2\<lparr>runqueue := Some q', curthread := Some (hd (runq s2))\<rparr>)) \<and>
         q_list q' = tl (runq s2) \<and> threads_ok (s2\<lparr>runqueue := Some q', curthread := Some (hd (runq s2))\<rparr>)"
    if run: "idle_run irqs ?s1 s2" and ok2: "threads_ok s2" and cur2: "curthread s2 = None" for s2
  proof -
    note r = idle_run_loop [OF run]
    then have rq: "runq s2 = hd (runq s2) # tl (runq s2)" by simp
    obtain q where q: "runqueue s2 = Some q" "queue_ok q" "runq s2 = q_list q" "runq_room s2 = q_room q"
      using ok2 by (rule threads_okD)
    obtain q' where q': "q_remhead q = Some (hd (runq s2), q')" "queue_ok q'" "q_room q' = Suc (q_room q)"
      "q_list q' = tl (runq s2)"
      using ring.rem_Cons [OF q(2), of "hd (runq s2)" "tl (runq s2)"] rq q(3) by auto
    have "scheduler irqs ?s1 = Some (hd (runq s2), s2\<lparr>runqueue := Some q'\<rparr>)"
      using spl r q q' by (simp add: scheduler_def)
    then have "mi_switch irqs m S_SLEEP s =
        Some (emit Tlb_Flush (s2\<lparr>runqueue := Some q', curthread := Some (hd (runq s2))\<rparr>))"
      using spl cur t sl sl' by (simp add: mi_switch_def)
    then show ?thesis using threads_ok_pick [OF ok2 cur2 rq q'(2)] q' q by auto
  qed
  moreover have "threads_ok ?s1" by (rule threads_ok_sleep_enq [OF ok cur sl(1) sl'(2-4)])
  ultimately show ?thesis using sl'(3) sl(3) by auto
qed

section \<open>The operations preserve the invariant whenever they return\<close>

lemma make_runnable_returns:
  assumes r: "make_runnable m a s = Some (Inr u, s')" and q: "runqueue s = Some q" "queue_ok q"
    and bounds: "q_room q + q_count q < 2 ^ 28" "q_count q < 2 ^ 27"
  shows "\<exists>q'. s' = s\<lparr>runqueue := Some q'\<rparr> \<and> queue_ok q' \<and> q_list q' = q_list q @ [a] \<and>
    q_room q + q_count q \<le> q_room q' + q_count q' \<and> q_room q' + q_count q' < 2 ^ 28"
proof -
  have spl: "0 < curspl s" using r by (auto simp: make_runnable_def)
  have cap: "q_room q + q_count q + 1 = q_size q" by (rule queue_capacity [OF q(2)])
  then have sz: "q_size q < 2 ^ 29" using bounds by simp
  have "m \<or> 0 < q_room q" using make_runnable_nomem [OF q spl _ sz, of a] r by (cases m) auto
  from make_runnable_mem [OF q spl this sz, of a] obtain q' where
    q': "s' = s\<lparr>runqueue := Some q'\<rparr>" "queue_ok q'" "q_list q' = q_list q @ [a]"
    "q_size q' = (if q_full q then q_size q * 2 else q_size q)" using r by auto
  have "q_room q' + q_count q' + 1 = q_size q'" by (rule queue_capacity [OF q'(2)])
  moreover have "q_size q' \<le> 2 ^ 28 \<and> q_size q \<le> q_size q'" using q'(4) bounds cap by (auto simp: q_full_def)
  ultimately show ?thesis using q' cap by (intro exI [of _ q']) simp
qed

lemma threads_ok_move:
  assumes "threads_ok s" "sleepers s = Some sl" "runqueue s = Some q" "array_guys sl = us @ a # vs"
    and "array_ok sl'" "array_guys sl' = us @ vs" "arr_max sl' = arr_max sl"
    and "queue_ok q'" "q_list q' = q_list q @ [a]" "q_room q + q_count q \<le> q_room q' + q_count q'"
    and "q_room q' + q_count q' < 2 ^ 28"
  shows "threads_ok (s\<lparr>sleepers := Some sl', runqueue := Some q'\<rparr>)"
proof -
  have "runq s = q_list q" "runq_room s = q_room q" using assms(3) by (simp_all add: sched_defs)
  moreover have "q_count q' = Suc (q_count q)" using assms(9) by (metis length_append_singleton q_list_length)
  ultimately show ?thesis using assms by (auto simp: threads_ok_def counts_ok_def lists_ok_def thread_lists)
qed

lemma threads_ok_bounds:
  assumes "threads_ok s" "runqueue s = Some q"
  shows "q_room q + q_count q < 2 ^ 28" "q_count q < 2 ^ 27"
  using assms by (auto simp: threads_ok_def counts_ok_def sched_defs)

text \<open>One round of the loop of \<^verbatim>\<open>thread_wakeup\<close>, the rest of the loop being \<open>rec\<close>.\<close>

lemma wakeup_round:
  assumes ret: "(do {
       sl \<leftarrow> sleepers s;
       if i < array_getnum sl then do {
         b \<leftarrow> array_getguy sl i;
         t \<leftarrow> thr s b;
         if t_sleepaddr t = Some addr then do {
           sl' \<leftarrow> array_remove sl i;
           (result, s') \<leftarrow> make_runnable m b (s\<lparr>sleepers := Some sl'\<rparr>);
           kassert (result = Inr ());
           if cv_wakeup_one_thread s' = 1 then Some s' else rec m addr i s'
         }
         else rec m addr (i + 1) s
       }
       else Some s
     }) = Some s'" and ok: "threads_ok s" and i: "0 \<le> i"
  obtains (stop) "s' = s" "length (sleep_list s) \<le> nat i"
  | (miss) "nat i < length (sleep_list s)" "\<not> sleeps_on (thr s) addr (sleep_list s ! nat i)"
      "rec m addr (i + 1) s = Some s'"
  | (hit) s1 sl1 q1 where "nat i < length (sleep_list s)" "s1 = s\<lparr>sleepers := Some sl1, runqueue := Some q1\<rparr>"
      "threads_ok s1" "sleep_list s1 = take (nat i) (sleep_list s) @ drop (Suc (nat i)) (sleep_list s)"
      "if cv_wakeup_one_thread s = 1 then s' = s1 else rec m addr i s1 = Some s'"
proof -
  obtain q sl where q: "runqueue s = Some q" "queue_ok q" and sl: "sleepers s = Some sl" "array_ok sl"
    "sleep_list s = array_guys sl" using ok by (rule threads_okD)
  show thesis
  proof (cases "i < array_getnum sl")
    case False
    then show thesis using stop ret sl array_ok_num [OF sl(2)] i by simp
  next
    case True
    let ?b = "array_guys sl ! nat i"
    have get: "array_getguy sl i = Some ?b" by (rule array_getguy_ok [OF sl(2) i True])
    have len: "nat i < length (array_guys sl)" using True i array_ok_num [OF sl(2)] by simp
    obtain t where t: "thr s ?b = Some t" using ret sl True get by (auto split: bind_splits)
    show thesis
    proof (cases "t_sleepaddr t = Some addr")
      case False
      then show thesis using miss ret sl True get t len by (simp add: sleeps_on_def)
    next
      case hits: True
      obtain sl1 where sl1: "array_remove sl i = Some sl1" "array_ok sl1"
        "array_guys sl1 = take (nat i) (array_guys sl) @ drop (Suc (nat i)) (array_guys sl)"
        using array_remove_ok [OF sl(2) i True] by blast
      obtain s1 where s1: "make_runnable m ?b (s\<lparr>sleepers := Some sl1\<rparr>) = Some (Inr (), s1)"
        "if cv_wakeup_one_thread s1 = 1 then s' = s1 else rec m addr i s1 = Some s'"
        using ret sl True get t hits sl1(1) by (auto split: bind_splits if_splits)
      obtain q1 where q1: "s1 = s\<lparr>sleepers := Some sl1, runqueue := Some q1\<rparr>" "queue_ok q1"
        "q_list q1 = q_list q @ [?b]" "q_room q + q_count q \<le> q_room q1 + q_count q1"
        "q_room q1 + q_count q1 < 2 ^ 28"
        using make_runnable_returns [OF s1(1) _ q(2) threads_ok_bounds [OF ok q(1)]] q(1) by auto
      have "array_guys sl = take (nat i) (array_guys sl) @ ?b # drop (Suc (nat i)) (array_guys sl)"
        using len by (rule id_take_nth_drop)
      from threads_ok_move [OF ok sl(1) q(1) this sl1(2,3) array_remove_max [OF sl1(1)] q1(2-5)]
      have "threads_ok s1" using q1(1) by simp
      moreover have "sleep_list s1 = array_guys sl1" using q1(1) by (simp add: sleep_list_def)
      ultimately show thesis using hit [OF _ q1(1)] len sl(3) sl1(3) s1(2) q1(1) by simp
    qed
  qed
qed

lemma wakeup_loop_preserves:
  "wakeup_loop m addr i s = Some s' \<Longrightarrow> threads_ok s \<longrightarrow> 0 \<le> i \<longrightarrow>
     threads_ok s' \<and> curthread s' = curthread s \<and> curspl s' = curspl s \<and> thr s' = thr s"
proof (induction rule: wakeup_loop.raw_induct [rotated, consumes 1, case_names step])
  case (step rec m addr i s s')
  show ?case
  proof (intro impI)
    assume ok: "threads_ok s" and i: "0 \<le> i"
    from step.hyps ok i show "threads_ok s' \<and> curthread s' = curthread s \<and> curspl s' = curspl s \<and> thr s' = thr s"
    proof (cases rule: wakeup_round)
      case stop
      then show ?thesis using ok by simp
    next
      case miss
      then show ?thesis using step.IH [OF miss(3)] ok i by simp
    next
      case (hit s1 sl1 q1)
      then show ?thesis using step.IH [of m addr i s1 s'] i by (auto split: if_splits)
    qed
  qed
qed

lemma thread_wakeup_preserves:
  "thread_wakeup m addr s = Some s' \<Longrightarrow> threads_ok s \<Longrightarrow>
     threads_ok s' \<and> curthread s' = curthread s \<and> curspl s' = curspl s \<and> thr s' = thr s"
  using wakeup_loop_preserves [of m addr 0 s s'] by (auto simp: thread_wakeup_def)

text \<open>The handlers that may run in the idle loop: they keep the invariant and do not touch the switch.\<close>

definition irq_ok :: "('z tsys_scheme \<Rightarrow> 'z tsys_scheme outcome) \<Rightarrow> bool" where
  "irq_ok irq \<longleftrightarrow> (\<forall>s s'. threads_ok s \<longrightarrow> irq s = Some s' \<longrightarrow>
     threads_ok s' \<and> curthread s' = curthread s \<and> curspl s' = curspl s)"

lemma irq_ok_wakeup: "irq_ok (thread_wakeup m addr)"
  using thread_wakeup_preserves by (auto simp: irq_ok_def)

lemma idle_loop_preserves:
  "idle_loop irqs s = Some s' \<Longrightarrow> \<forall>irq \<in> set irqs. irq_ok irq \<Longrightarrow> threads_ok s \<Longrightarrow>
     threads_ok s' \<and> curthread s' = curthread s \<and> curspl s' = curspl s \<and> runq s' \<noteq> []"
proof (induction irqs s rule: idle_loop.induct)
  case (1 s)
  then show ?case
    by (auto simp: threads_ok_def sched_defs ring.empty_iff split: bind_splits if_splits)
next
  case (2 irq irqs s)
  obtain q where q: "runqueue s = Some q" "queue_ok q" "runq s = q_list q" using "2.prems"(3) by (rule threads_okD)
  show ?case
  proof (cases "q_empty q")
    case False
    then show ?thesis using "2.prems" q by (simp add: ring.empty_iff)
  next
    case True
    then obtain s1 where s1: "irq s = Some s1" "idle_loop irqs s1 = Some s'"
      using "2.prems" q by (auto split: bind_splits)
    then have "threads_ok s1 \<and> curthread s1 = curthread s \<and> curspl s1 = curspl s"
      using "2.prems" unfolding irq_ok_def by (meson list.set_intros(1))
    then show ?thesis using "2.IH" [OF q(1) True s1] "2.prems" by simp
  qed
qed

lemma scheduler_preserves:
  assumes "scheduler irqs s = Some (b, s')" "\<forall>irq \<in> set irqs. irq_ok irq" "threads_ok s" "curthread s = None"
  shows "threads_ok (s'\<lparr>curthread := Some b\<rparr>) \<and> curspl s' = curspl s"
proof -
  obtain s1 q q' where s1: "idle_loop irqs s = Some s1" "runqueue s1 = Some q" "q_remhead q = Some (b, q')"
    "s' = s1\<lparr>runqueue := Some q'\<rparr>"
    using assms(1) by (auto simp: scheduler_def split: bind_splits)
  have p: "threads_ok s1" "curthread s1 = None" "curspl s1 = curspl s" "runq s1 \<noteq> []"
    using idle_loop_preserves [OF s1(1) assms(2,3)] assms(4) by auto
  have q: "queue_ok q" "runq s1 = q_list q" "runq_room s1 = q_room q"
    using p(1) s1(2) by (auto simp: threads_ok_def sched_defs)
  then obtain x xs where xs: "q_list q = x # xs" using p(4) by (cases "q_list q") auto
  then have "x = b" "queue_ok q'" "q_room q' = Suc (q_room q)" "q_list q' = xs"
    using ring.rem_Cons [OF q(1) xs] s1(3) by auto
  then show ?thesis using threads_ok_pick [OF p(1,2), of b xs q'] q xs s1(4) p(3) by simp
qed

lemma mi_switch_cases:
  assumes "mi_switch irqs m st s = Some s'" "curthread s = Some a"
  obtains s1 nxt s2 where
    "(st = S_READY \<and> make_runnable m a (s\<lparr>curthread := None\<rparr>) = Some (Inr (), s1)) \<or>
     (st = S_SLEEP \<and> (\<exists>sl sl'. sleepers s = Some sl \<and> array_add m sl a = Some (Inr (), sl') \<and>
        s1 = s\<lparr>curthread := None, sleepers := Some sl'\<rparr>)) \<or>
     (st = S_ZOMB \<and> (\<exists>zo zo'. zombies s = Some zo \<and> array_add m zo a = Some (Inr (), zo') \<and>
        s1 = s\<lparr>curthread := None, zombies := Some zo'\<rparr>))"
    "scheduler irqs s1 = Some (nxt, s2)" "s' = emit Tlb_Flush (s2\<lparr>curthread := Some nxt\<rparr>)"
  using assms by (auto simp: mi_switch_def Let_def split: bind_splits if_splits)

lemma array_add_returns:
  assumes "array_add m a x = Some (Inr u, a')" "array_ok a" "arr_num a < 2 ^ 30 - 1"
  shows "array_ok a' \<and> array_guys a' = array_guys a @ [x] \<and> arr_max a \<le> arr_max a'"
  using array_add_ok [OF assms(2,3), of m x] array_add_max [OF assms(1,2)] assms(1) by auto

text \<open>For a thread that is about to die the count was lowered already: \<open>dying\<close> is the state before.\<close>

lemma mi_switch_preserves:
  assumes ret: "mi_switch irqs m st s = Some s'" and irqs: "\<forall>irq \<in> set irqs. irq_ok irq"
    and ok: "threads_ok s" and cur: "curthread s = Some a" and st: "st = S_READY \<or> st = S_SLEEP"
  shows "threads_ok s' \<and> curthread s' \<noteq> None \<and> curspl s' = curspl s"
proof -
  from ret cur obtain s1 nxt s2 where
    c: "(st = S_READY \<and> make_runnable m a (s\<lparr>curthread := None\<rparr>) = Some (Inr (), s1)) \<or>
     (st = S_SLEEP \<and> (\<exists>sl sl'. sleepers s = Some sl \<and> array_add m sl a = Some (Inr (), sl') \<and>
        s1 = s\<lparr>curthread := None, sleepers := Some sl'\<rparr>)) \<or>
     (st = S_ZOMB \<and> (\<exists>zo zo'. zombies s = Some zo \<and> array_add m zo a = Some (Inr (), zo') \<and>
        s1 = s\<lparr>curthread := None, zombies := Some zo'\<rparr>))"
    and sch: "scheduler irqs s1 = Some (nxt, s2)" and s': "s' = emit Tlb_Flush (s2\<lparr>curthread := Some nxt\<rparr>)"
    by (rule mi_switch_cases)
  obtain q sl where q: "runqueue s = Some q" "queue_ok q" and sl: "sleepers s = Some sl" "array_ok sl"
    "sleep_list s = array_guys sl" using ok by (rule threads_okD)
  have "threads_ok s1 \<and> curthread s1 = None \<and> curspl s1 = curspl s"
  proof (cases "st = S_READY")
    case True
    then have "make_runnable m a (s\<lparr>curthread := None\<rparr>) = Some (Inr (), s1)" using c by simp
    from make_runnable_returns [OF this _ q(2) threads_ok_bounds [OF ok q(1)]] q(1) obtain q' where
      "s1 = s\<lparr>curthread := None, runqueue := Some q'\<rparr>" "queue_ok q'" "q_list q' = q_list q @ [a]"
      "q_room q + q_count q \<le> q_room q' + q_count q'" "q_room q' + q_count q' < 2 ^ 28" by auto
    then show ?thesis using threads_ok_ready_enq [OF ok cur q(1)] by simp
  next
    case False
    then obtain sl' where sl': "array_add m sl a = Some (Inr (), sl')" "s1 = s\<lparr>curthread := None, sleepers := Some sl'\<rparr>"
      using c st sl(1) by auto
    have "arr_num sl = int (length (sleep_list s))" using array_ok_num [OF sl(2)] sl(3) by (simp add: array_getnum_def)
    then have "arr_num sl < 2 ^ 30 - 1" using ok by (auto simp: threads_ok_def counts_ok_def)
    from array_add_returns [OF sl'(1) sl(2) this] show ?thesis
      using threads_ok_sleep_enq [OF ok cur sl(1)] sl'(2) by simp
  qed
  then show ?thesis using scheduler_preserves [OF sch irqs] s' by auto
qed

lemma mi_switch_zombie_preserves:
  assumes ret: "mi_switch irqs m S_ZOMB (s\<lparr>numthreads := numthreads s - 1\<rparr>) = Some s'"
    and irqs: "\<forall>irq \<in> set irqs. irq_ok irq" and ok: "threads_ok s" and cur: "curthread s = Some a"
    and t: "thr s a = Some t" "t_vmspace t = None" "t_cwd t = None" and dead: "length (zombie_list s) < 2 ^ 29"
  shows "threads_ok s' \<and> curthread s' \<noteq> None \<and> curspl s' = curspl s"
proof -
  obtain zo where zo: "zombies s = Some zo" "array_ok zo" "zombie_list s = array_guys zo" using ok by (rule threads_okD)
  obtain s1 nxt s2 where c: "\<exists>zo'. array_add m zo a = Some (Inr (), zo') \<and>
      s1 = s\<lparr>numthreads := numthreads s - 1, curthread := None, zombies := Some zo'\<rparr>"
      "scheduler irqs s1 = Some (nxt, s2)" "s' = emit Tlb_Flush (s2\<lparr>curthread := Some nxt\<rparr>)"
    by (rule mi_switch_cases [OF ret, of a]) (use cur zo(1) in auto)
  then obtain zo' where
    zo': "array_add m zo a = Some (Inr (), zo')"
    and sch: "scheduler irqs (s\<lparr>numthreads := numthreads s - 1, curthread := None, zombies := Some zo'\<rparr>) = Some (nxt, s2)"
    and s': "s' = emit Tlb_Flush (s2\<lparr>curthread := Some nxt\<rparr>)" by auto
  have "arr_num zo = int (length (zombie_list s))" using array_ok_num [OF zo(2)] zo(3) by (simp add: array_getnum_def)
  then have "arr_num zo < 2 ^ 30 - 1" using dead by simp
  from array_add_returns [OF zo'(1) zo(2) this] have
    "threads_ok (s\<lparr>numthreads := numthreads s - 1, curthread := None, zombies := Some zo'\<rparr>)"
    using threads_ok_zombie_enq [OF ok cur zo(1) t] by simp
  then show ?thesis using scheduler_preserves [OF sch irqs] s' by auto
qed

lemma live_okD: "live_ok h a \<Longrightarrow> h a = Some t \<Longrightarrow> magic_ok (t_stack t)"
  by (simp add: live_ok_def)

lemma threads_ok_thr:
  assumes "threads_ok s" "thr s a = Some t" "t_stack t' = t_stack t"
    and "a \<in> set (zombie_list s) \<Longrightarrow> t_vmspace t' = None \<and> t_cwd t' = None"
  shows "threads_ok (s\<lparr>thr := (thr s)(a \<mapsto> t')\<rparr>)"
proof -
  have "lists_ok c r l d (h(a \<mapsto> t'))" if "lists_ok c r l d h" "h a = Some t"
    "a \<in> set d \<Longrightarrow> t_vmspace t' = None \<and> t_cwd t' = None" for c r l d h
    using that assms(3) live_okD [of h a t] by (auto simp: lists_ok_def)
  moreover have "counts_ok (s\<lparr>thr := (thr s)(a \<mapsto> t')\<rparr>) = counts_ok s" by (simp add: counts_ok_def)
  ultimately show ?thesis using assms by (simp add: threads_ok_def)
qed

lemma threads_ok_cur_notin:
  "threads_ok s \<Longrightarrow> curthread s = Some a \<Longrightarrow> a \<notin> set (zombie_list s)"
  by (auto simp: threads_ok_def lists_ok_def cur_list_def)

lemma thread_exit_preserves:
  assumes ret: "thread_exit irqs m s = Some s'" and irqs: "\<forall>irq \<in> set irqs. irq_ok irq"
    and ok: "threads_ok s" and dead: "length (zombie_list s) < 2 ^ 29"
  shows "threads_ok s' \<and> curthread s' \<noteq> None \<and> curspl s' = spl_high"
proof -
  obtain a t where a: "curthread s = Some a" "thr s a = Some t"
    using ret by (auto simp: thread_exit_def split: bind_splits)
  note nz = threads_ok_cur_notin [OF ok a(1)]
  let ?t = "t\<lparr>t_vmspace := None, t_cwd := None\<rparr>"
  obtain s3 where s3: "mi_switch irqs m S_ZOMB (s3\<lparr>numthreads := numthreads s3 - 1\<rparr>) = Some s'"
    "threads_ok s3" "curthread s3 = Some a" "thr s3 a = Some ?t" "curspl s3 = spl_high"
    "zombie_list s3 = zombie_list s"
  proof -
    let ?s1 = "s\<lparr>curspl := spl_high\<rparr>"
    define s2 where "s2 = (case t_vmspace t of None \<Rightarrow> ?s1
        | Some vm \<Rightarrow> emit (As_Destroy vm) (?s1\<lparr>thr := (thr ?s1)(a \<mapsto> t\<lparr>t_vmspace := None\<rparr>)\<rparr>))"
    let ?s3 = "case t_cwd t of None \<Rightarrow> s2 | Some v \<Rightarrow> (emit (Vop_Decref v) s2)\<lparr>thr := (thr s2)(a \<mapsto> ?t)\<rparr>"
    have ok2: "threads_ok s2" using ok nz a(2) threads_ok_thr [of ?s1 a t "t\<lparr>t_vmspace := None\<rparr>"]
      by (auto simp: s2_def split: option.splits)
    have t2: "thr s2 a = Some (t\<lparr>t_vmspace := None\<rparr>)" using a(2) by (auto simp: s2_def split: option.splits)
    have s2: "zombie_list s2 = zombie_list s" "curthread s2 = Some a" "curspl s2 = spl_high"
      using a by (auto simp: s2_def split: option.splits)
    have "threads_ok ?s3" "thr ?s3 a = Some ?t"
      using ok2 t2 s2 nz threads_ok_thr [of "emit _ s2" a "t\<lparr>t_vmspace := None\<rparr>" ?t]
      by (auto split: option.splits)
    moreover have "mi_switch irqs m S_ZOMB (?s3\<lparr>numthreads := numthreads ?s3 - 1\<rparr>) = Some s'"
      using ret a unfolding thread_exit_def splhigh_def splx_def Let_def s2_def snd_conv by (auto split: bind_splits)
    moreover have "curthread ?s3 = Some a" "curspl ?s3 = spl_high" "zombie_list ?s3 = zombie_list s"
      using s2 by (auto split: option.splits)
    ultimately show thesis by (intro that)
  qed
  then show ?thesis using mi_switch_zombie_preserves [OF s3(1) irqs s3(2,3,4)] dead by simp
qed

section \<open>Disposal of dead threads\<close>

lemma exorcise_loop_spec:
  assumes "zombies s = Some zo" "array_ok zo" "array_guys zo = pre @ rest" "distinct rest"
    and "\<forall>a \<in> set rest. dead_ok (thr s) a \<and> curthread s \<noteq> Some a"
  shows "exorcise_loop (int (length pre)) s = Some (s\<lparr>thr := thr s |` (- set rest)\<rparr>)"
  using assms
proof (induction rest arbitrary: pre s)
  case Nil
  moreover have "thr s |` UNIV = thr s" by (simp add: restrict_map_def)
  ultimately show ?case by (subst exorcise_loop.simps) (simp add: array_ok_num)
next
  case (Cons a rest)
  let ?s1 = "s\<lparr>thr := (thr s)(a := None)\<rparr>"
  have num: "int (length pre) < array_getnum zo" using Cons.prems(2,3) by (simp add: array_ok_num)
  have get: "array_getguy zo (int (length pre)) = Some a"
    using array_getguy_ok [OF Cons.prems(2) _ num] Cons.prems(3) by simp
  have "thread_destroy a s = Some ?s1"
    using Cons.prems(5) by (auto simp: thread_destroy_def dead_ok_def split: option.splits)
  moreover have "Some a \<noteq> curthread s" using Cons.prems(5) by auto
  ultimately have "exorcise_loop (int (length pre)) s = exorcise_loop (int (length (pre @ [a]))) ?s1"
    using Cons.prems(1,5) num get by (subst exorcise_loop.simps) (simp add: add.commute)
  also have "\<dots> = Some (?s1\<lparr>thr := thr ?s1 |` (- set rest)\<rparr>)"
    using Cons.prems by (intro Cons.IH) (auto simp del: fun_upd_apply)
  also have "thr ?s1 |` (- set rest) = thr s |` (- set (a # rest))"
    by (auto simp: restrict_map_def)
  finally show ?case by simp
qed

lemma array_setsize_zero:
  assumes "array_ok a"
  shows "\<exists>a'. array_setsize m a 0 = Some (Inr (), a') \<and> array_ok a' \<and> array_guys a' = []"
  using assms by (auto simp: array_setsize_def array_ok_def array_guys_def arr_cells_def split: option.splits)

lemma exorcise_spec:
  assumes ok: "threads_ok s" and spl: "0 < curspl s"
  shows "\<exists>zo'. exorcise s = Some (s\<lparr>thr := thr s |` (- set (zombie_list s)), zombies := Some zo'\<rparr>) \<and>
    array_guys zo' = [] \<and> threads_ok (s\<lparr>thr := thr s |` (- set (zombie_list s)), zombies := Some zo'\<rparr>)"
proof -
  obtain zo where zo: "zombies s = Some zo" "array_ok zo" "zombie_list s = array_guys zo" using ok by (rule threads_okD)
  let ?s1 = "s\<lparr>thr := thr s |` (- set (zombie_list s))\<rparr>"
  have l: "lists_ok (cur_list s) (runq s) (sleep_list s) (zombie_list s) (thr s)" using ok by (simp add: threads_ok_def)
  have "\<forall>a \<in> set (array_guys zo). dead_ok (thr s) a \<and> curthread s \<noteq> Some a"
    using l zo(3) by (auto simp: lists_ok_def cur_list_def)
  then have loop: "exorcise_loop 0 s = Some ?s1"
    using exorcise_loop_spec [OF zo(1,2), of "[]" "array_guys zo"] l zo(3) by (simp add: lists_ok_def)
  obtain zo' where zo': "array_setsize False zo 0 = Some (Inr (), zo')" "array_ok zo'" "array_guys zo' = []"
    using array_setsize_zero [OF zo(2)] by blast
  have live: "live_ok (h |` (- D)) a = live_ok h a" if "a \<notin> D" for h D and a :: nat
    using that by (simp add: live_ok_def)
  have "lists_ok (cur_list s) (runq s) (sleep_list s) [] (thr s |` (- set (zombie_list s)))"
    using l by (auto simp: lists_ok_def disjoint_iff live)
  moreover have "counts_ok (?s1\<lparr>zombies := Some zo'\<rparr>) = counts_ok s" by (simp add: counts_ok_def)
  ultimately have "threads_ok (?s1\<lparr>zombies := Some zo'\<rparr>)"
    using ok zo' by (simp add: threads_ok_def) (simp add: zombie_list_def)
  moreover have "exorcise s = Some (?s1\<lparr>zombies := Some zo'\<rparr>)"
    using spl loop zo zo' by (simp add: exorcise_def)
  ultimately show ?thesis using zo'(3) by auto
qed

lemma mi_switch_resume_spec:
  assumes ok: "threads_ok s" and spl: "0 < curspl s" and cur: "curthread s = Some a"
  shows "\<exists>s'. mi_switch_resume s = Some s' \<and> threads_ok s' \<and> zombie_list s' = [] \<and> curthread s' = Some a \<and>
    runq s' = runq s \<and> sleep_list s' = sleep_list s \<and> curspl s' = curspl s \<and>
    thr s' = thr s |` (- set (zombie_list s)) \<and> numthreads s' = numthreads s"
proof -
  obtain zo' where e: "exorcise s = Some (s\<lparr>thr := thr s |` (- set (zombie_list s)), zombies := Some zo'\<rparr>)"
    "array_guys zo' = []" "threads_ok (s\<lparr>thr := thr s |` (- set (zombie_list s)), zombies := Some zo'\<rparr>)"
    using exorcise_spec [OF ok spl] by blast
  obtain t where t: "(thr s |` (- set (zombie_list s))) a = Some t" using e(3) cur by (auto elim: threads_ok_cur)
  let ?s1 = "s\<lparr>thr := thr s |` (- set (zombie_list s)), zombies := Some zo'\<rparr>"
  have "mi_switch_resume s = Some (case t_vmspace t of None \<Rightarrow> ?s1 | Some vm \<Rightarrow> emit (As_Activate vm) ?s1)"
    using e(1) cur t by (simp add: mi_switch_resume_def)
  then show ?thesis using e cur by (cases "t_vmspace t") (simp_all add: zombie_list_def)
qed

section \<open>Forking\<close>

lemma scheduler_preallocate_spec:
  assumes "runqueue s = Some q" "queue_ok q" "0 < curspl s" "n \<le> 2 ^ 29"
  shows "\<exists>r q'. scheduler_preallocate m n s = Some (r, s\<lparr>runqueue := Some q'\<rparr>) \<and> queue_ok q' \<and>
    q_list q' = q_list q \<and> q_size q \<le> q_size q' \<and> q_size q' \<le> max (q_size q) (2 * n) \<and>
    (if r = Inr () then n \<le> q_size q' else r = Inl ENOMEM \<and> q' = q)"
proof -
  obtain r q' where "q_preallocate m q n = Some (r, q')" "queue_ok q'" "q_list q' = q_list q"
    "q_size q \<le> q_size q'" "q_size q' \<le> max (q_size q) (2 * n)"
    "if r = Inr () then n \<le> q_size q' else \<not> m \<and> r = Inl ENOMEM \<and> q' = q"
    using q_preallocate_spec [OF assms(2,4), of m] by blast
  then show ?thesis using assms by (intro exI [of _ r] exI [of _ q']) (simp add: scheduler_preallocate_def)
qed

text \<open>Enlarging the reservations keeps the invariant, and so does adding a thread that has room.\<close>

lemma threads_ok_reserve:
  assumes "threads_ok s" "sleepers s = Some sl" "runqueue s = Some q"
    and "array_ok sl'" "array_guys sl' = array_guys sl" "arr_max sl \<le> arr_max sl'"
    and "array_ok zo'" "array_guys zo' = zombie_list s"
    and "queue_ok q'" "q_list q' = q_list q" "q_size q \<le> q_size q'" "q_size q' \<le> 2 ^ 28"
  shows "threads_ok (s\<lparr>sleepers := Some sl', zombies := Some zo', runqueue := Some q'\<rparr>)"
proof -
  have q: "runq s = q_list q" "runq_room s = q_room q" "queue_ok q" using assms(1,3) by (simp_all add: threads_ok_def sched_defs)
  have "q_count q' = q_count q" using assms(10) by (metis q_list_length)
  then have "q_room q \<le> q_room q'" "q_room q' + q_count q < 2 ^ 28"
    using queue_capacity [OF q(3)] queue_capacity [OF assms(9)] assms(11,12) by auto
  then show ?thesis using assms q by (auto simp: threads_ok_def counts_ok_def lists_ok_def thread_lists)
qed

lemma threads_ok_add_ready:
  assumes "threads_ok s" "runqueue s = Some q" "live_ok (thr s) a"
    and "a \<notin> set (cur_list s @ runq s @ sleep_list s @ zombie_list s)"
    and "queue_ok q'" "q_list q' = q_list q @ [a]" "q_room q = Suc (q_room q')"
    and "numthreads s + 1 \<le> int (q_size q)" "numthreads s + 1 < 2 ^ 27"
    and "\<And>sl. sleepers s = Some sl \<Longrightarrow> numthreads s + 1 \<le> arr_max sl"
  shows "threads_ok (s\<lparr>runqueue := Some q', numthreads := numthreads s + 1\<rparr>)"
proof -
  have q: "runq s = q_list q" "runq_room s = q_room q" "queue_ok q"
    using assms(1,2) by (simp_all add: threads_ok_def sched_defs)
  moreover have "q_count q' = Suc (q_count q)" using assms(6) by (metis length_append_singleton q_list_length)
  moreover have "q_room q + q_count q + 1 = q_size q" by (rule queue_capacity [OF q(3)])
  ultimately show ?thesis using assms by (auto simp: threads_ok_def counts_ok_def lists_ok_def)
qed

text \<open>
  The end of a fork: it always returns; the only failure is a reservation without memory, and then
  no list changed.
\<close>

lemma fork_enqueue_spec:
  assumes ok: "threads_ok s" and cur: "curthread s = Some c" and spl: "0 < curspl s"
    and lim: "numthreads s + 1 < 2 ^ 27" and dead: "length (zombie_list s) < 2 ^ 29" and live: "live_ok (thr s) a"
    and new: "a \<notin> set (cur_list s @ runq s @ sleep_list s @ zombie_list s)"
  shows "\<exists>r s'. fork_enqueue mem a s = Some (r, s') \<and> threads_ok s' \<and> thr s' = thr s \<and> curthread s' = Some c \<and>
    curspl s' = curspl s \<and> sleep_list s' = sleep_list s \<and> zombie_list s' = zombie_list s \<and>
    effects s' = effects s \<and>
    (r = Inl ENOMEM \<and> runq s' = runq s \<and> numthreads s' = numthreads s \<or>
     r = Inr () \<and> runq s' = runq s @ [a] \<and> numthreads s' = numthreads s + 1)"
proof -
  obtain m1 m2 m3 m4 where mem: "mem = (m1, m2, m3, m4)" by (cases mem)
  obtain q sl zo where q: "runqueue s = Some q" "queue_ok q" "runq s = q_list q" "runq_room s = q_room q"
    and sl: "sleepers s = Some sl" "array_ok sl" "sleep_list s = array_guys sl"
    and zo: "zombies s = Some zo" "array_ok zo" "zombie_list s = array_guys zo"
    using ok by (rule threads_okD)
  let ?n = "numthreads s + 1"
  have pos: "0 < ?n" "?n < 2 ^ 30" using ok lim by (auto simp: threads_ok_def counts_ok_def)
  obtain r1 sl' where sl': "array_preallocate m1 sl ?n = Some (r1, sl')" "array_ok sl'" "array_guys sl' = array_guys sl"
    "r1 = (if m1 then Inr () else Inl ENOMEM)" "m1 \<longrightarrow> ?n \<le> arr_max sl'" "arr_max sl \<le> arr_max sl'"
    using array_preallocate_ok [OF sl(2) pos(2), of m1] by blast
  obtain r2 zo' where zo': "array_preallocate m2 zo ?n = Some (r2, zo')" "array_ok zo'" "array_guys zo' = array_guys zo"
    "r2 = (if m2 then Inr () else Inl ENOMEM)"
    using array_preallocate_ok [OF zo(2) pos(2), of m2] by blast
  let ?s2 = "s\<lparr>sleepers := Some sl', zombies := Some zo'\<rparr>"
  have nn: "nat ?n \<le> 2 ^ 27" using lim by simp
  obtain r3 q3 where q3: "scheduler_preallocate m3 (nat ?n) ?s2 = Some (r3, ?s2\<lparr>runqueue := Some q3\<rparr>)" "queue_ok q3"
    "q_list q3 = q_list q" "q_size q \<le> q_size q3" "q_size q3 \<le> max (q_size q) (2 * nat ?n)"
    "if r3 = Inr () then nat ?n \<le> q_size q3 else r3 = Inl ENOMEM \<and> q3 = q"
    using scheduler_preallocate_spec [of ?s2 q "nat ?n" m3] q spl nn by auto
  let ?s3 = "?s2\<lparr>runqueue := Some q3\<rparr>"
  have szq: "q_size q \<le> 2 ^ 28" using threads_ok_bounds [OF ok q(1)] queue_capacity [OF q(2)] by simp
  have sz3: "q_size q3 \<le> 2 ^ 28" using q3(5) szq nn by simp
  note reserve = threads_ok_reserve [OF ok sl(1) q(1)]
  have upd: "s\<lparr>sleepers := Some sl, zombies := Some zo, runqueue := Some q\<rparr> = s"
    "s\<lparr>sleepers := Some sl', zombies := Some zo, runqueue := Some q\<rparr> = s\<lparr>sleepers := Some sl'\<rparr>"
    "s\<lparr>sleepers := Some sl', zombies := Some zo', runqueue := Some q\<rparr> = ?s2"
    using sl(1) zo(1) q(1) by simp_all
  have ok3: "threads_ok ?s3" using sl' zo' zo q3 sz3 by (intro reserve) auto
  have ok1: "threads_ok (s\<lparr>sleepers := Some sl'\<rparr>)"
    using reserve [of sl' zo q] sl' zo q szq unfolding upd by simp
  have ok2: "threads_ok ?s2" using reserve [of sl' zo' q] sl' zo' zo q szq unfolding upd by simp
  show ?thesis
  proof (cases "m1 \<and> m2 \<and> r3 = Inr ()")
    case False
    then show ?thesis
      using mem sl sl' zo zo' q3 ok1 ok2 ok3 cur q
      by (auto simp: fork_enqueue_def thread_lists Let_def)
  next
    case True
    then have big: "nat ?n \<le> q_size q3" "?n \<le> arr_max sl'" using q3(6) sl'(5) by auto
    have cnt: "numthreads s = 1 + int (q_count q) + int (length (sleep_list s))"
      using ok cur q by (simp add: threads_ok_def counts_ok_def cur_list_def)
    have "q_count q3 = q_count q" using q3(3) by (metis q_list_length)
    then have room: "0 < q_room q3" using queue_capacity [OF q3(2)] big(1) cnt by simp
    obtain q4 where q4: "make_runnable m4 a ?s3 = Some (Inr (), ?s3\<lparr>runqueue := Some q4\<rparr>)" "queue_ok q4"
      "q_list q4 = q_list q @ [a]" "q_room q4 = q_room q3 - 1"
      using make_runnable_ok [of ?s3 m4 a] q3 spl room by auto
    let ?s4 = "?s3\<lparr>runqueue := Some q4, numthreads := ?n\<rparr>"
    have "threads_ok ?s4"
      using threads_ok_add_ready [OF ok3, of q3 a q4] live new q3 q4 room big lim q sl' zo' zo sl
      by (simp add: thread_lists)
    moreover have "fork_enqueue mem a s = Some (Inr (), ?s4)"
      using mem True sl(1) zo(1) sl'(1,4) zo'(1,4) q3(1) q4(1) by (simp add: fork_enqueue_def)
    ultimately show ?thesis using q4(3) q(3) sl sl' zo zo' cur by (auto simp: thread_lists)
  qed
qed

lemma set_magic_ok:
  assumes "4 \<le> length st"
  shows "\<exists>st'. set_magic st = Some st' \<and> magic_ok (Some st')"
proof -
  obtain a b c d rest where "st = a # b # c # d # rest"
    using assms by (auto simp: Suc_le_length_iff numeral_eq_Suc)
  then show ?thesis by (simp add: set_magic_def magic_ok_def check_magic_def)
qed

lemma threads_ok_listed:
  "threads_ok s \<Longrightarrow> a \<in> set (cur_list s @ runq s @ sleep_list s @ zombie_list s) \<Longrightarrow> a \<in> dom (thr s)"
  unfolding threads_ok_def lists_ok_def live_ok_def dead_ok_def set_append by (force split: option.splits)

lemma threads_ok_thr_fresh:
  assumes "threads_ok s" "a \<notin> set (cur_list s @ runq s @ sleep_list s @ zombie_list s)"
  shows "threads_ok (s\<lparr>thr := (thr s)(a := x)\<rparr>)"
proof -
  have l: "live_ok (h(a := x)) b = live_ok h b" "dead_ok (h(a := x)) b = dead_ok h b" if "b \<noteq> a" for h b
    using that by (simp_all add: live_ok_def dead_ok_def)
  have "lists_ok c r sl d (h(a := x))" if h: "lists_ok c r sl d h" and n: "a \<notin> set (c @ r @ sl @ d)" for c r sl d h
  proof -
    have "b \<noteq> a" if "b \<in> set (c @ r @ sl @ d)" for b using that n by blast
    then show ?thesis using h l by (auto simp: lists_ok_def simp del: fun_upd_apply)
  qed
  moreover have "counts_ok (s\<lparr>thr := (thr s)(a := x)\<rparr>) = counts_ok s" by (simp add: counts_ok_def)
  ultimately show ?thesis using assms by (simp add: threads_ok_def del: fun_upd_apply)
qed

lemma drop_thread_simps [simp]:
  "drop_thread a (emit e s) = emit e (drop_thread a s)"
  "drop_thread a (s\<lparr>curspl := k\<rparr>) = (drop_thread a s)\<lparr>curspl := k\<rparr>"
  "curthread (drop_thread a s) = curthread s" "runq (drop_thread a s) = runq s"
  "sleep_list (drop_thread a s) = sleep_list s" "zombie_list (drop_thread a s) = zombie_list s"
  "numthreads (drop_thread a s) = numthreads s" "thr (drop_thread a s) = (thr s)(a := None)"
  by (simp_all add: drop_thread_def emit_def)

text \<open>
  \<^verbatim>\<open>thread_fork\<close> with a fresh structure and a stack always returns and keeps the invariant.  On
  success the new thread is at the end of the run queue; on failure no list changed, and the
  structure is gone again unless the process table was full.
\<close>

lemma thread_fork_spec:
  assumes ok: "threads_ok s" and cur: "curthread s = Some c" and lim: "numthreads s + 1 < 2 ^ 27"
    and dead: "length (zombie_list s) < 2 ^ 29" and env: "fe_thread env = Some a" "fe_name_ok env"
    and st: "fe_stack env = Some st" "4 \<le> length st" and fresh: "a \<notin> dom (thr s)"
  shows "\<exists>r s'. thread_fork env nm s = Some (r, s') \<and> threads_ok s' \<and> curthread s' = Some c \<and>
    curspl s' = curspl s \<and> sleep_list s' = sleep_list s \<and> zombie_list s' = zombie_list s \<and>
    (case r of
       Inr b \<Rightarrow> b = a \<and> runq s' = runq s @ [a] \<and> numthreads s' = numthreads s + 1
     | Inl e \<Rightarrow> runq s' = runq s \<and> numthreads s' = numthreads s \<and>
         (fe_pid env \<noteq> Inl e \<longrightarrow> e = ENOMEM \<and> thr s' = thr s))"
proof -
  have new: "a \<notin> set (cur_list s @ runq s @ sleep_list s @ zombie_list s)"
    using threads_ok_listed [OF ok] fresh by blast
  have ca: "c \<noteq> a" using new cur by (auto simp: cur_list_def)
  obtain st' where st': "set_magic st = Some st'" "magic_ok (Some st')" using set_magic_ok [OF st(2)] by blast
  obtain ct where ct: "thr s c = Some ct" using ok cur by (rule threads_ok_cur)
  define t0 where "t0 = \<lparr>t_name = nm, t_sleepaddr = None, t_stack = Some st',
    t_vmspace = None, t_cwd = t_cwd ct, t_pid = 0, t_pagedir = None\<rparr>"
  define s1 where "s1 = s\<lparr>thr := (thr s)(a \<mapsto> t0\<lparr>t_stack := None, t_cwd := None\<rparr>)\<rparr>"
  define s3 where "s3 = emit (Md_Initpcb a) (case t_cwd ct of None \<Rightarrow> s1 | Some v \<Rightarrow> emit (Vop_Incref v) s1)"
  have s3: "thr s3 = (thr s)(a \<mapsto> t0\<lparr>t_stack := None, t_cwd := None\<rparr>)"
    "curthread s3 = Some c" "curspl s3 = curspl s" "runq s3 = runq s" "cur_list s3 = cur_list s"
    "sleep_list s3 = sleep_list s" "zombie_list s3 = zombie_list s" "numthreads s3 = numthreads s"
    "threads_ok s3"
    using cur threads_ok_thr_fresh [OF ok new] by (auto simp: s3_def s1_def split: option.splits)
  have new3: "a \<notin> set (cur_list s3 @ runq s3 @ sleep_list s3 @ zombie_list s3)" using new s3 by simp
  have fork: "thread_fork env nm s = (case fe_pid env of
      Inl e \<Rightarrow> Some (Inl e, s3\<lparr>thr := (thr s3)(a \<mapsto> t0)\<rparr>)
    | Inr pid \<Rightarrow> do {
        let t3 = t0\<lparr>t_pid := pid, t_pagedir := fe_pagedir env\<rparr>;
        let (spl, s4) = splhigh (s3\<lparr>thr := (thr s3)(a \<mapsto> t3)\<rparr>);
        (r, s5) \<leftarrow> fork_enqueue (fe_mem env) a s4;
        let s6 = snd (splx spl s5);
        case r of
          Inr _ \<Rightarrow> Some (Inr a, s6)
        | Inl e \<Rightarrow> Some (Inl e, drop_thread a (case t_cwd t3 of None \<Rightarrow> s6 | Some v \<Rightarrow> emit (Vop_Decref v) s6))
      })"
    using env st st' cur ct ca
    by (cases "t_cwd ct"; cases "fe_pid env") (simp_all add: thread_fork_def thread_create_def t0_def s1_def s3_def)
  show ?thesis
  proof (cases "fe_pid env")
    case (Inl e)
    then show ?thesis using fork s3 threads_ok_thr_fresh [OF s3(9) new3] by simp
  next
    case (Inr pid)
    define s4 where "s4 = s3\<lparr>thr := (thr s3)(a \<mapsto> t0\<lparr>t_pid := pid, t_pagedir := fe_pagedir env\<rparr>), curspl := spl_high\<rparr>"
    have s4: "threads_ok s4" "curthread s4 = Some c" "curspl s4 = spl_high" "numthreads s4 = numthreads s"
      "runq s4 = runq s" "cur_list s4 = cur_list s" "sleep_list s4 = sleep_list s" "zombie_list s4 = zombie_list s"
      "live_ok (thr s4) a" "(thr s4)(a := None) = thr s"
      using s3 threads_ok_thr_fresh [OF s3(9) new3] st' fresh by (auto simp: s4_def t0_def)
    obtain r s5 where s5: "fork_enqueue (fe_mem env) a s4 = Some (r, s5)" "threads_ok s5" "thr s5 = thr s4"
      "curthread s5 = Some c" "sleep_list s5 = sleep_list s" "zombie_list s5 = zombie_list s"
      "r = Inl ENOMEM \<and> runq s5 = runq s \<and> numthreads s5 = numthreads s \<or>
       r = Inr () \<and> runq s5 = runq s @ [a] \<and> numthreads s5 = numthreads s + 1"
      using fork_enqueue_spec [OF s4(1,2) _ _ _ s4(9), of "fe_mem env"] s4 lim dead new
      by (auto simp: spl_high_def)
    have run: "thread_fork env nm s = (case r of
          Inr _ \<Rightarrow> Some (Inr a, s5\<lparr>curspl := curspl s\<rparr>)
        | Inl e \<Rightarrow> Some (Inl e, drop_thread a (case t_cwd t0 of None \<Rightarrow> s5\<lparr>curspl := curspl s\<rparr>
             | Some v \<Rightarrow> emit (Vop_Decref v) (s5\<lparr>curspl := curspl s\<rparr>))))"
      using fork Inr s5(1) s3(3) by (cases r) (simp_all add: splhigh_def splx_def s4_def [symmetric] Let_def)
    show ?thesis
    proof (cases r)
      case (Inr u)
      then show ?thesis using run s5 by simp
    next
      case (Inl e)
      then have new5: "a \<notin> set (cur_list s5 @ runq s5 @ sleep_list s5 @ zombie_list s5)"
        using s5 new cur by (simp add: cur_list_def)
      from threads_ok_thr_fresh [OF s5(2) new5, of None] have "threads_ok (drop_thread a s5)"
        by (simp add: drop_thread_def)
      then show ?thesis using run Inl s5 s4(10) \<open>fe_pid env = Inr pid\<close> by (cases "t_cwd t0") simp_all
    qed
  qed
qed

section \<open>The wake-up by the running thread\<close>

lemma thread_wakeup_spec:
  assumes "threads_ok s" and "0 < curspl s" and "curthread s = Some a" and "cv_wakeup_one_thread s \<noteq> 1"
  shows "\<exists>s'. thread_wakeup mem_ok addr s = Some s' \<and> threads_ok s' \<and> curthread s' = Some a \<and>
    runq s' = runq s @ filter (sleeps_on (thr s) addr) (sleep_list s) \<and>
    sleep_list s' = filter (\<lambda>b. \<not> sleeps_on (thr s) addr b) (sleep_list s) \<and> thr s' = thr s \<and>
    (\<exists>sl q. s' = s\<lparr>sleepers := sl, runqueue := q\<rparr>)"
proof -
  obtain sl where sl: "sleepers s = Some sl" "array_ok sl" "sleep_list s = array_guys sl" using assms(1) by (rule threads_okD)
  have c: "sched_ok s" "counts_ok s" using assms(1) by (auto simp: threads_ok_def)
  have dom: "set (sleep_list s) \<subseteq> dom (thr s)" using threads_ok_listed [OF assms(1)] by auto
  have "length (sleep_list s) \<le> runq_room s" using c(2) assms(3) by (simp add: counts_ok_def cur_list_def)
  then have room: "length (filter (sleeps_on (thr s) addr) (sleep_list s)) \<le> runq_room s"
    using le_trans length_filter_le by blast
  obtain sl' q' where r: "wakeup_loop mem_ok addr 0 s = Some (s\<lparr>sleepers := Some sl', runqueue := Some q'\<rparr>)"
    "array_guys sl' = filter (\<lambda>b. \<not> sleeps_on (thr s) addr b) (sleep_list s)"
    "q_list q' = runq s @ filter (sleeps_on (thr s) addr) (sleep_list s)"
    using wakeup_loop_all [OF sl(1,2), of "[]" "sleep_list s" addr mem_ok] sl(3) c(1) assms dom room by auto
  then have w: "thread_wakeup mem_ok addr s = Some (s\<lparr>sleepers := Some sl', runqueue := Some q'\<rparr>)"
    using assms(2) by (simp add: thread_wakeup_def)
  then show ?thesis using thread_wakeup_preserves [OF w assms(1)] r assms(3)
    by (intro exI [of _ "s\<lparr>sleepers := Some sl', runqueue := Some q'\<rparr>"]) (auto simp: sleep_list_def)
qed

end
