(* ===== verification/Thread_Props.thy ===== *)
theory Thread_Props
  imports Threads_Inv
begin

text \<open>
  Properties of the thread system.  \<open>tstep\<close> is the relation of one operation of the running thread
  (or of the interrupts taken meanwhile); every state reachable from the boot state satisfies the
  invariant.  The functional properties are the wake-up, the round robin, and the reservation
  made by the forks, which is one cell short for a yield.
\<close>

section \<open>Runs of the thread system\<close>

definition env_ok :: "fork_env \<Rightarrow> tsys \<Rightarrow> bool" where
  "env_ok env s \<longleftrightarrow> (\<forall>a. fe_thread env = Some a \<longrightarrow> a \<notin> dom (thr s)) \<and>
     (\<forall>st. fe_stack env = Some st \<longrightarrow> 4 \<le> length st)"

inductive tstep :: "tsys \<Rightarrow> tsys \<Rightarrow> bool" where
  fork: "env_ok env s \<Longrightarrow> numthreads s + 1 < 2 ^ 27 \<Longrightarrow> length (zombie_list s) < 2 ^ 29 \<Longrightarrow>
    thread_fork env nm s = Some (r, s') \<Longrightarrow> tstep s s'"
| yield: "\<forall>irq \<in> set irqs. irq_ok irq \<Longrightarrow> thread_yield irqs m s = Some (spl, s') \<Longrightarrow> tstep s s'"
| resume_yield: "0 < curspl s \<Longrightarrow> thread_yield_resume spl s = Some s' \<Longrightarrow> tstep s s'"
| sleep: "\<forall>irq \<in> set irqs. irq_ok irq \<Longrightarrow> thread_sleep irqs m addr s = Some s' \<Longrightarrow> tstep s s'"
| resume_sleep: "0 < curspl s \<Longrightarrow> thread_sleep_resume s = Some s' \<Longrightarrow> tstep s s'"
| wakeup: "thread_wakeup m addr s = Some s' \<Longrightarrow> tstep s s'"
| exit: "\<forall>irq \<in> set irqs. irq_ok irq \<Longrightarrow> length (zombie_list s) < 2 ^ 29 \<Longrightarrow>
    thread_exit irqs m s = Some s' \<Longrightarrow> tstep s s'"
| start: "mi_threadstart s = Some s' \<Longrightarrow> tstep s s'"

inductive treach :: "tsys \<Rightarrow> tsys \<Rightarrow> bool" where
  refl: "treach s s"
| step: "treach s s1 \<Longrightarrow> tstep s1 s2 \<Longrightarrow> treach s s2"

lemma thread_fork_preserves:
  assumes ret: "thread_fork env nm s = Some (r, s')" and env: "env_ok env s" and ok: "threads_ok s"
    and cur: "curthread s = Some c" and lim: "numthreads s + 1 < 2 ^ 27" "length (zombie_list s) < 2 ^ 29"
  shows "threads_ok s' \<and> curthread s' = Some c"
proof (cases "fe_thread env = None \<or> \<not> fe_name_ok env")
  case True
  then show ?thesis using ret ok cur by (auto simp: thread_fork_def thread_create_def split: option.splits if_splits)
next
  case False
  then obtain a where a: "fe_thread env = Some a" "fe_name_ok env" by auto
  then have fresh: "a \<notin> dom (thr s)" using env by (simp add: env_ok_def)
  show ?thesis
  proof (cases "fe_stack env")
    case None
    have "(thr s)(a := None) = thr s" using fresh by auto
    then have "s' = s" using ret a None by (auto simp: thread_fork_def thread_create_def drop_thread_def)
    then show ?thesis using ok cur by simp
  next
    case (Some st)
    then show ?thesis
      using thread_fork_spec [OF ok cur lim a Some _ fresh, of nm] env ret by (auto simp: env_ok_def)
  qed
qed

lemma thread_sleep_preserves:
  assumes ret: "thread_sleep irqs m addr s = Some s'" and irqs: "\<forall>irq \<in> set irqs. irq_ok irq"
    and ok: "threads_ok s" and cur: "curthread s = Some a"
  shows "threads_ok s' \<and> curthread s' \<noteq> None"
proof -
  obtain t where t: "thr s a = Some t" using ok cur by (rule threads_ok_cur)
  let ?s1 = "s\<lparr>thr := (thr s)(a \<mapsto> t\<lparr>t_sleepaddr := Some addr\<rparr>)\<rparr>"
  have "threads_ok ?s1"
    using threads_ok_thr [OF ok t] threads_ok_cur_notin [OF ok cur] by simp
  moreover have "mi_switch irqs m S_SLEEP ?s1 = Some s'"
    using ret cur t by (simp add: thread_sleep_def set_sleepaddr_def)
  ultimately show ?thesis using mi_switch_preserves [OF _ irqs] cur by auto
qed

lemma tstep_preserves:
  assumes "tstep s s'" and ok: "threads_ok s" and cur: "curthread s = Some c"
  shows "threads_ok s' \<and> curthread s' \<noteq> None"
  using assms(1)
proof cases
  case (fork env nm r)
  then show ?thesis using thread_fork_preserves ok cur by (metis option.distinct(1))
next
  case (yield irqs m spl)
  then have "mi_switch irqs m S_READY (s\<lparr>curspl := spl_high\<rparr>) = Some s'"
    by (auto simp: thread_yield_def splhigh_def splx_def split: bind_splits)
  from mi_switch_preserves [OF this yield(1)] show ?thesis using ok cur by auto
next
  case (resume_yield spl)
  then show ?thesis using mi_switch_resume_spec [OF ok resume_yield(1) cur]
    by (auto simp: thread_yield_resume_def splx_def)
next
  case (sleep irqs m addr)
  then show ?thesis using thread_sleep_preserves ok cur by metis
next
  case resume_sleep
  obtain s1 where s1: "mi_switch_resume s = Some s1" "threads_ok s1" "zombie_list s1 = []" "curthread s1 = Some c"
    using mi_switch_resume_spec [OF ok resume_sleep(1) cur] by blast
  then show ?thesis using resume_sleep(2) threads_ok_thr [OF s1(2)]
    by (auto simp: thread_sleep_resume_def set_sleepaddr_def split: bind_splits)
next
  case (wakeup m addr)
  then show ?thesis using thread_wakeup_preserves ok cur by auto
next
  case (exit irqs m)
  then show ?thesis using thread_exit_preserves ok by metis
next
  case start
  then show ?thesis using ok cur
    by (auto simp: mi_threadstart_def splx_def Let_def split: bind_splits option.splits)
qed

section \<open>Booting\<close>

text \<open>The thread system comes up, then the scheduler (as \<^verbatim>\<open>kern/main/main.c\<close> calls them).\<close>

definition boot_threads :: "nat \<Rightarrow> tsys \<Rightarrow> tsys outcome" where
  "boot_threads a s = do {
     (me, s1) \<leftarrow> thread_bootstrap True True (Some a) True s;
     scheduler_bootstrap True True s1
   }"

lemma boot_threads_ok:
  "\<exists>s'. boot_threads a s = Some s' \<and> threads_ok s' \<and> curthread s' = Some a \<and> numthreads s' = 1 \<and>
     dom (thr s') = insert a (dom (thr s)) \<and> zombie_list s' = []"
proof -
  define arr :: "nat karray" where "arr = \<lparr>arr_num = 0, arr_max = 0, arr_v = None\<rparr>"
  have arr: "array_create True = Some arr" "array_ok arr" "array_guys arr = []"
    by (simp_all add: arr_def array_create_def array_ok_def array_guys_def arr_cells_def)
  define t where "t = \<lparr>t_name = ''<boot/menu>'', t_sleepaddr = None, t_stack = None, t_vmspace = None,
    t_cwd = None, t_pid = 0, t_pagedir = None\<rparr>"
  define s1 where "s1 = s\<lparr>sleepers := Some arr, zombies := Some arr, thr := (thr s)(a \<mapsto> t),
    curthread := Some a, numthreads := 1\<rparr>"
  have tb: "thread_bootstrap True True (Some a) True s = Some (a, s1)"
    using arr(1) by (simp add: thread_bootstrap_def thread_create_def s1_def t_def)
  obtain q where q: "scheduler_bootstrap True True s1 = Some (s1\<lparr>runqueue := Some q\<rparr>)" "queue_ok q"
    "q_list q = []" "q_room q = 31"
    using scheduler_bootstrap_ok [of s1] by (auto simp: sched_defs)
  have "live_ok ((thr s)(a \<mapsto> t)) a" by (simp add: t_def magic_ok_def check_magic_def)
  then have "threads_ok (s1\<lparr>runqueue := Some q\<rparr>)" using q arr
    by (auto simp: threads_ok_def counts_ok_def lists_ok_def thread_lists s1_def)
  then show ?thesis using tb q arr by (simp add: boot_threads_def s1_def zombie_list_def)
qed

text \<open>C1. In every state the thread system can reach from boot, whatever the interleaving of forks,
  yields, sleeps, wake-ups and exits, every thread is on exactly one of the lists running, ready,
  asleep or dead, the thread count is the number of live threads, no thread structure is used after
  it was freed, and the space reserved by the forks is there.\<close>

theorem threads_invariant:
  assumes "boot_threads a s0 = Some s1" and "treach s1 s"
  shows "threads_ok s \<and> curthread s \<noteq> None"
  using assms(2,1)
proof (induction rule: treach.induct)
  case (refl s)
  then show ?case using boot_threads_ok [of a s0] by auto
next
  case (step s s1 s2)
  then show ?case using tstep_preserves by blast
qed

definition empty_sys :: tsys where
  "empty_sys = \<lparr>curspl = 15, runqueue = None, curthread = None, thr = Map.empty, sleepers = None,
     zombies = None, numthreads = 0, cv_wakeup_one_thread = 0, in_interrupt = 0, effects = []\<rparr>"

definition example_fork_env :: fork_env where
  "example_fork_env = \<lparr>fe_thread = Some 2, fe_name_ok = True, fe_stack = Some (replicate 4 0), fe_pid = Inr 3,
     fe_pagedir = Some 0, fe_mem = (True, True, True, True)\<rparr>"

theorem threads_invariant_witness:
  "\<exists>s1 r s. boot_threads 1 empty_sys = Some s1 \<and> thread_fork example_fork_env ''t'' s1 = Some (r, s) \<and>
     threads_ok s \<and> curthread s \<noteq> None"
proof -
  obtain s1 where s1: "boot_threads 1 empty_sys = Some s1" "threads_ok s1" "curthread s1 = Some 1" "numthreads s1 = 1"
    "dom (thr s1) = {1}" "zombie_list s1 = []"
    using boot_threads_ok [of 1 empty_sys] by (auto simp: empty_sys_def)
  obtain r s where s: "thread_fork example_fork_env ''t'' s1 = Some (r, s)"
    using thread_fork_spec [OF s1(2,3), of example_fork_env 2 "replicate 4 0" "''t''"] s1
    by (auto simp: example_fork_env_def)
  have "env_ok example_fork_env s1" using s1(5) by (simp add: env_ok_def example_fork_env_def)
  then have "tstep s1 s" using s s1 by (intro tstep.fork) auto
  then have "treach s1 s" using treach.refl treach.step by blast
  from threads_invariant [OF s1(1) this] s s1(1) show ?thesis by blast
qed

section \<open>Waking up\<close>

text \<open>C12. \<^verbatim>\<open>thread_wakeup(addr)\<close>, called by the running thread, never fails and never needs memory: when
  it is not restricted to one thread, exactly the threads sleeping on \<open>addr\<close> move to the end of the
  run queue, in the order they went to sleep, and all other sleepers stay in order.\<close>

theorem thread_wakeup_moves_sleepers:
  assumes "threads_ok s" and "0 < curspl s" and "curthread s = Some a" and "cv_wakeup_one_thread s \<noteq> 1"
  shows "\<exists>s'. thread_wakeup mem_ok addr s = Some s' \<and> threads_ok s' \<and> curthread s' = Some a \<and>
    runq s' = runq s @ filter (sleeps_on (thr s) addr) (sleep_list s) \<and>
    sleep_list s' = filter (\<lambda>b. \<not> sleeps_on (thr s) addr b) (sleep_list s) \<and> thr s' = thr s"
  using thread_wakeup_spec [OF assms, of mem_ok addr] by blast

definition example_thread :: "nat option \<Rightarrow> thread" where
  "example_thread addr = \<lparr>t_name = ''x'', t_sleepaddr = addr, t_stack = None, t_vmspace = None, t_cwd = None,
     t_pid = 1, t_pagedir = None\<rparr>"

text \<open>A state with thread 1 running, 2 ready, 3 and 4 asleep on the address 100.\<close>

definition example_sys :: tsys where
  "example_sys = \<lparr>curspl = 15,
     runqueue = Some \<lparr>q_size = 4, q_nextwrite = 1, q_nextread = 0, q_data = [Some 2, None, None, None]\<rparr>,
     curthread = Some 1,
     thr = [1 \<mapsto> example_thread None, 2 \<mapsto> example_thread None, 3 \<mapsto> example_thread (Some 100),
            4 \<mapsto> example_thread (Some 100)],
     sleepers = Some \<lparr>arr_num = 2, arr_max = 4, arr_v = Some [Some 3, Some 4, None, None]\<rparr>, zombies = Some (array_of [] 0),
     numthreads = 4, cv_wakeup_one_thread = 0, in_interrupt = 0, effects = []\<rparr>"

lemma example_sys_lists:
  "cur_list example_sys = [1]" "runq example_sys = [2]" "sleep_list example_sys = [3, 4]"
  "zombie_list example_sys = []" "runq_room example_sys = 2"
  by (simp_all add: example_sys_def thread_lists sched_defs q_list_def q_count_def ring_dist_def q_cell_def
      array_of_def array_guys_def arr_cells_def q_room_def)

lemma example_sys_ok: "threads_ok example_sys"
proof -
  have "sched_ok example_sys"
    by (simp add: example_sys_def sched_ok_def queue_ok_def q_count_def ring_dist_def q_cell_def)
  moreover have "array_ok \<lparr>arr_num = 2, arr_max = 4, arr_v = Some [Some 3, Some (4 :: nat), None, None]\<rparr>"
    "array_ok (array_of ([] :: nat list) 0)"
    by (simp_all add: array_ok_def array_of_def arr_cells_def)
  moreover have "lists_ok [1] [2] [3, 4] [] (thr example_sys)"
    by (simp add: lists_ok_def live_ok_def example_sys_def example_thread_def magic_ok_def check_magic_def)
  ultimately show ?thesis unfolding threads_ok_def counts_ok_def example_sys_lists
    by (simp add: example_sys_def)
qed

theorem thread_wakeup_moves_sleepers_witness:
  "\<exists>s'. thread_wakeup False 100 example_sys = Some s' \<and> runq s' = [2, 3, 4] \<and> sleep_list s' = []"
proof -
  have "sleeps_on (thr example_sys) 100 3" "sleeps_on (thr example_sys) 100 4"
    by (simp_all add: sleeps_on_def example_sys_def example_thread_def)
  moreover have "0 < curspl example_sys" "curthread example_sys = Some 1" "cv_wakeup_one_thread example_sys \<noteq> 1"
    by (simp_all add: example_sys_def)
  ultimately show ?thesis
    using thread_wakeup_moves_sleepers [OF example_sys_ok, of 1 False 100] example_sys_lists by auto
qed

section \<open>Round robin\<close>

text \<open>The processor's history under \<open>k\<close> yields, each returning to its caller before the next.\<close>

fun yields :: "nat \<Rightarrow> bool \<Rightarrow> tsys \<Rightarrow> tsys outcome" where
  "yields 0 mem_ok s = Some s"
| "yields (Suc k) mem_ok s = do {
     (spl, s1) \<leftarrow> thread_yield [] mem_ok s;
     s2 \<leftarrow> thread_yield_resume spl s1;
     yields k mem_ok s2
   }"

lemma yield_once:
  assumes ok: "threads_ok s" and cur: "curthread s = Some a"
  shows "\<exists>spl s1 s2. thread_yield [] True s = Some (spl, s1) \<and> thread_yield_resume spl s1 = Some s2 \<and>
    threads_ok s2 \<and> curthread s2 = Some (hd (runq s @ [a])) \<and> runq s2 = tl (runq s @ [a]) \<and>
    sleep_list s2 = sleep_list s"
proof -
  let ?s = "s\<lparr>curspl := spl_high\<rparr>"
  obtain q' where m: "mi_switch [] True S_READY ?s =
      Some (emit Tlb_Flush (?s\<lparr>runqueue := Some q', curthread := Some (hd (runq s @ [a]))\<rparr>))"
    "q_list q' = tl (runq s @ [a])" "threads_ok (?s\<lparr>runqueue := Some q', curthread := Some (hd (runq s @ [a]))\<rparr>)"
    using mi_switch_ready [of ?s a True "[]"] ok cur by (auto simp: spl_high_def)
  let ?s1 = "emit Tlb_Flush (?s\<lparr>runqueue := Some q', curthread := Some (hd (runq s @ [a]))\<rparr>)"
  have y: "thread_yield [] True s = Some (curspl s, ?s1)"
    using m ok by (auto simp: thread_yield_def splhigh_def splx_def threads_ok_def)
  have "threads_ok ?s1" "0 < curspl ?s1" "curthread ?s1 = Some (hd (runq s @ [a]))" using m by (simp_all add: spl_high_def)
  from mi_switch_resume_spec [OF this] obtain s2 where s2: "mi_switch_resume ?s1 = Some s2" "threads_ok s2"
    "curthread s2 = Some (hd (runq s @ [a]))" "runq s2 = tl (runq s @ [a])" "sleep_list s2 = sleep_list s"
    using m(2) by auto
  then have "thread_yield_resume (curspl s) ?s1 = Some (s2\<lparr>curspl := curspl s\<rparr>)"
    by (simp add: thread_yield_resume_def splx_def)
  then show ?thesis using y s2 by fastforce
qed

text \<open>C13. The scheduler is round robin: after \<open>k\<close> yields the running thread followed by the run queue is
  the initial sequence rotated \<open>k\<close> times, so the thread at distance \<open>k\<close> behind the running one runs
  after exactly \<open>k\<close> yields and no ready thread starves.\<close>

theorem yields_rotate:
  assumes "threads_ok s" and "curthread s = Some a"
  shows "\<exists>s'. yields k True s = Some s' \<and> threads_ok s' \<and>
    cur_list s' @ runq s' = rotate k (a # runq s) \<and> sleep_list s' = sleep_list s"
  using assms
proof (induction k arbitrary: s a)
  case 0
  then show ?case by (simp add: cur_list_def)
next
  case (Suc k)
  obtain spl s1 s2 where s2: "thread_yield [] True s = Some (spl, s1)" "thread_yield_resume spl s1 = Some s2"
    "threads_ok s2" "curthread s2 = Some (hd (runq s @ [a]))" "runq s2 = tl (runq s @ [a])"
    "sleep_list s2 = sleep_list s"
    using yield_once [OF Suc.prems] by blast
  have "hd (runq s @ [a]) # tl (runq s @ [a]) = rotate1 (a # runq s)" by simp
  then have "rotate k (hd (runq s @ [a]) # runq s2) = rotate (Suc k) (a # runq s)"
    unfolding s2(5) by (metis rotate1_rotate_swap rotate_Suc)
  then show ?case using Suc.IH [OF s2(3,4)] s2 by auto
qed

theorem yields_rotate_witness:
  "\<exists>s'. yields 3 True example_sys = Some s' \<and> cur_list s' @ runq s' = [2, 1]"
proof -
  have "curthread example_sys = Some 1" by (simp add: example_sys_def)
  from yields_rotate [OF example_sys_ok this, of 3] show ?thesis
    by (auto simp: example_sys_lists eval_nat_numeral)
qed

section \<open>The reservation of the run queue\<close>

text \<open>C19. The space a fork reserves does not cover a yield: when all threads are runnable and the ring
  has exactly as many cells as there are threads (which the reservation \<^verbatim>\<open>numthreads+1\<close> of the last fork
  allows, for example with 32 threads), a yield needs memory, and without memory the assertion in
  \<^verbatim>\<open>mi_switch\<close> stops the kernel.\<close>

theorem yield_without_memory_panics:
  assumes "threads_ok s" and "curthread s = Some a" and "sleep_list s = []"
    and "runqueue s = Some q" and "int (q_size q) = numthreads s"
  shows "thread_yield irqs False s = None"
proof -
  have q: "runq s = q_list q" "runq_room s = q_room q" "queue_ok q"
    using assms(1,4) by (simp_all add: threads_ok_def sched_defs)
  have "numthreads s = 1 + int (q_count q)" using assms q by (simp add: threads_ok_def counts_ok_def cur_list_def)
  then have "runq_room (s\<lparr>curspl := spl_high\<rparr>) = 0" using assms(5) queue_capacity [OF q(3)] q(2) by simp
  then have "mi_switch irqs False S_READY (s\<lparr>curspl := spl_high\<rparr>) = None"
    using mi_switch_ready_nomem [of "s\<lparr>curspl := spl_high\<rparr>" a irqs] assms by (simp add: spl_high_def)
  then show ?thesis by (simp add: thread_yield_def splhigh_def splx_def kassert_def)
qed

definition full_sys :: tsys where
  "full_sys = example_sys\<lparr>runqueue := Some \<lparr>q_size = 2, q_nextwrite = 1, q_nextread = 0, q_data = [Some 2, None]\<rparr>,
     sleepers := Some (array_of [] 4), numthreads := 2\<rparr>"

theorem yield_without_memory_panics_witness:
  "threads_ok full_sys \<and> thread_yield [] False full_sys = None"
proof -
  have lists: "cur_list full_sys = [1]" "runq full_sys = [2]" "sleep_list full_sys = []" "zombie_list full_sys = []"
    "runq_room full_sys = 0"
    by (simp_all add: full_sys_def example_sys_def thread_lists sched_defs q_list_def q_count_def ring_dist_def
        q_cell_def array_of_def array_guys_def arr_cells_def q_room_def)
  have "sched_ok full_sys"
    by (simp add: full_sys_def sched_ok_def queue_ok_def q_count_def ring_dist_def q_cell_def)
  moreover have "array_ok (array_of ([] :: nat list) 4)" "array_ok (array_of ([] :: nat list) 0)" "arr_max (array_of ([] :: nat list) 4) = 4"
    by (simp_all add: array_ok_def array_of_def arr_cells_def)
  moreover have "lists_ok [1] [2] [] [] (thr full_sys)"
    by (simp add: lists_ok_def live_ok_def full_sys_def example_sys_def example_thread_def magic_ok_def check_magic_def)
  ultimately have ok: "threads_ok full_sys" unfolding threads_ok_def counts_ok_def lists
    by (simp add: full_sys_def example_sys_def)
  have "thread_yield [] False full_sys = None"
    by (rule yield_without_memory_panics [OF ok, of 1 "\<lparr>q_size = 2, q_nextwrite = 1, q_nextread = 0, q_data = [Some 2, None]\<rparr>"])
      (simp_all add: lists(3), simp_all add: full_sys_def example_sys_def)
  with ok show ?thesis by simp
qed

end
