(* ===== verification/Synch_Inv.thy ===== *)
theory Synch_Inv
  imports Synch Thread_Props
begin

text \<open>
  The invariant of the synchronization primitives, and its preservation by every step.  Counts are
  related to the log of completed operations, and an object whose count is positive has no sleeper:
  no wake-up is lost.
\<close>

section \<open>Counting the log\<close>

fun net :: "nat \<Rightarrow> event list \<Rightarrow> int" where
  "net a [] = 0"
| "net a (Ev_P b t # l) = net a l - (if a = b then 1 else 0)"
| "net a (Ev_V b # l) = net a l + (if a = b then 1 else 0)"
| "net a (Ev_Acquire b t # l) = net a l - (if a = b then 1 else 0)"
| "net a (Ev_Release b t # l) = net a l + (if a = b then 1 else 0)"
| "net a (Ev_Pass b t # l) = net a l - (if a = b then 1 else 0)"
| "net a (Ev_Signal b # l) = net a l + (if a = b then 1 else 0)"

text \<open>How often waiters got past the loop of \<^verbatim>\<open>cv_wait\<close>, and how often the variable was signalled.\<close>

fun passes :: "nat \<Rightarrow> event list \<Rightarrow> nat" where
  "passes a [] = 0"
| "passes a (Ev_Pass b t # l) = passes a l + (if a = b then 1 else 0)"
| "passes a (e # l) = passes a l"

fun signals :: "nat \<Rightarrow> event list \<Rightarrow> nat" where
  "signals a [] = 0"
| "signals a (Ev_Signal b # l) = signals a l + (if a = b then 1 else 0)"
| "signals a (e # l) = signals a l"

text \<open>At every past moment the count of the lock was zero or one.\<close>

fun hist :: "(nat \<Rightarrow> int) \<Rightarrow> nat \<Rightarrow> event list \<Rightarrow> bool" where
  "hist init a [] \<longleftrightarrow> init a \<in> {0, 1}"
| "hist init a (e # l) \<longleftrightarrow> init a + net a (e # l) \<in> {0, 1} \<and> hist init a l"

definition about :: "event \<Rightarrow> nat" where
  "about e = (case e of Ev_P a t \<Rightarrow> a | Ev_V a \<Rightarrow> a | Ev_Acquire a t \<Rightarrow> a | Ev_Release a t \<Rightarrow> a
                      | Ev_Pass a t \<Rightarrow> a | Ev_Signal a \<Rightarrow> a)"

text \<open>Only lock events are logged for a lock.\<close>

fun lock_only :: "nat \<Rightarrow> event list \<Rightarrow> bool" where
  "lock_only a [] \<longleftrightarrow> True"
| "lock_only a (Ev_Acquire b t # l) \<longleftrightarrow> lock_only a l"
| "lock_only a (Ev_Release b t # l) \<longleftrightarrow> lock_only a l"
| "lock_only a (e # l) \<longleftrightarrow> about e \<noteq> a \<and> lock_only a l"

text \<open>\<open>quiet\<close>: nobody sleeps on the address.\<close>

definition quiet :: "ksys \<Rightarrow> nat \<Rightarrow> bool" where
  "quiet s a \<longleftrightarrow> (\<forall>b \<in> set (sleep_list s). \<not> sleeps_on (thr s) a b)"

definition obj_inv :: "(nat \<Rightarrow> int) \<Rightarrow> nat \<Rightarrow> kobj option \<Rightarrow> event list \<Rightarrow> bool \<Rightarrow> bool" where
  "obj_inv init a ob l q =
     (case ob of
        None \<Rightarrow> True
      | Some (Sem nm c) \<Rightarrow> 0 \<le> c \<and> c < 2 ^ 31 \<and> c = init a + net a l \<and> (0 < c \<longrightarrow> q)
      | Some (Lock nm c) \<Rightarrow> c = init a + net a l \<and> hist init a l \<and> lock_only a l \<and> c \<in> {0, 1} \<and> (0 < c \<longrightarrow> q)
      | Some (Cv nm f) \<Rightarrow> f \<in> {0, 1} \<and> f + int (passes a l) \<le> int (signals a l))"

definition synch_ok :: "(nat \<Rightarrow> int) \<Rightarrow> ksys \<Rightarrow> bool" where
  "synch_ok init s \<longleftrightarrow> threads_ok s \<and> cv_wakeup_one_thread s = 0 \<and>
     (\<forall>a. obj_inv init a (objs s a) (klog s) (quiet s a))"

lemma obj_inv_mono: "obj_inv init a ob l q \<Longrightarrow> (q \<Longrightarrow> q') \<Longrightarrow> obj_inv init a ob l q'"
  by (auto simp: obj_inv_def split: option.splits kobj.splits)

lemma net_other: "about e \<noteq> a \<Longrightarrow> net a (e # l) = net a l"
  by (cases e) (auto simp: about_def)

lemma hist_now: "hist init a l \<Longrightarrow> init a + net a l \<in> {0, 1}"
  by (cases l) auto

lemma lock_only_other: "about e \<noteq> a \<Longrightarrow> lock_only a (e # l) = lock_only a l"
  by (cases e) auto

lemma passes_other: "about e \<noteq> a \<Longrightarrow> passes a (e # l) = passes a l \<and> signals a (e # l) = signals a l"
  by (cases e) (auto simp: about_def)

lemma obj_inv_other: "about e \<noteq> a \<Longrightarrow> obj_inv init a ob l q \<Longrightarrow> obj_inv init a ob (e # l) q"
  by (auto simp: obj_inv_def net_other lock_only_other passes_other split: option.splits kobj.splits)

section \<open>What the invariant does not depend on\<close>

lemma quiet_upd [simp]:
  "quiet (s\<lparr>curspl := k\<rparr>) = quiet s" "quiet (s\<lparr>conts := c\<rparr>) = quiet s" "quiet (s\<lparr>klog := l\<rparr>) = quiet s"
  "quiet (s\<lparr>objs := obs\<rparr>) = quiet s" "quiet (s\<lparr>curthread := t\<rparr>) = quiet s"
  "quiet (s\<lparr>runqueue := q\<rparr>) = quiet s" "quiet (s\<lparr>effects := es\<rparr>) = quiet s"
  "quiet (s\<lparr>cv_wakeup_one_thread := n\<rparr>) = quiet s" "quiet (emit e s) = quiet s"
  by (simp_all add: quiet_def fun_eq_iff sleep_list_def emit_def)

lemma threads_ok_ext [simp]:
  fixes s :: ksys
  shows "threads_ok (s\<lparr>conts := c\<rparr>) = threads_ok s" "threads_ok (s\<lparr>klog := l\<rparr>) = threads_ok s"
    "threads_ok (s\<lparr>objs := obs\<rparr>) = threads_ok s" "threads_ok (s\<lparr>cv_wakeup_one_thread := n\<rparr>) = threads_ok s"
  by (simp_all add: threads_ok_def counts_ok_def thread_lists sched_defs)

lemma ksys_emit [simp]:
  fixes s :: ksys
  shows "objs (emit e s) = objs s" "klog (emit e s) = klog s" "conts (emit e s) = conts s"
  by (simp_all add: emit_def)

lemma synch_ok_spl [simp]: "synch_ok init (s\<lparr>curspl := k\<rparr>) = synch_ok init s"
  by (simp add: synch_ok_def)

lemma synch_ok_conts [simp]: "synch_ok init (s\<lparr>conts := c\<rparr>) = synch_ok init s"
  by (simp add: synch_ok_def)

lemma synch_ok_emit [simp]: "synch_ok init (emit e s) = synch_ok init s"
  by (simp add: synch_ok_def)

lemma synch_ok_splx_all [simp]: "synch_ok init (splx_all spls s) = synch_ok init s"
  unfolding splx_all_def by (induction spls arbitrary: s) (simp_all add: splx_def)

lemma splx_all_fields [simp]:
  "curthread (splx_all spls s) = curthread s" "klog (splx_all spls s) = klog s" "objs (splx_all spls s) = objs s"
  unfolding splx_all_def by (induction spls arbitrary: s) (simp_all add: splx_def)

text \<open>One object changes, with an event about it.\<close>

lemma synch_ok_set:
  assumes "synch_ok init s" "about e = a" "obj_inv init a (Some ob) (e # klog s) (quiet s a)"
  shows "synch_ok init (note_event e (set_obj a ob s))"
  using assms by (auto simp: synch_ok_def note_event_def set_obj_def intro: obj_inv_other)

lemma synch_ok_mono:
  assumes "synch_ok init s" "threads_ok s'" "objs s' = objs s" "klog s' = klog s"
    "cv_wakeup_one_thread s' = 0" "\<And>a. quiet s a \<Longrightarrow> quiet s' a"
  shows "synch_ok init s'"
  using assms by (auto simp: synch_ok_def intro: obj_inv_mono)

section \<open>Wake-up\<close>

lemma wakeup_loop_frame:
  "wakeup_loop m a i s = Some s' \<Longrightarrow> threads_ok s \<longrightarrow> 0 \<le> i \<longrightarrow>
     (\<exists>sl q. s' = s\<lparr>sleepers := sl, runqueue := q\<rparr>) \<and> set (sleep_list s') \<subseteq> set (sleep_list s) \<and>
     (cv_wakeup_one_thread s \<noteq> 1 \<longrightarrow> (\<forall>b \<in> set (take (nat i) (sleep_list s)). \<not> sleeps_on (thr s) a b) \<longrightarrow>
        (\<forall>b \<in> set (sleep_list s'). \<not> sleeps_on (thr s) a b))"
proof (induction rule: wakeup_loop.raw_induct [rotated, consumes 1, case_names step])
  case (step rec m a i s s')
  show ?case
  proof (intro impI)
    assume ok: "threads_ok s" and i: "0 \<le> i"
    from step.hyps ok i
    show "(\<exists>sl q. s' = s\<lparr>sleepers := sl, runqueue := q\<rparr>) \<and> set (sleep_list s') \<subseteq> set (sleep_list s) \<and>
     (cv_wakeup_one_thread s \<noteq> 1 \<longrightarrow> (\<forall>b \<in> set (take (nat i) (sleep_list s)). \<not> sleeps_on (thr s) a b) \<longrightarrow>
        (\<forall>b \<in> set (sleep_list s'). \<not> sleeps_on (thr s) a b))"
    proof (cases rule: wakeup_round)
      case stop
      have "\<exists>sl q. s' = s\<lparr>sleepers := sl, runqueue := q\<rparr>"
        by (rule exI [of _ "sleepers s"], rule exI [of _ "runqueue s"]) (simp add: stop(1))
      then show ?thesis using stop by simp
    next
      case miss
      have "take (nat (i + 1)) (sleep_list s) = take (nat i) (sleep_list s) @ [sleep_list s ! nat i]"
        using miss(1) i by (simp add: nat_add_distrib take_Suc_conv_app_nth)
      then show ?thesis using step.IH [OF miss(3)] ok i miss(2) by auto
    next
      case (hit s1 sl1 q1)
      have sub: "set (sleep_list s1) \<subseteq> set (sleep_list s)"
        using hit(4) set_take_subset set_drop_subset by fastforce
      have pre: "take (nat i) (sleep_list s1) = take (nat i) (sleep_list s)" using hit(1,4) by simp
      show ?thesis
      proof (cases "cv_wakeup_one_thread s = 1")
        case True
        then show ?thesis using hit sub by auto
      next
        case False
        then have "rec m a i s1 = Some s'" using hit(5) by simp
        from mp [OF mp [OF step.IH [OF this] hit(3)] i]
        have ih: "\<exists>sl q. s' = s1\<lparr>sleepers := sl, runqueue := q\<rparr>" "set (sleep_list s') \<subseteq> set (sleep_list s1)"
          "cv_wakeup_one_thread s1 \<noteq> 1 \<longrightarrow> (\<forall>b \<in> set (take (nat i) (sleep_list s1)). \<not> sleeps_on (thr s1) a b) \<longrightarrow>
            (\<forall>b \<in> set (sleep_list s'). \<not> sleeps_on (thr s1) a b)" by blast+
        have same: "thr s1 = thr s" "cv_wakeup_one_thread s1 = cv_wakeup_one_thread s" using hit(2) by simp_all
        have s': "set (sleep_list s') \<subseteq> set (sleep_list s1)"
          "(\<forall>b \<in> set (take (nat i) (sleep_list s)). \<not> sleeps_on (thr s) a b) \<longrightarrow>
           (\<forall>b \<in> set (sleep_list s'). \<not> sleeps_on (thr s) a b)"
          using ih(2,3) False unfolding same pre by blast+
        obtain sl q where "s' = s1\<lparr>sleepers := sl, runqueue := q\<rparr>" using ih(1) by blast
        then have "s' = s\<lparr>sleepers := sl, runqueue := q\<rparr>" using hit(2) by simp
        then show ?thesis using s' sub by blast
      qed
    qed
  qed
qed

lemma thread_wakeup_frame:
  assumes w: "thread_wakeup m a s = Some s'" and ok: "threads_ok s"
  shows "(\<exists>sl q. s' = s\<lparr>sleepers := sl, runqueue := q\<rparr>) \<and> set (sleep_list s') \<subseteq> set (sleep_list s) \<and>
    (cv_wakeup_one_thread s \<noteq> 1 \<longrightarrow> (\<forall>b \<in> set (sleep_list s'). \<not> sleeps_on (thr s) a b))"
  using wakeup_loop_frame [of m a 0 s s'] w ok by (simp add: thread_wakeup_def)

text \<open>
  A wake-up on \<open>a\<close>: the invariant holds afterwards if before it held but for the demand that nobody
  sleeps on \<open>a\<close>.
\<close>

lemma synch_ok_wakeup:
  assumes w: "thread_wakeup m a s = Some s'" and ok: "threads_ok s" and one: "cv_wakeup_one_thread s = 0"
    and inv: "\<And>b. obj_inv init b (objs s b) (klog s) (b = a \<or> quiet s b)"
  shows "synch_ok init s' \<and> curthread s' = curthread s \<and> curspl s' = curspl s \<and> klog s' = klog s \<and> conts s' = conts s"
proof -
  obtain sl q where s': "s' = s\<lparr>sleepers := sl, runqueue := q\<rparr>" and sub: "set (sleep_list s') \<subseteq> set (sleep_list s)"
    and none: "\<forall>b \<in> set (sleep_list s'). \<not> sleeps_on (thr s) a b"
    using thread_wakeup_frame [OF w ok] one by auto
  have "threads_ok s'" using thread_wakeup_preserves [OF w ok] by simp
  moreover have "quiet s' b" if "b = a \<or> quiet s b" for b
    using that none sub s' by (auto simp: quiet_def)
  ultimately show ?thesis using s' one inv by (auto simp: synch_ok_def intro: obj_inv_mono)
qed

section \<open>V, and the interrupts that perform it\<close>

lemma wrap32_pos: "0 \<le> c \<Longrightarrow> c < 2 ^ 31 \<Longrightarrow> 0 < wrap32 (c + 1) \<Longrightarrow> wrap32 (c + 1) = c + 1 \<and> c + 1 < 2 ^ 31"
  by (cases "c + 1 = 2 ^ 31") (auto simp: wrap32_def)

text \<open>Change an object, log it, wake everybody who sleeps on it.\<close>

lemma change_and_wake:
  assumes w: "thread_wakeup m a (note_event e (set_obj a ob (s\<lparr>curspl := k\<rparr>))) = Some s2"
    and inv: "synch_ok init s" and e: "about e = a" and ob: "obj_inv init a (Some ob) (e # klog s) True"
  shows "synch_ok init s2 \<and> curthread s2 = curthread s \<and> curspl s2 = k \<and> conts s2 = conts s"
proof -
  let ?s1 = "note_event e (set_obj a ob (s\<lparr>curspl := k\<rparr>))"
  have objs1: "obj_inv init b (objs ?s1 b) (klog ?s1) (b = a \<or> quiet ?s1 b)" for b
  proof (cases "b = a")
    case True
    then show ?thesis using ob by (simp add: note_event_def set_obj_def)
  next
    case False
    have "obj_inv init b (objs s b) (klog s) (quiet s b)" using inv by (simp add: synch_ok_def)
    then show ?thesis using False e obj_inv_other [of e b] by (simp add: note_event_def set_obj_def)
  qed
  have "threads_ok ?s1" "cv_wakeup_one_thread ?s1 = 0"
    using inv by (simp_all add: synch_ok_def note_event_def set_obj_def)
  from synch_ok_wakeup [OF w this objs1] show ?thesis by (simp add: note_event_def set_obj_def)
qed

lemma synch_obj: "synch_ok init s \<Longrightarrow> objs s a = Some ob \<Longrightarrow> obj_inv init a (Some ob) (klog s) (quiet s a)"
  by (metis synch_ok_def)

lemma V_preserves:
  assumes ret: "V m a s = Some s'" and inv: "synch_ok init s"
  shows "synch_ok init s' \<and> curthread s' = curthread s \<and> curspl s' = curspl s"
proof -
  obtain nm c where ob: "objs s a = Some (Sem nm c)" using ret by (auto simp: V_def split: option.splits kobj.splits)
  have c: "0 \<le> c" "c < 2 ^ 31" "c = init a + net a (klog s)"
    using synch_obj [OF inv ob] by (auto simp: obj_inv_def)
  obtain s2 where s2: "thread_wakeup m a (note_event (Ev_V a) (set_obj a (Sem nm (wrap32 (c + 1))) (s\<lparr>curspl := spl_high\<rparr>))) = Some s2"
    "0 < wrap32 (c + 1)" "s' = s2\<lparr>curspl := curspl s\<rparr>"
    using ret ob by (auto simp: V_def splhigh_def splx_def Let_def split: bind_splits)
  have "obj_inv init a (Some (Sem nm (wrap32 (c + 1)))) (Ev_V a # klog s) True"
    using wrap32_pos [OF c(1,2) s2(2)] c by (simp add: obj_inv_def)
  then show ?thesis using change_and_wake [OF s2(1) inv] s2(3) by (simp add: about_def)
qed

lemma irq_ok_V: "irq_ok (irq_V m a)"
proof -
  have "threads_ok s' \<and> curthread s' = curthread s \<and> curspl s' = curspl s"
    if "threads_ok s" and V: "V m a s = Some s'" for s s'
  proof -
    obtain e ob s2 where s2: "thread_wakeup m a (note_event e (set_obj a ob (s\<lparr>curspl := spl_high\<rparr>))) = Some s2"
      "s' = s2\<lparr>curspl := curspl s\<rparr>"
      using V by (auto simp: V_def splhigh_def splx_def Let_def split: bind_splits option.splits kobj.splits)
    then show ?thesis using thread_wakeup_preserves [OF s2(1)] that(1) by (simp add: note_event_def set_obj_def)
  qed
  then show ?thesis unfolding irq_ok_def irq_V_def by blast
qed

lemma idle_loop_inv:
  "idle_loop irqs s = Some s' \<Longrightarrow> (\<And>irq s s'. irq \<in> set irqs \<Longrightarrow> I s \<Longrightarrow> irq s = Some s' \<Longrightarrow> I s') \<Longrightarrow> I s \<Longrightarrow> I s'"
proof (induction irqs s rule: idle_loop.induct)
  case (1 s)
  then show ?case by (auto split: bind_splits if_splits)
next
  case (2 irq irqs s)
  obtain q where q: "runqueue s = Some q" using "2.prems"(1) by (auto split: bind_splits)
  show ?case
  proof (cases "q_empty q")
    case False
    then show ?thesis using "2.prems" q by simp
  next
    case True
    then obtain s1 where s1: "irq s = Some s1" "idle_loop irqs s1 = Some s'"
      using "2.prems"(1) q by (auto split: bind_splits)
    show ?thesis
    proof (rule "2.IH" [OF q True s1])
      show "I s1" using "2.prems"(2,3) s1(1) by (meson list.set_intros(1))
      show "\<And>irq s s'. irq \<in> set irqs \<Longrightarrow> I s \<Longrightarrow> irq s = Some s' \<Longrightarrow> I s'" using "2.prems"(2) by (meson list.set_intros(2))
    qed
  qed
qed

lemma scheduler_synch:
  assumes ret: "scheduler (map (irq_V m) vs) s = Some (b, s')" and inv: "synch_ok init s" and "curthread s = None"
  shows "synch_ok init (s'\<lparr>curthread := Some b\<rparr>)"
proof -
  obtain s1 q q' where s1: "idle_loop (map (irq_V m) vs) s = Some s1" "s' = s1\<lparr>runqueue := Some q'\<rparr>"
    using ret by (auto simp: scheduler_def split: bind_splits)
  have inv1: "synch_ok init s1 \<and> curthread s1 = None"
  proof (rule idle_loop_inv [OF s1(1)])
    fix irq and u u' :: ksys
    assume "irq \<in> set (map (irq_V m) vs)" and u: "synch_ok init u \<and> curthread u = None" and "irq u = Some u'"
    then obtain a where "V m a u = Some u'" by (auto simp: irq_V_def)
    from V_preserves [OF this, of init] u show "synch_ok init u' \<and> curthread u' = None" by simp
  qed (use inv assms(3) in simp)
  have "threads_ok (s'\<lparr>curthread := Some b\<rparr>)"
    using scheduler_preserves [OF ret] irq_ok_V inv assms(3) by (simp add: synch_ok_def)
  moreover have "cv_wakeup_one_thread s1 = 0" using inv1 by (simp add: synch_ok_def)
  ultimately show ?thesis using synch_ok_mono [of init s1] inv1 s1(2) by simp
qed

section \<open>Sleeping and resuming\<close>

text \<open>Going to sleep on an object that does not promise to have no sleepers.\<close>

lemma thread_sleep_synch:
  assumes ret: "thread_sleep (map (irq_V m) vs) m a s = Some s'" and inv: "synch_ok init s"
    and cur: "curthread s = Some me" and ob: "obj_inv init a (objs s a) (klog s) False"
  shows "synch_ok init s' \<and> curthread s' \<noteq> None"
proof -
  have ok: "threads_ok s" and one: "cv_wakeup_one_thread s = 0" using inv by (auto simp: synch_ok_def)
  obtain t where t: "thr s me = Some t" using ok cur by (rule threads_ok_cur)
  let ?s0 = "s\<lparr>thr := (thr s)(me \<mapsto> t\<lparr>t_sleepaddr := Some a\<rparr>)\<rparr>"
  have ok0: "threads_ok ?s0" using threads_ok_thr [OF ok t] threads_ok_cur_notin [OF ok cur] by simp
  have sw: "mi_switch (map (irq_V m) vs) m S_SLEEP ?s0 = Some s'"
    using ret cur t by (simp add: thread_sleep_def set_sleepaddr_def)
  obtain s1 nxt s2 where c: "\<exists>sl sl'. sleepers s = Some sl \<and> array_add m sl me = Some (Inr (), sl') \<and>
      s1 = ?s0\<lparr>curthread := None, sleepers := Some sl'\<rparr>"
    "scheduler (map (irq_V m) vs) s1 = Some (nxt, s2)" "s' = emit Tlb_Flush (s2\<lparr>curthread := Some nxt\<rparr>)"
    by (rule mi_switch_cases [OF sw, of me]) (use cur in auto)
  then obtain sl sl' where sl: "sleepers s = Some sl" "array_add m sl me = Some (Inr (), sl')"
    and sch: "scheduler (map (irq_V m) vs) (?s0\<lparr>curthread := None, sleepers := Some sl'\<rparr>) = Some (nxt, s2)"
    and s': "s' = emit Tlb_Flush (s2\<lparr>curthread := Some nxt\<rparr>)"
    by blast
  let ?s1 = "?s0\<lparr>curthread := None, sleepers := Some sl'\<rparr>"
  have slok: "array_ok sl" "sleep_list s = array_guys sl" using ok sl(1) by (auto simp: threads_ok_def sleep_list_def)
  have "arr_num sl = int (length (sleep_list s))" using array_ok_num [OF slok(1)] slok(2) by (simp add: array_getnum_def)
  then have "arr_num sl < 2 ^ 30 - 1" using ok by (auto simp: threads_ok_def counts_ok_def)
  note added = array_add_returns [OF sl(2) slok(1) this]
  have ok1: "threads_ok ?s1" using threads_ok_sleep_enq [OF ok0, of me sl sl'] cur sl(1) added by simp
  have fresh: "me \<notin> set (sleep_list s)" using ok cur by (auto simp: threads_ok_def lists_ok_def cur_list_def)
  have list1: "sleep_list ?s1 = sleep_list s @ [me]" using added slok(2) by (simp add: sleep_list_def)
  have q: "quiet ?s1 b" if "quiet s b" "b \<noteq> a" for b
    using that fresh unfolding quiet_def list1 by (auto simp: sleeps_on_def)
  have "obj_inv init b (objs s b) (klog s) (quiet ?s1 b)" for b
  proof (cases "b = a")
    case True
    then show ?thesis using ob obj_inv_mono by blast
  next
    case False
    have "obj_inv init b (objs s b) (klog s) (quiet s b)" using inv by (simp add: synch_ok_def)
    then show ?thesis using q False obj_inv_mono by blast
  qed
  then have "synch_ok init ?s1" using ok1 one by (simp add: synch_ok_def)
  from scheduler_synch [OF sch this] show ?thesis using s' by simp
qed

lemma sleeps_on_restrict: "sleeps_on (h |` A) a b \<Longrightarrow> sleeps_on h a b"
  by (auto simp: sleeps_on_def restrict_map_def split: if_splits)

lemma sleeps_on_clear: "sleeps_on (h(c \<mapsto> t\<lparr>t_sleepaddr := None\<rparr>)) a b \<Longrightarrow> sleeps_on h a b"
  by (auto simp: sleeps_on_def split: if_splits)

lemma mi_switch_resume_synch:
  assumes ret: "mi_switch_resume s = Some s'" and inv: "synch_ok init s" and spl: "0 < curspl s" and cur: "curthread s = Some me"
  shows "synch_ok init s' \<and> curthread s' = Some me \<and> conts s' = conts s \<and> zombie_list s' = []"
proof -
  have ok: "threads_ok s" and one: "cv_wakeup_one_thread s = 0" using inv by (auto simp: synch_ok_def)
  obtain zo' where e: "exorcise s = Some (s\<lparr>thr := thr s |` (- set (zombie_list s)), zombies := Some zo'\<rparr>)"
    "array_guys zo' = []" "threads_ok (s\<lparr>thr := thr s |` (- set (zombie_list s)), zombies := Some zo'\<rparr>)"
    using exorcise_spec [OF ok spl] by blast
  define s1 where "s1 = s\<lparr>thr := thr s |` (- set (zombie_list s)), zombies := Some zo'\<rparr>"
  have s1: "objs s1 = objs s" "klog s1 = klog s" "conts s1 = conts s" "curthread s1 = Some me" "zombie_list s1 = []"
    "cv_wakeup_one_thread s1 = 0" "sleep_list s1 = sleep_list s" "thr s1 = thr s |` (- set (zombie_list s))"
    using cur e(2) one by (simp_all add: s1_def zombie_list_def)
  have ok1: "threads_ok s1" and ex1: "exorcise s = Some s1" using e by (simp_all add: s1_def)
  have "quiet s1 a" if "quiet s a" for a
    using that sleeps_on_restrict unfolding quiet_def s1(7,8) by blast
  then have inv1: "synch_ok init s1" using synch_ok_mono [OF inv ok1] s1 by simp
  obtain t where t: "thr s1 me = Some t" using ok1 s1(4) by (rule threads_ok_cur)
  have "s' = (case t_vmspace t of None \<Rightarrow> s1 | Some vm \<Rightarrow> emit (As_Activate vm) s1)"
    using ret ex1 s1(4) t by (simp add: mi_switch_resume_def)
  then show ?thesis using inv1 s1 by (cases "t_vmspace t") auto
qed

lemma thread_sleep_resume_synch:
  assumes ret: "thread_sleep_resume s = Some s'" and inv: "synch_ok init s" and spl: "0 < curspl s" and cur: "curthread s = Some me"
  shows "synch_ok init s' \<and> curthread s' = Some me \<and> conts s' = conts s"
proof -
  obtain s1 where r1: "mi_switch_resume s = Some s1"
    using ret by (auto simp: thread_sleep_resume_def split: bind_splits)
  have inv1: "synch_ok init s1" "curthread s1 = Some me" "conts s1 = conts s" "zombie_list s1 = []"
    using mi_switch_resume_synch [OF r1 inv spl cur] by auto
  obtain t where s1: "mi_switch_resume s = Some s1" "thr s1 me = Some t"
    "s' = s1\<lparr>thr := (thr s1)(me \<mapsto> t\<lparr>t_sleepaddr := None\<rparr>)\<rparr>"
    using ret r1 inv1(2) by (auto simp: thread_sleep_resume_def set_sleepaddr_def bind_eq_Some_conv)
  have "threads_ok s'" using threads_ok_thr [OF _ s1(2)] inv1 s1(3) by (simp add: synch_ok_def)
  moreover have "quiet s' a" if "quiet s1 a" for a
  proof -
    have "sleep_list s' = sleep_list s1" "thr s' = (thr s1)(me \<mapsto> t\<lparr>t_sleepaddr := None\<rparr>)" using s1(3) by simp_all
    then show ?thesis using that sleeps_on_clear unfolding quiet_def by metis
  qed
  ultimately show ?thesis using synch_ok_mono [OF inv1(1)] inv1 s1(3) by (simp add: synch_ok_def)
qed

section \<open>The operations\<close>

lemma synch_ok_splx [simp]: "synch_ok init (snd (splx k s)) = synch_ok init s"
  by (simp add: splx_def)

lemma splx_fields [simp]: "curthread (snd (splx k s)) = curthread s" for s :: ksys
  by (simp add: splx_def)

lemma set_cont_simps [simp]:
  "synch_ok init (set_cont t k s) = synch_ok init s" "curthread (set_cont t k s) = curthread s"
  "objs (set_cont t k s) = objs s" "klog (set_cont t k s) = klog s" "quiet (set_cont t k s) = quiet s"
  by (simp_all add: set_cont_def)

lemma note_event_fields [simp]:
  "curthread (note_event e s) = curthread s" "curthread (set_obj a ob s) = curthread s"
  "klog (set_obj a ob s) = klog s" "set_cont t k (set_obj a ob s) = set_obj a ob (set_cont t k s)"
  by (simp_all add: note_event_def set_obj_def set_cont_def)

lemma P_loop_preserves:
  assumes ret: "P_loop (map (irq_V m) vs) m a spl s = Some s'" and inv: "synch_ok init s" and cur: "curthread s = Some me"
  shows "synch_ok init s' \<and> curthread s' \<noteq> None"
proof -
  obtain nm c where ob: "objs s a = Some (Sem nm c)"
    using ret by (auto simp: P_loop_def split: option.splits kobj.splits)
  note i = synch_obj [OF inv ob]
  show ?thesis
  proof (cases "c = 0")
    case True
    then have "thread_sleep (map (irq_V m) vs) m a (set_cont me (C_P a spl) s) = Some s'"
      using ret ob cur by (simp add: P_loop_def)
    moreover have "obj_inv init a (objs s a) (klog s) False" using i ob True by (simp add: obj_inv_def)
    ultimately show ?thesis using thread_sleep_synch [where s = "set_cont me (C_P a spl) s"] inv cur by simp
  next
    case False
    have "s' = snd (splx spl (note_event (Ev_P a me) (set_obj a (Sem nm (c - 1)) (set_cont me C_Run s))))"
      using ret ob cur False by (simp add: P_loop_def)
    moreover have "obj_inv init a (Some (Sem nm (c - 1))) (Ev_P a me # klog s) (quiet s a)"
      using i False by (simp add: obj_inv_def)
    ultimately show ?thesis using synch_ok_set [of init "set_cont me C_Run s" "Ev_P a me" a] inv cur
      by (simp add: about_def)
  qed
qed

lemma lock_acquire_loop_preserves:
  assumes ret: "lock_acquire_loop (map (irq_V m) vs) m a spls s = Some s'" and inv: "synch_ok init s" and cur: "curthread s = Some me"
  shows "synch_ok init s' \<and> curthread s' \<noteq> None"
proof -
  obtain nm c where ob: "objs s a = Some (Lock nm c)"
    using ret by (auto simp: lock_acquire_loop_def split: option.splits kobj.splits)
  note i = synch_obj [OF inv ob]
  show ?thesis
  proof (cases "c = 0")
    case True
    then have "thread_sleep (map (irq_V m) vs) m a (set_cont me (C_Acquire a spls) s) = Some s'"
      using ret ob cur by (simp add: lock_acquire_loop_def)
    moreover have "obj_inv init a (objs s a) (klog s) False" using i ob True by (simp add: obj_inv_def)
    ultimately show ?thesis using thread_sleep_synch [where s = "set_cont me (C_Acquire a spls) s"] inv cur by simp
  next
    case False
    then have c: "c = 1" using i by (simp add: obj_inv_def)
    have "s' = splx_all spls (note_event (Ev_Acquire a me) (set_obj a (Lock nm 0) (set_cont me C_Run s)))"
      using ret ob cur c by (simp add: lock_acquire_loop_def)
    moreover have "obj_inv init a (Some (Lock nm 0)) (Ev_Acquire a me # klog s) (quiet s a)"
      using i c by (simp add: obj_inv_def)
    ultimately show ?thesis using synch_ok_set [of init "set_cont me C_Run s" "Ev_Acquire a me" a] inv cur
      by (simp add: about_def)
  qed
qed

lemma lock_acquire_in_preserves:
  assumes "lock_acquire_in (map (irq_V m) vs) m a outer s = Some s'" and "synch_ok init s" and "curthread s = Some me"
  shows "synch_ok init s' \<and> curthread s' \<noteq> None"
  using lock_acquire_loop_preserves [where s = "s\<lparr>curspl := spl_high\<rparr>"] assms
  by (auto simp: lock_acquire_in_def splhigh_def splx_def)

lemma lock_give_preserves:
  assumes ret: "lock_give m a (s\<lparr>curspl := k\<rparr>) = Some s'" and inv: "synch_ok init s" and cur: "curthread s = Some me"
  shows "synch_ok init s' \<and> curthread s' = Some me"
proof -
  obtain nm c where ob: "objs s a = Some (Lock nm c)"
    using ret by (auto simp: lock_give_def split: option.splits kobj.splits)
  then have c: "c = 0" and w: "thread_wakeup m a (note_event (Ev_Release a me) (set_obj a (Lock nm 1) (s\<lparr>curspl := k\<rparr>))) = Some s'"
    using ret cur by (auto simp: lock_give_def)
  have "obj_inv init a (Some (Lock nm 1)) (Ev_Release a me # klog s) True"
    using synch_obj [OF inv ob] c by (simp add: obj_inv_def)
  then show ?thesis using change_and_wake [OF w inv] cur by (simp add: about_def)
qed

lemma cv_wait_loop_preserves:
  assumes ret: "cv_wait_loop (map (irq_V m) vs) m a lk spl s = Some s'" and inv: "synch_ok init s" and cur: "curthread s = Some me"
  shows "synch_ok init s' \<and> curthread s' \<noteq> None"
proof -
  obtain nm f where ob: "objs s a = Some (Cv nm f)"
    using ret by (auto simp: cv_wait_loop_def split: option.splits kobj.splits)
  note i = synch_obj [OF inv ob]
  show ?thesis
  proof (cases "f = 0")
    case True
    then have "thread_sleep (map (irq_V m) vs) m a (set_cont me (C_Wait a lk spl) s) = Some s'"
      using ret ob cur by (simp add: cv_wait_loop_def)
    moreover have "obj_inv init a (objs s a) (klog s) False" using i ob by (simp add: obj_inv_def)
    ultimately show ?thesis using thread_sleep_synch [where s = "set_cont me (C_Wait a lk spl) s"] inv cur by simp
  next
    case False
    let ?s1 = "note_event (Ev_Pass a me) (set_obj a (Cv nm 0) (set_cont me C_Run s))"
    have f: "f = 1" and acq: "lock_acquire_in (map (irq_V m) vs) m lk [spl] ?s1 = Some s'"
      using ret ob cur False by (auto simp: cv_wait_loop_def)
    have "obj_inv init a (Some (Cv nm 0)) (Ev_Pass a me # klog s) (quiet s a)"
      using i f by (simp add: obj_inv_def)
    then have "synch_ok init ?s1" using synch_ok_set [of init "set_cont me C_Run s" "Ev_Pass a me" a] inv
      by (simp add: about_def)
    then show ?thesis using lock_acquire_in_preserves [OF acq] cur by simp
  qed
qed

text \<open>
  \<^verbatim>\<open>cv_signal\<close> wakes at most one thread; that a condition variable may have sleepers while its flag
  is set does no harm to the invariant.
\<close>

lemma cv_signal_preserves:
  assumes ret: "cv_signal m a s = Some s'" and inv: "synch_ok init s" and cur: "curthread s = Some me"
  shows "synch_ok init s' \<and> curthread s' \<noteq> None"
proof -
  obtain nm f where ob: "objs s a = Some (Cv nm f)"
    using ret by (auto simp: cv_signal_def split: option.splits kobj.splits)
  let ?s1 = "note_event (Ev_Signal a) (set_obj a (Cv nm 1) (s\<lparr>curspl := spl_high\<rparr>))"
  obtain s2 where w: "thread_wakeup m a (?s1\<lparr>cv_wakeup_one_thread := 1\<rparr>) = Some s2"
    and s': "s' = (s2\<lparr>cv_wakeup_one_thread := 0\<rparr>)\<lparr>curspl := curspl s\<rparr>"
    using ret ob by (auto simp: cv_signal_def splhigh_def splx_def bind_eq_Some_conv)
  have "obj_inv init a (Some (Cv nm 1)) (Ev_Signal a # klog s) (quiet s a)"
    using synch_obj [OF inv ob] by (auto simp: obj_inv_def)
  then have inv1: "synch_ok init ?s1" using synch_ok_set [of init "s\<lparr>curspl := spl_high\<rparr>" "Ev_Signal a" a] inv
    by (simp add: about_def)
  then have ok1: "threads_ok (?s1\<lparr>cv_wakeup_one_thread := 1\<rparr>)" by (simp add: synch_ok_def)
  obtain sl q where fr: "s2 = ?s1\<lparr>cv_wakeup_one_thread := 1, sleepers := sl, runqueue := q\<rparr>"
    and sub: "set (sleep_list s2) \<subseteq> set (sleep_list ?s1)"
    using thread_wakeup_frame [OF w ok1] by (auto simp: sleep_list_def)
  have "threads_ok s2" using thread_wakeup_preserves [OF w ok1] by simp
  then have ok': "threads_ok s'" using s' by simp
  have same: "thr s' = thr ?s1" "sleep_list s' = sleep_list s2" "objs s' = objs ?s1" "klog s' = klog ?s1"
    "cv_wakeup_one_thread s' = 0" "curthread s' = Some me"
    using s' fr cur by (simp_all add: sleep_list_def)
  have "quiet s' b" if "quiet ?s1 b" for b using that sub unfolding quiet_def same by blast
  from synch_ok_mono [OF inv1 ok' same(3-5) this] show ?thesis using same(6) by simp
qed

lemma cv_broadcast_preserves:
  assumes ret: "cv_broadcast m a s = Some s'" and inv: "synch_ok init s" and cur: "curthread s = Some me"
  shows "synch_ok init s' \<and> curthread s' \<noteq> None"
proof -
  obtain nm f where ob: "objs s a = Some (Cv nm f)"
    using ret by (auto simp: cv_broadcast_def split: option.splits kobj.splits)
  obtain s2 where w: "thread_wakeup m a (note_event (Ev_Signal a) (set_obj a (Cv nm 1) (s\<lparr>curspl := spl_high\<rparr>))) = Some s2"
    and s': "s' = s2\<lparr>curspl := curspl s\<rparr>"
    using ret ob by (auto simp: cv_broadcast_def splhigh_def splx_def bind_eq_Some_conv)
  have "obj_inv init a (Some (Cv nm 1)) (Ev_Signal a # klog s) True"
    using synch_obj [OF inv ob] by (auto simp: obj_inv_def)
  then show ?thesis using change_and_wake [OF w inv] s' cur by (simp add: about_def)
qed

lemma mi_switch_ready_synch:
  assumes ret: "mi_switch (map (irq_V m) vs) m S_READY s = Some s'" and inv: "synch_ok init s" and cur: "curthread s = Some me"
  shows "synch_ok init s' \<and> curthread s' \<noteq> None"
proof -
  have ok: "threads_ok s" using inv by (simp add: synch_ok_def)
  obtain q where q: "runqueue s = Some q" "queue_ok q" using ok by (rule threads_okD)
  obtain s1 nxt s2 where c: "make_runnable m me (s\<lparr>curthread := None\<rparr>) = Some (Inr (), s1)"
    "scheduler (map (irq_V m) vs) s1 = Some (nxt, s2)" "s' = emit Tlb_Flush (s2\<lparr>curthread := Some nxt\<rparr>)"
    by (rule mi_switch_cases [OF ret, of me]) (use cur in auto)
  obtain q' where q': "s1 = s\<lparr>curthread := None, runqueue := Some q'\<rparr>" "queue_ok q'" "q_list q' = q_list q @ [me]"
    "q_room q + q_count q \<le> q_room q' + q_count q'" "q_room q' + q_count q' < 2 ^ 28"
    using make_runnable_returns [OF c(1) _ q(2) threads_ok_bounds [OF ok q(1)]] q(1) by auto
  have "threads_ok s1" using threads_ok_ready_enq [OF ok cur q(1) q'(2-5)] q'(1) by simp
  then have "synch_ok init s1" using synch_ok_mono [OF inv] q'(1) inv by (simp add: synch_ok_def)
  from scheduler_synch [OF c(2) this] show ?thesis using c(3) q'(1) by simp
qed

lemma resume_preserves:
  assumes ret: "resume (map (irq_V m) vs) m s = Some s'" and inv: "synch_ok init s" and spl: "0 < curspl s" and cur: "curthread s = Some me"
  shows "synch_ok init s' \<and> curthread s' \<noteq> None"
proof (cases "conts s me")
  case (C_P a k)
  then obtain s1 where "thread_sleep_resume s = Some s1" "P_loop (map (irq_V m) vs) m a k s1 = Some s'"
    using ret cur by (auto simp: resume_def bind_eq_Some_conv)
  then show ?thesis using thread_sleep_resume_synch [OF _ inv spl cur] P_loop_preserves by blast
next
  case (C_Acquire a ks)
  then obtain s1 where "thread_sleep_resume s = Some s1" "lock_acquire_loop (map (irq_V m) vs) m a ks s1 = Some s'"
    using ret cur by (auto simp: resume_def bind_eq_Some_conv)
  then show ?thesis using thread_sleep_resume_synch [OF _ inv spl cur] lock_acquire_loop_preserves by blast
next
  case (C_Wait a lk k)
  then obtain s1 where "thread_sleep_resume s = Some s1" "cv_wait_loop (map (irq_V m) vs) m a lk k s1 = Some s'"
    using ret cur by (auto simp: resume_def bind_eq_Some_conv)
  then show ?thesis using thread_sleep_resume_synch [OF _ inv spl cur] cv_wait_loop_preserves by blast
next
  case (C_Yield k)
  then obtain s1 where "mi_switch_resume s = Some s1" "s' = set_cont me C_Run (snd (splx k s1))"
    using ret cur by (auto simp: resume_def thread_yield_resume_def bind_eq_Some_conv)
  then show ?thesis using mi_switch_resume_synch [OF _ inv spl cur] by auto
next
  case C_Run
  then show ?thesis using ret cur by (simp add: resume_def)
qed

lemma kstep_preserves:
  assumes "kstep s s'" and inv: "synch_ok init s" and cur: "curthread s = Some me"
  shows "synch_ok init s' \<and> curthread s' \<noteq> None"
  using assms(1)
proof cases
  case (kP m vs a)
  then show ?thesis using P_loop_preserves [where s = "s\<lparr>curspl := spl_high\<rparr>"] inv cur
    by (auto simp: P_def splhigh_def splx_def)
next
  case (kV m a)
  then show ?thesis using V_preserves inv cur by (metis option.distinct(1))
next
  case (kacquire m vs a)
  then show ?thesis using lock_acquire_in_preserves inv cur by (auto simp: lock_acquire_def)
next
  case (krelease m a)
  then obtain s1 where "lock_give m a (s\<lparr>curspl := spl_high\<rparr>) = Some s1" "s' = s1\<lparr>curspl := curspl s\<rparr>"
    by (auto simp: lock_release_def splhigh_def splx_def bind_eq_Some_conv)
  then show ?thesis using lock_give_preserves inv cur by auto
next
  case (kwait m vs a lk)
  then obtain s1 where "lock_give m lk (s\<lparr>curspl := spl_high\<rparr>) = Some s1"
    "cv_wait_loop (map (irq_V m) vs) m a lk (curspl s) s1 = Some s'"
    by (auto simp: cv_wait_def splhigh_def splx_def bind_eq_Some_conv)
  then show ?thesis using lock_give_preserves cv_wait_loop_preserves inv cur by blast
next
  case (ksignal m a)
  then show ?thesis using cv_signal_preserves inv cur by blast
next
  case (kbroadcast m a)
  then show ?thesis using cv_broadcast_preserves inv cur by blast
next
  case (kyield m vs)
  then have "mi_switch (map (irq_V m) vs) m S_READY ((set_cont me (C_Yield (curspl s)) s)\<lparr>curspl := spl_high\<rparr>) = Some s'"
    using cur by (auto simp: do_yield_def thread_yield_def splhigh_def splx_def Let_def bind_eq_Some_conv)
  from mi_switch_ready_synch [OF this, of init me] show ?thesis using inv cur by simp
next
  case (kresume m vs)
  then show ?thesis using resume_preserves inv cur by blast
qed

section \<open>Mutual exclusion, on the log\<close>

text \<open>
  The threads that hold lock \<open>a\<close>: those that acquired it and did not release it since.  A log is
  disciplined when only holders release.
\<close>

fun holders :: "nat \<Rightarrow> event list \<Rightarrow> nat set" where
  "holders a [] = {}"
| "holders a (Ev_Acquire b t # l) = (if a = b then insert t (holders a l) else holders a l)"
| "holders a (Ev_Release b t # l) = (if a = b then holders a l - {t} else holders a l)"
| "holders a (e # l) = holders a l"

fun disciplined :: "nat \<Rightarrow> event list \<Rightarrow> bool" where
  "disciplined a [] \<longleftrightarrow> True"
| "disciplined a (Ev_Release b t # l) \<longleftrightarrow> (a = b \<longrightarrow> t \<in> holders a l) \<and> disciplined a l"
| "disciplined a (e # l) \<longleftrightarrow> disciplined a l"

lemma holders_count:
  assumes "init a = 1"
  shows "hist init a l \<Longrightarrow> disciplined a l \<Longrightarrow> lock_only a l \<Longrightarrow>
    finite (holders a l) \<and> int (card (holders a l)) = - net a l"
proof (induction l)
  case Nil
  then show ?case by simp
next
  case (Cons e l)
  have IH: "finite (holders a l)" "int (card (holders a l)) = - net a l"
    using Cons by (cases e; auto)+
  show ?case
  proof (cases "about e = a")
    case False
    then show ?thesis using IH by (cases e) (auto simp: about_def)
  next
    case True
    have h: "init a + net a (e # l) \<in> {0, 1}" "init a + net a l \<in> {0, 1}" using Cons.prems(1) hist_now by auto
    show ?thesis
    proof (cases e)
      case (Ev_Acquire b t)
      then have "net a l = 0" using True h assms by (auto simp: about_def)
      then have "holders a l = {}" using IH by simp
      then show ?thesis using Ev_Acquire True \<open>net a l = 0\<close> by (simp add: about_def)
    next
      case (Ev_Release b t)
      then have "t \<in> holders a l" "a = b" using True Cons.prems(2) by (auto simp: about_def)
      moreover have "0 < card (holders a l)" using IH(1) \<open>t \<in> holders a l\<close> by (auto simp: card_gt_0_iff)
      ultimately show ?thesis using Ev_Release IH by (simp add: of_nat_diff)
    qed (use Cons.prems(3) True in \<open>auto simp: about_def\<close>)
  qed
qed

end
