(* ===== verification/Synch_Props.thy ===== *)
theory Synch_Props
  imports Synch_Inv
begin

text \<open>
  Properties of semaphores, locks and condition variables over all interleavings: counting and the
  absence of lost wake-ups, mutual exclusion, and the two places where the implementation does
  less than \<^verbatim>\<open>synch.h\<close> promises.
\<close>

section \<open>Reachable states\<close>

text \<open>A start state: nobody sleeps, nothing has happened, locks are free, variables not signalled.\<close>

definition synch_init :: "(nat \<Rightarrow> int) \<Rightarrow> ksys \<Rightarrow> bool" where
  "synch_init init s \<longleftrightarrow> threads_ok s \<and> curthread s \<noteq> None \<and> cv_wakeup_one_thread s = 0 \<and> klog s = [] \<and>
     sleep_list s = [] \<and>
     (\<forall>a. case objs s a of
            None \<Rightarrow> True
          | Some (Sem nm c) \<Rightarrow> c = init a \<and> 0 \<le> c \<and> c < 2 ^ 31
          | Some (Lock nm c) \<Rightarrow> c = 1 \<and> init a = 1
          | Some (Cv nm f) \<Rightarrow> f = 0)"

lemma synch_init_ok: "synch_init init s \<Longrightarrow> synch_ok init s"
  unfolding synch_init_def synch_ok_def
  by (fastforce simp: obj_inv_def quiet_def split: option.splits kobj.splits)

lemma kreach_synch_ok:
  assumes "kreach s0 s" and "synch_init init s0"
  shows "synch_ok init s \<and> curthread s \<noteq> None"
  using assms
proof (induction rule: kreach.induct)
  case (krefl s)
  then show ?case using synch_init_ok by (simp add: synch_init_def)
next
  case (kmore s0 s1 s2)
  then show ?case using kstep_preserves by blast
qed

section \<open>Semaphores\<close>

text \<open>C7. In every reachable state the count of a semaphore is its initial count plus the completed
  \<^verbatim>\<open>V\<close> minus the completed \<^verbatim>\<open>P\<close> operations, it is never negative, and no wake-up is lost: while the
  count is positive no thread sleeps on the semaphore.\<close>

theorem semaphore_no_lost_wakeup:
  assumes "synch_init init s0" and "kreach s0 s" and "objs s a = Some (Sem nm c)"
  shows "c = init a + net a (klog s) \<and> 0 \<le> c \<and>
    (0 < c \<longrightarrow> (\<forall>t \<in> set (sleep_list s). \<not> sleeps_on (thr s) a t))"
  using kreach_synch_ok [OF assms(2,1)] synch_obj [OF _ assms(3), of init]
  by (auto simp: obj_inv_def quiet_def)

text \<open>A state with thread 1 running, 2 ready, a free lock at 50, a semaphore at 60, a variable at 70.\<close>

definition example_ksys :: ksys where
  "example_ksys = \<lparr>curspl = 15,
     runqueue = Some \<lparr>q_size = 4, q_nextwrite = 1, q_nextread = 0, q_data = [Some 2, None, None, None]\<rparr>,
     curthread = Some 1,
     thr = [1 \<mapsto> example_thread None, 2 \<mapsto> example_thread None],
     sleepers = Some (array_of [] 4), zombies = Some (array_of [] 0),
     numthreads = 2, cv_wakeup_one_thread = 0, in_interrupt = 0, effects = [],
     objs = [50 \<mapsto> Lock ''l'' 1, 60 \<mapsto> Sem ''s'' 0, 70 \<mapsto> Cv ''c'' 0], conts = (\<lambda>t. C_Run), klog = []\<rparr>"

definition example_init :: "nat \<Rightarrow> int" where
  "example_init a = (if a = 50 then 1 else 0)"

lemma example_ksys_lists:
  "cur_list example_ksys = [1]" "runq example_ksys = [2]" "sleep_list example_ksys = []"
  "zombie_list example_ksys = []" "runq_room example_ksys = 2"
  by (simp_all add: example_ksys_def thread_lists sched_defs q_list_def q_count_def ring_dist_def q_cell_def
      array_of_def array_guys_def arr_cells_def q_room_def)

lemma example_ksys_init: "synch_init example_init example_ksys"
proof -
  have "sched_ok example_ksys"
    by (simp add: example_ksys_def sched_ok_def queue_ok_def q_count_def ring_dist_def q_cell_def)
  moreover have "array_ok (array_of ([] :: nat list) 4)" "array_ok (array_of ([] :: nat list) 0)" "arr_max (array_of ([] :: nat list) 4) = 4"
    by (simp_all add: array_ok_def array_of_def arr_cells_def)
  moreover have "lists_ok [1] [2] [] [] (thr example_ksys)"
    by (simp add: lists_ok_def live_ok_def example_ksys_def example_thread_def magic_ok_def check_magic_def)
  ultimately have "threads_ok example_ksys" unfolding threads_ok_def counts_ok_def example_ksys_lists
    by (simp add: example_ksys_def)
  then show ?thesis
    by (auto simp: synch_init_def example_ksys_lists) (auto simp: example_ksys_def example_init_def split: if_splits)
qed

lemma example_quiet_wakeup:
  fixes s :: ksys
  assumes "sleepers s = Some (array_of [] 4)" "0 < curspl s"
  shows "thread_wakeup m a s = Some s"
  using assms by (simp add: thread_wakeup_def wakeup_loop.simps array_getnum_def array_of_def)

theorem semaphore_no_lost_wakeup_witness:
  "\<exists>s. V True 60 example_ksys = Some s \<and> objs s 60 = Some (Sem ''s'' 1) \<and> net 60 (klog s) = 1"
proof -
  let ?s = "example_ksys\<lparr>objs := (objs example_ksys)(60 \<mapsto> Sem ''s'' 1), klog := [Ev_V 60]\<rparr>"
  have V: "V True 60 example_ksys = Some ?s"
    by (simp add: V_def splhigh_def splx_def wrap32_def example_quiet_wakeup note_event_def set_obj_def
        example_ksys_def spl_high_def)
  have "kreach example_ksys ?s"
  proof (rule kmore [OF krefl], rule kV [OF _ V])
    show "ready_to_run example_ksys" by (simp add: ready_to_run_def example_ksys_def)
  qed
  from semaphore_no_lost_wakeup [OF example_ksys_init this, of 60 "''s''" 1] V show ?thesis
    by (simp add: example_init_def)
qed

lemma V_total:
  assumes "threads_ok s" and "curthread s = Some me" and "cv_wakeup_one_thread s = 0"
    and "objs s a = Some (Sem nm c)" and "0 \<le> c" and "c + 1 < 2 ^ 31"
  shows "\<exists>s'. V mem_ok a s = Some s' \<and> objs s' a = Some (Sem nm (c + 1)) \<and> curthread s' = Some me \<and>
    curspl s' = curspl s \<and> runq s' = runq s @ filter (sleeps_on (thr s) a) (sleep_list s) \<and>
    sleep_list s' = filter (\<lambda>t. \<not> sleeps_on (thr s) a t) (sleep_list s)"
proof -
  let ?s1 = "note_event (Ev_V a) (set_obj a (Sem nm (c + 1)) (s\<lparr>curspl := spl_high\<rparr>))"
  have lists: "runq ?s1 = runq s" "sleep_list ?s1 = sleep_list s" "thr ?s1 = thr s"
    by (simp_all add: note_event_def set_obj_def sleep_list_def sched_defs)
  have "threads_ok ?s1" "0 < curspl ?s1" "curthread ?s1 = Some me" "cv_wakeup_one_thread ?s1 \<noteq> 1"
    using assms by (simp_all add: note_event_def set_obj_def spl_high_def)
  from thread_wakeup_spec [OF this, of mem_ok a] obtain s2 where
    w: "thread_wakeup mem_ok a ?s1 = Some s2" and cur: "curthread s2 = Some me"
    and l2: "runq s2 = runq s @ filter (sleeps_on (thr s) a) (sleep_list s)"
      "sleep_list s2 = filter (\<lambda>t. \<not> sleeps_on (thr s) a t) (sleep_list s)"
    and fr: "\<exists>sl q. s2 = ?s1\<lparr>sleepers := sl, runqueue := q\<rparr>" unfolding lists by blast
  have "wrap32 (c + 1) = c + 1" using assms(5,6) by (simp add: wrap32_def)
  then have "V mem_ok a s = Some (s2\<lparr>curspl := curspl s\<rparr>)"
    using w assms(4,5) by (simp add: V_def splhigh_def splx_def)
  moreover have "objs s2 a = Some (Sem nm (c + 1))" using fr by (auto simp: note_event_def set_obj_def)
  ultimately show ?thesis using cur l2 by simp
qed

text \<open>C20. \<^verbatim>\<open>V\<close> by the running thread never blocks, never needs memory and never fails (below the
  largest count): it raises the count by one and makes every waiter runnable, in the order they
  went to sleep, the caller staying on the processor with its interrupt level restored.\<close>

theorem V_wakes_all_waiters:
  assumes "threads_ok s" and "curthread s = Some me" and "cv_wakeup_one_thread s = 0"
    and "objs s a = Some (Sem nm c)" and "0 \<le> c" and "c + 1 < 2 ^ 31"
  shows "\<exists>s'. V mem_ok a s = Some s' \<and> objs s' a = Some (Sem nm (c + 1)) \<and> curthread s' = Some me \<and>
    curspl s' = curspl s \<and> runq s' = runq s @ filter (sleeps_on (thr s) a) (sleep_list s) \<and>
    sleep_list s' = filter (\<lambda>t. \<not> sleeps_on (thr s) a t) (sleep_list s)"
  using V_total [OF assms] by blast

theorem V_wakes_all_waiters_witness:
  "\<exists>s'. V False 60 example_ksys = Some s' \<and> objs s' 60 = Some (Sem ''s'' 1)"
proof -
  have "threads_ok example_ksys" using example_ksys_init by (simp add: synch_init_def)
  from V_wakes_all_waiters [OF this, of 1 60 "''s''" 0 False] show ?thesis by (auto simp: example_ksys_def)
qed

section \<open>Locks\<close>

text \<open>C4. Mutual exclusion: in every reachable state, if so far only holders released the lock, then
  at most one thread holds it; it is free exactly when nobody holds it, and nobody sleeps on a free
  lock.\<close>

theorem lock_mutual_exclusion:
  assumes "synch_init init s0" and "kreach s0 s" and "objs s0 a = Some (Lock nm0 c0)"
    and "objs s a = Some (Lock nm c)" and "disciplined a (klog s)"
  shows "finite (holders a (klog s)) \<and> card (holders a (klog s)) \<le> 1 \<and> (c = 1 \<longleftrightarrow> holders a (klog s) = {}) \<and>
    (c = 1 \<longrightarrow> (\<forall>t \<in> set (sleep_list s). \<not> sleeps_on (thr s) a t))"
proof -
  have init: "init a = 1" using assms(1,3) by (auto simp: synch_init_def dest!: spec [of _ a])
  have i: "obj_inv init a (Some (Lock nm c)) (klog s) (quiet s a)"
    using kreach_synch_ok [OF assms(2,1)] synch_obj [OF _ assms(4)] by blast
  then have h: "hist init a (klog s)" "lock_only a (klog s)" "c = 1 + net a (klog s)" "c \<in> {0, 1}"
    using init by (auto simp: obj_inv_def)
  have "finite (holders a (klog s))" "int (card (holders a (klog s))) = 1 - c"
    using holders_count [OF init h(1) assms(5) h(2)] h(3) by auto
  then show ?thesis using h(4) i by (auto simp: obj_inv_def quiet_def)
qed

theorem lock_mutual_exclusion_witness:
  "\<exists>s. lock_acquire [] True 50 example_ksys = Some s \<and> card (holders 50 (klog s)) \<le> 1 \<and> holders 50 (klog s) = {1}"
proof -
  let ?s = "example_ksys\<lparr>objs := (objs example_ksys)(50 \<mapsto> Lock ''l'' 0), conts := (conts example_ksys)(1 := C_Run),
    klog := [Ev_Acquire 50 1]\<rparr>"
  have L: "lock_acquire (map (irq_V True) []) True 50 example_ksys = Some ?s"
    by (simp add: lock_acquire_def lock_acquire_in_def lock_acquire_loop_def splhigh_def splx_def splx_all_def
        note_event_def set_obj_def set_cont_def example_ksys_def spl_high_def)
  have "kreach example_ksys ?s"
  proof (rule kmore [OF krefl], rule kacquire [OF _ L])
    show "ready_to_run example_ksys" by (simp add: ready_to_run_def example_ksys_def)
  qed
  from lock_mutual_exclusion [OF example_ksys_init this, of 50 "''l''" 1 "''l''" 0] L show ?thesis
    by (auto simp: example_ksys_def)
qed

text \<open>C21. The discipline is not enforced: \<^verbatim>\<open>lock_release\<close> does not look at who holds the lock, so a
  thread that does not hold it can release it and then acquire it, after which two threads hold it.\<close>

theorem lock_release_unowned:
  assumes "synch_ok init s" and "curthread s = Some me" and "objs s a = Some (Lock nm 0)"
    and "h \<in> holders a (klog s)" and "h \<noteq> me" and "in_interrupt s = 0"
  shows "\<exists>s1 s2. lock_release mem_ok a s = Some s1 \<and> lock_acquire irqs mem_ok a s1 = Some s2 \<and>
    {h, me} \<subseteq> holders a (klog s2)"
proof -
  let ?s1 = "note_event (Ev_Release a me) (set_obj a (Lock nm 1) (s\<lparr>curspl := spl_high\<rparr>))"
  have "threads_ok ?s1" "0 < curspl ?s1" "curthread ?s1 = Some me" "cv_wakeup_one_thread ?s1 \<noteq> 1"
    using assms by (simp_all add: note_event_def set_obj_def spl_high_def synch_ok_def)
  from thread_wakeup_spec [OF this, of mem_ok a] obtain s2 sl q where
    w: "thread_wakeup mem_ok a ?s1 = Some s2" and fr: "s2 = ?s1\<lparr>sleepers := sl, runqueue := q\<rparr>" by blast
  have rel: "lock_release mem_ok a s = Some (s2\<lparr>curspl := curspl s\<rparr>)"
    using w assms(2,3) by (simp add: lock_release_def lock_give_def splhigh_def splx_def)
  define s3 where "s3 = s2\<lparr>curspl := curspl s\<rparr>"
  have s3: "objs s3 a = Some (Lock nm 1)" "curthread s3 = Some me" "klog s3 = Ev_Release a me # klog s" "in_interrupt s3 = 0"
    using fr assms by (simp_all add: s3_def note_event_def set_obj_def)
  obtain s4 where acq: "lock_acquire irqs mem_ok a s3 = Some s4" and log: "klog s4 = Ev_Acquire a me # klog s3"
    using s3 by (simp add: lock_acquire_def lock_acquire_in_def lock_acquire_loop_def splhigh_def splx_def
        note_event_def set_obj_def set_cont_def)
  from log have "{h, me} \<subseteq> holders a (klog s4)" using assms(4,5) s3(3) by simp
  then show ?thesis using rel acq by (auto simp: s3_def)
qed

theorem lock_release_unowned_witness:
  "\<exists>s0 s1 s2. synch_ok example_init s0 \<and> curthread s0 = Some 1 \<and> 2 \<in> holders 50 (klog s0) \<and>
     lock_release True 50 s0 = Some s1 \<and> lock_acquire [] True 50 s1 = Some s2 \<and> {2, 1} \<subseteq> holders 50 (klog s2)"
proof -
  let ?s = "example_ksys\<lparr>objs := (objs example_ksys)(50 \<mapsto> Lock ''l'' 0), klog := [Ev_Acquire 50 2]\<rparr>"
  have "synch_ok example_init example_ksys" by (rule synch_init_ok [OF example_ksys_init])
  from synch_ok_set [OF this, of "Ev_Acquire 50 2" 50 "Lock ''l'' 0"] have ok: "synch_ok example_init ?s"
    by (simp add: about_def obj_inv_def note_event_def set_obj_def example_ksys_def example_init_def)
  have facts: "curthread ?s = Some 1" "objs ?s 50 = Some (Lock ''l'' 0)" "2 \<in> holders 50 (klog ?s)" "in_interrupt ?s = 0"
    by (simp_all add: example_ksys_def)
  from lock_release_unowned [OF ok facts(1,2,3) _ facts(4), of True "[]"] obtain s1 s2 where
    "lock_release True 50 ?s = Some s1" "lock_acquire [] True 50 s1 = Some s2" "{2, 1} \<subseteq> holders 50 (klog s2)" by auto
  with ok facts show ?thesis by blast
qed

section \<open>Condition variables\<close>

text \<open>C22. A broadcast is worth no more than a signal: in every reachable state the number of waits on
  a condition variable that have ended is at most the number of \<^verbatim>\<open>cv_signal\<close> and \<^verbatim>\<open>cv_broadcast\<close> calls
  so far, because the first waiter to run resets the flag and the others sleep again.\<close>

theorem cv_passes_at_most_signals:
  assumes "synch_init init s0" and "kreach s0 s" and "objs s a = Some (Cv nm f)"
  shows "passes a (klog s) \<le> signals a (klog s)"
  using kreach_synch_ok [OF assms(2,1)] synch_obj [OF _ assms(3), of init]
  by (auto simp: obj_inv_def)

theorem cv_passes_at_most_signals_witness:
  "\<exists>s. cv_broadcast True 70 example_ksys = Some s \<and> passes 70 (klog s) \<le> signals 70 (klog s) \<and> signals 70 (klog s) = 1"
proof -
  let ?s = "example_ksys\<lparr>objs := (objs example_ksys)(70 \<mapsto> Cv ''c'' 1), klog := [Ev_Signal 70]\<rparr>"
  have B: "cv_broadcast True 70 example_ksys = Some ?s"
    by (simp add: cv_broadcast_def splhigh_def splx_def example_quiet_wakeup note_event_def set_obj_def
        example_ksys_def spl_high_def)
  have "kreach example_ksys ?s"
  proof (rule kmore [OF krefl], rule kbroadcast [OF _ B])
    show "ready_to_run example_ksys" by (simp add: ready_to_run_def example_ksys_def)
  qed
  from cv_passes_at_most_signals [OF example_ksys_init this, of 70 "''c''" 1] B show ?thesis by simp
qed

end
