(* ===== verification/Process.thy ===== *)
theory Process
  imports Synch_Props
begin

text \<open>
  The process table (\<^verbatim>\<open>kern/thread/process.c\<close>) and the system calls on it: \<^verbatim>\<open>_exit\<close>, \<^verbatim>\<open>waitpid\<close>,
  \<^verbatim>\<open>getpid\<close>, \<^verbatim>\<open>fork\<close> (\<^verbatim>\<open>kern/userprog\<close>).  The table is a kernel array of pointers to process
  structures, indexed by process id, with \<^verbatim>\<open>NULL\<close> for a free id; the state adds it and the memory of
  process structures to the state of the synchronization primitives.
\<close>

section \<open>Model\<close>

record process =
  parent_pid :: int
  exited :: int
  exit_code :: int
  exit_lock :: "nat option"
  mythread :: "nat option"

record psys =
  ks :: ksys
  pid_table :: "nat option karray option"
  procs :: "nat \<rightharpoonup> process"

definition PID_MAX :: int where
  "PID_MAX = 255"

text \<open>\<open>p\<close> and \<open>l\<close> are the blocks for the structure and its semaphore.  The result of \<^verbatim>\<open>sem_create\<close> is stored
  without a check.\<close>

definition process_create ::
  "nat option \<Rightarrow> nat option \<Rightarrow> bool \<Rightarrow> int \<Rightarrow> nat \<Rightarrow> psys \<Rightarrow> (nat option \<times> psys) outcome" where
  "process_create p l name_ok parentid thread s =
     (case p of
        None \<Rightarrow> Some (None, s)
      | Some a \<Rightarrow> do {
          (lock, k) \<leftarrow> sem_create l name_ok ''exit_lock'' 0 (ks s);
          Some (Some a, s\<lparr>ks := k, procs := (procs s)(a \<mapsto>
            \<lparr>parent_pid = parentid, exited = 0, exit_code = -1, exit_lock = lock, mythread = Some thread\<rparr>)\<rparr>)
        })"

definition process_exit :: "nat \<Rightarrow> psys \<Rightarrow> psys outcome" where
  "process_exit a s = do {
     pr \<leftarrow> procs s a;
     l \<leftarrow> exit_lock pr;
     k \<leftarrow> sem_destroy l (ks s);
     Some (s\<lparr>ks := k, procs := (procs s)(a := None)\<rparr>)
   }"

definition pid_table_shutdown :: "psys \<Rightarrow> psys outcome" where
  "pid_table_shutdown s = do {
     t \<leftarrow> pid_table s;
     Some (s\<lparr>pid_table := None\<rparr>)
   }"

definition process_table_bootstrap :: "bool \<Rightarrow> psys \<Rightarrow> psys outcome" where
  "process_table_bootstrap mem_ok s = do {
     new \<leftarrow> array_create mem_ok;
     Some (s\<lparr>pid_table := Some new\<rparr>)
   }"

text \<open>Returns 1 when there is a hole, in spite of its name.\<close>

definition no_hole_in_array :: "nat option karray \<Rightarrow> int outcome" where
  "no_hole_in_array t = do {
     i \<leftarrow> array_scan (array_getguy t) (\<lambda>g. g = None) 0 (array_getnum t);
     Some (if i = None then 0 else 1)
   }"

definition findProcessId :: "nat option karray \<Rightarrow> int outcome" where
  "findProcessId t = do {
     i \<leftarrow> array_scan (array_getguy t) (\<lambda>g. g = None) 0 (array_getnum t);
     Some (case i of None \<Rightarrow> array_getnum t | Some k \<Rightarrow> k)
   }"

text \<open>What \<^verbatim>\<open>allocatePid\<close> gets from the allocator.\<close>

record pid_env =
  pv_proc :: "nat option"
  pv_sem :: "nat option"
  pv_name_ok :: bool
  pv_mem :: bool

definition cur_pid :: "psys \<Rightarrow> int outcome" where
  "cur_pid s = do {
     me \<leftarrow> curthread (ks s);
     t \<leftarrow> thr (ks s) me;
     Some (t_pid t)
   }"

definition allocatePid :: "pid_env \<Rightarrow> nat \<Rightarrow> psys \<Rightarrow> ((errno + int) \<times> psys) outcome" where
  "allocatePid env thread s = do {
     t \<leftarrow> pid_table s;
     hole \<leftarrow> (if array_getnum t > PID_MAX then no_hole_in_array t else Some 1);
     if array_getnum t > PID_MAX \<and> hole = 0 then Some (Inl EAGAIN, s)
     else do {
       new_process_id \<leftarrow> findProcessId t;
       me \<leftarrow> cur_pid s;
       (new_process, s1) \<leftarrow> process_create (pv_proc env) (pv_sem env) (pv_name_ok env) me thread s;
       kassert (new_process \<noteq> None);
       if new_process_id = array_getnum t then do {
         (result, t1) \<leftarrow> array_add (pv_mem env) t new_process;
         let s2 = s1\<lparr>pid_table := Some t1\<rparr>;
         (case result of
            Inl e \<Rightarrow> Some (Inl e, s2)
          | Inr _ \<Rightarrow> Some (Inr new_process_id, s2))
       }
       else do {
         t1 \<leftarrow> array_setguy t new_process_id new_process;
         Some (Inr new_process_id, s1\<lparr>pid_table := Some t1\<rparr>)
       }
     }
   }"

definition freePid :: "int \<Rightarrow> psys \<Rightarrow> ((errno + unit) \<times> psys) outcome" where
  "freePid pid s = do {
     t \<leftarrow> pid_table s;
     if pid > PID_MAX \<or> pid \<le> 0 \<or> pid - 1 > array_getnum t then Some (Inl EINVAL, s)
     else do {
       g \<leftarrow> array_getguy t pid;
       a \<leftarrow> g;
       t1 \<leftarrow> array_setguy t pid None;
       s1 \<leftarrow> process_exit a (s\<lparr>pid_table := Some t1\<rparr>);
       Some (Inr (), s1)
     }
   }"

text \<open>\<^verbatim>\<open>_exit\<close> up to \<^verbatim>\<open>thread_exit\<close>, and the whole call.\<close>

definition exit_mark :: "bool \<Rightarrow> int \<Rightarrow> psys \<Rightarrow> psys outcome" where
  "exit_mark mem_ok exitcode s = do {
     t \<leftarrow> pid_table s;
     me \<leftarrow> cur_pid s;
     g \<leftarrow> array_getguy t me;
     a \<leftarrow> g;
     pr \<leftarrow> procs s a;
     l \<leftarrow> exit_lock pr;
     k \<leftarrow> V mem_ok l (ks s);
     Some (s\<lparr>ks := k, procs := (procs s)(a \<mapsto> pr\<lparr>exit_code := exitcode, exited := 1\<rparr>)\<rparr>)
   }"

definition sys_exit :: "irqs \<Rightarrow> bool \<Rightarrow> int \<Rightarrow> psys \<Rightarrow> psys outcome" where
  "sys_exit irqs mem_ok exitcode s = do {
     s1 \<leftarrow> exit_mark mem_ok exitcode s;
     k \<leftarrow> thread_exit irqs mem_ok (ks s1);
     Some (s1\<lparr>ks := k\<rparr>)
   }"

text \<open>
  \<^verbatim>\<open>waitpid\<close> up to \<^verbatim>\<open>P\<close>: the checks, in order.  The result is the process structure to wait for.
  \<open>status\<close> is the user's pointer.
\<close>

definition waitpid_check :: "int \<Rightarrow> 32 word \<Rightarrow> int \<Rightarrow> psys \<Rightarrow> (errno + nat) outcome" where
  "waitpid_check pid status options s = do {
     t \<leftarrow> pid_table s;
     if pid > PID_MAX \<or> pid \<le> 0 \<or> pid > array_getnum t - 1 \<or> options \<noteq> 0 then Some (Inl EINVAL)
     else if status = 0 \<or> status = 0x80000000 \<or> status = 0x40000000 then Some (Inl EFAULT)
     else do {
       g \<leftarrow> array_getguy t pid;
       case g of
         None \<Rightarrow> Some (Inl EINVAL)
       | Some a \<Rightarrow> do {
           pr \<leftarrow> procs s a;
           me \<leftarrow> cur_pid s;
           if parent_pid pr \<noteq> me then Some (Inl EINVAL) else Some (Inr a)
         }
     }
   }"

text \<open>After \<^verbatim>\<open>P\<close> returned: the exit code for \<^verbatim>\<open>*status\<close>, the pid for \<^verbatim>\<open>*wait_pid\<close>, the id is freed.\<close>

definition waitpid_finish :: "int \<Rightarrow> nat \<Rightarrow> psys \<Rightarrow> ((errno + (int \<times> int)) \<times> psys) outcome" where
  "waitpid_finish pid a s = do {
     pr \<leftarrow> procs s a;
     (result, s1) \<leftarrow> freePid pid s;
     case result of
       Inl e \<Rightarrow> Some (Inl e, s1)
     | Inr _ \<Rightarrow> Some (Inr (exit_code pr, pid), s1)
   }"

datatype 'a call = Blocked | Returned 'a

text \<open>The call until it returns or the caller sleeps in \<^verbatim>\<open>P\<close>, to be continued by \<open>resume\<close> and
  \<open>waitpid_finish\<close>.\<close>

definition waitpid ::
  "irqs \<Rightarrow> bool \<Rightarrow> int \<Rightarrow> 32 word \<Rightarrow> int \<Rightarrow> psys \<Rightarrow> ((errno + (int \<times> int)) call \<times> psys) outcome" where
  "waitpid irqs mem_ok pid status options s = do {
     r \<leftarrow> waitpid_check pid status options s;
     case r of
       Inl e \<Rightarrow> Some (Returned (Inl e), s)
     | Inr a \<Rightarrow> do {
         pr \<leftarrow> procs s a;
         l \<leftarrow> exit_lock pr;
         me \<leftarrow> curthread (ks s);
         k \<leftarrow> P irqs mem_ok l (ks s);
         let s1 = s\<lparr>ks := k\<rparr>;
         if conts k me = C_Run then do {
           (r2, s2) \<leftarrow> waitpid_finish pid a s1;
           Some (Returned r2, s2)
         }
         else Some (Blocked, s1)
       }
   }"

definition getpid :: "psys \<Rightarrow> int outcome" where
  "getpid s = cur_pid s"

text \<open>\<^verbatim>\<open>fork\<close> returns the child's process id in the parent's trap frame.\<close>

definition sys_fork :: "process_env \<Rightarrow> psys \<Rightarrow> ((errno + int) \<times> psys) outcome" where
  "sys_fork env s = do {
     (result, k) \<leftarrow> process_fork env ''process_fork'' (ks s);
     case result of
       Inl e \<Rightarrow> Some (Inl e, s\<lparr>ks := k\<rparr>)
     | Inr a \<Rightarrow> do {
         t \<leftarrow> thr k a;
         Some (Inr (t_pid t), s\<lparr>ks := k\<rparr>)
       }
   }"

section \<open>Well-formedness and abstraction\<close>

definition table_ok :: "psys \<Rightarrow> bool" where
  "table_ok s \<longleftrightarrow> (\<exists>t. pid_table s = Some t \<and> array_ok t \<and> array_getnum t \<le> PID_MAX + 1)"

definition pid_entry :: "psys \<Rightarrow> int \<Rightarrow> nat option" where
  "pid_entry s i = (case pid_table s of
     None \<Rightarrow> None
   | Some t \<Rightarrow> if 0 \<le> i \<and> i < array_getnum t then array_guys t ! nat i else None)"

lemma table_getguy:
  assumes "table_ok s" "pid_table s = Some t" "0 \<le> i" "i < array_getnum t"
  shows "array_getguy t i = Some (pid_entry s i)"
  using assms karr.get [of t i] by (auto simp: table_ok_def pid_entry_def)

lemma table_setguy:
  assumes "table_ok s" "pid_table s = Some t" "0 \<le> i" "i < array_getnum t"
  shows "\<exists>t'. array_setguy t i x = Some t' \<and>
    (\<forall>s'. pid_table s' = Some t' \<longrightarrow> table_ok s' \<and> pid_entry s' = (pid_entry s)(i := x))"
proof -
  obtain t' where t': "array_setguy t i x = Some t'" "array_ok t'" "array_guys t' = (array_guys t)[nat i := x]"
    using karr.set [of t i x] assms by (auto simp: table_ok_def)
  then have "array_getnum t' = array_getnum t" using karr.num [of t] karr.num [OF t'(2)] assms(1,2) by (auto simp: table_ok_def)
  then show ?thesis using t' assms karr.num [of t]
    by (auto simp: table_ok_def pid_entry_def fun_eq_iff nth_list_update nat_eq_iff intro!: exI [of _ t'])
qed

lemma table_add:
  assumes "table_ok s" "pid_table s = Some t" "array_getnum t \<le> PID_MAX"
  shows "\<exists>t'. array_add True t x = Some (Inr (), t') \<and>
    (\<forall>s'. pid_table s' = Some t' \<longrightarrow> table_ok s' \<and> pid_entry s' = (pid_entry s)(array_getnum t := x))"
proof -
  have t: "array_ok t" "array_getnum t < 2 ^ 30 - 1" using assms by (auto simp: table_ok_def PID_MAX_def)
  obtain r t' where r: "array_add True t x = Some (r, t')" "array_ok t'" and
    g: "case r of Inl e \<Rightarrow> e = ENOMEM \<and> \<not> True \<and> t' = t | Inr _ \<Rightarrow> array_guys t' = array_guys t @ [x]"
    using karr.add [OF t, of True x] by blast
  have inr: "r = Inr ()" "array_guys t' = array_guys t @ [x]" using g by (cases r; simp)+
  moreover have "array_getnum t' = array_getnum t + 1" using karr.num [OF r(2)] karr.num [OF t(1)] inr(2) by simp
  ultimately show ?thesis using r assms karr.num [OF t(1)]
    by (auto simp: table_ok_def pid_entry_def fun_eq_iff nth_append intro!: exI [of _ t'])
qed

lemma table_scan:
  assumes "table_ok s" "pid_table s = Some t"
  shows "\<exists>i. array_scan (array_getguy t) (\<lambda>g. g = None) 0 (array_getnum t) = Some i \<and>
    (case i of
       None \<Rightarrow> (\<forall>k. 0 \<le> k \<longrightarrow> k < array_getnum t \<longrightarrow> pid_entry s k \<noteq> None)
     | Some k \<Rightarrow> 0 \<le> k \<and> k < array_getnum t \<and> pid_entry s k = None \<and>
         (\<forall>j. 0 \<le> j \<longrightarrow> j < k \<longrightarrow> pid_entry s j \<noteq> None))"
proof -
  have ok: "array_ok t" and n: "array_getnum t = int (length (array_guys t))"
    using assms karr.num by (auto simp: table_ok_def)
  let ?f = "find (\<lambda>k. array_guys t ! k = None) [0..<length (array_guys t)]"
  show ?thesis
  proof (cases ?f)
    case None
    then show ?thesis using karr.scan_find [OF ok, of "\<lambda>g. g = None"] assms(2) n None
      by (intro exI [of _ None]) (auto simp: pid_entry_def find_upt_None_iff)
  next
    case (Some k)
    then show ?thesis using karr.scan_find [OF ok, of "\<lambda>g. g = None"] assms(2) n
      by (intro exI [of _ "Some (int k)"]) (auto simp: pid_entry_def find_upt_Some_iff nat_less_iff)
  qed
qed

lemma findProcessId_least:
  assumes "table_ok s" "pid_table s = Some t"
  shows "\<exists>i. findProcessId t = Some i \<and> 0 \<le> i \<and> i \<le> array_getnum t \<and> pid_entry s i = None \<and>
    (\<forall>j. 0 \<le> j \<longrightarrow> j < i \<longrightarrow> pid_entry s j \<noteq> None)"
proof -
  have "0 \<le> array_getnum t" using assms karr.num [of t] by (auto simp: table_ok_def)
  then show ?thesis using table_scan [OF assms] assms(2)
    by (auto simp: findProcessId_def pid_entry_def split: option.splits)
qed

lemma no_hole_iff:
  assumes "table_ok s" "pid_table s = Some t"
  shows "\<exists>h. no_hole_in_array t = Some h \<and>
    (h = 0 \<longleftrightarrow> (\<forall>k. 0 \<le> k \<longrightarrow> k < array_getnum t \<longrightarrow> pid_entry s k \<noteq> None))"
proof -
  obtain i where i: "array_scan (array_getguy t) (\<lambda>g. g = None) 0 (array_getnum t) = Some i"
    "case i of None \<Rightarrow> (\<forall>k. 0 \<le> k \<longrightarrow> k < array_getnum t \<longrightarrow> pid_entry s k \<noteq> None)
     | Some k \<Rightarrow> 0 \<le> k \<and> k < array_getnum t \<and> pid_entry s k = None"
    using table_scan [OF assms] by (auto split: option.splits)
  then show ?thesis by (cases i) (auto simp: no_hole_in_array_def)
qed

section \<open>Allocation of process ids\<close>

text \<open>C23. Process ids are given out lowest first and stay within \<^verbatim>\<open>PID_MAX\<close>.  With memory for the new
  structures \<^verbatim>\<open>allocatePid\<close> fails with EAGAIN exactly when all ids 0 to 255 are in use; otherwise
  the least free id is taken for a new structure whose parent is the caller, and no other entry
  changes.\<close>

theorem allocatePid_least_free:
  assumes "table_ok s" and "cur_pid s = Some me" and "pv_proc env = Some a" and "pv_sem env = Some l"
    and "pv_name_ok env" and "pv_mem env"
  shows "\<exists>r s'. allocatePid env th s = Some (r, s') \<and> table_ok s' \<and>
    (case r of
       Inl e \<Rightarrow> e = EAGAIN \<and> s' = s \<and> (\<forall>i. 0 \<le> i \<longrightarrow> i \<le> PID_MAX \<longrightarrow> pid_entry s i \<noteq> None)
     | Inr pid \<Rightarrow> 0 \<le> pid \<and> pid \<le> PID_MAX \<and> pid_entry s pid = None \<and>
         (\<forall>j. 0 \<le> j \<longrightarrow> j < pid \<longrightarrow> pid_entry s j \<noteq> None) \<and>
         pid_entry s' = (pid_entry s)(pid \<mapsto> a) \<and>
         procs s' a = Some \<lparr>parent_pid = me, exited = 0, exit_code = -1, exit_lock = Some l, mythread = Some th\<rparr> \<and>
         objs (ks s') l = Some (Sem ''exit_lock'' 0))"
proof -
  obtain t where t: "pid_table s = Some t" "array_ok t" "array_getnum t \<le> PID_MAX + 1"
    using assms(1) by (auto simp: table_ok_def)
  obtain i where i: "findProcessId t = Some i" "0 \<le> i" "i \<le> array_getnum t" "pid_entry s i = None"
    "\<forall>j. 0 \<le> j \<longrightarrow> j < i \<longrightarrow> pid_entry s j \<noteq> None" using findProcessId_least [OF assms(1) t(1)] by blast
  obtain h where h: "no_hole_in_array t = Some h"
    "h = 0 \<longleftrightarrow> (\<forall>k. 0 \<le> k \<longrightarrow> k < array_getnum t \<longrightarrow> pid_entry s k \<noteq> None)" using no_hole_iff [OF assms(1) t(1)] by blast
  show ?thesis
  proof (cases "array_getnum t > PID_MAX \<and> h = 0")
    case True
    then have "allocatePid env th s = Some (Inl EAGAIN, s)" using t(1) h(1) by (simp add: allocatePid_def)
    then show ?thesis using assms(1) True h(2) by auto
  next
    case False
    have bound: "i \<le> PID_MAX" using False h(2) i t(3) by force
    let ?pr = "\<lparr>parent_pid = me, exited = 0, exit_code = -1, exit_lock = Some l, mythread = Some th\<rparr>"
    let ?s1 = "s\<lparr>ks := set_obj l (Sem ''exit_lock'' 0) (ks s), procs := (procs s)(a \<mapsto> ?pr)\<rparr>"
    have pc: "process_create (Some a) (Some l) True me th s = Some (Some a, ?s1)"
      by (simp add: process_create_def sem_create_def)
    have "\<exists>t1. (if i = array_getnum t then array_add True t (Some a) = Some (Inr (), t1)
                else array_setguy t i (Some a) = Some t1) \<and>
            (\<forall>s'. pid_table s' = Some t1 \<longrightarrow> table_ok s' \<and> pid_entry s' = (pid_entry s)(i \<mapsto> a))"
    proof (cases "i = array_getnum t")
      case True
      then show ?thesis using table_add [OF assms(1) t(1), of "Some a"] bound by simp
    next
      case False
      then show ?thesis using table_setguy [OF assms(1) t(1) i(2), of "Some a"] i(3) by simp
    qed
    then obtain t1 where t1: "if i = array_getnum t then array_add True t (Some a) = Some (Inr (), t1)
                else array_setguy t i (Some a) = Some t1"
      "\<forall>s'. pid_table s' = Some t1 \<longrightarrow> table_ok s' \<and> pid_entry s' = (pid_entry s)(i \<mapsto> a)" by blast
    have "allocatePid env th s = Some (Inr i, ?s1\<lparr>pid_table := Some t1\<rparr>)"
      using False t(1) h(1) i(1) assms(2-) pc t1(1) by (auto simp: allocatePid_def split: if_splits)
    then show ?thesis using t1(2) bound i by (auto simp: set_obj_def)
  qed
qed

text \<open>A machine with two processes: 0 (thread 1, running) and its child 1 (thread 2).\<close>

definition example_psys :: psys where
  "example_psys = \<lparr>
     ks = example_ksys\<lparr>thr := [1 \<mapsto> (example_thread None)\<lparr>t_pid := 0\<rparr>, 2 \<mapsto> (example_thread None)\<lparr>t_pid := 1\<rparr>],
            objs := [80 \<mapsto> Sem ''exit_lock'' 0, 81 \<mapsto> Sem ''exit_lock'' 0]\<rparr>,
     pid_table = Some (array_of [Some 90, Some 91] 4),
     procs = [90 \<mapsto> \<lparr>parent_pid = 0, exited = 0, exit_code = -1, exit_lock = Some 80, mythread = Some 1\<rparr>,
              91 \<mapsto> \<lparr>parent_pid = 0, exited = 0, exit_code = -1, exit_lock = Some 81, mythread = Some 2\<rparr>]\<rparr>"

lemma example_table_ok: "table_ok example_psys"
  by (simp add: table_ok_def example_psys_def array_ok_def array_of_def arr_cells_def array_getnum_def PID_MAX_def)

theorem allocatePid_least_free_witness:
  "\<exists>s'. allocatePid \<lparr>pv_proc = Some 92, pv_sem = Some 82, pv_name_ok = True, pv_mem = True\<rparr> 3 example_psys = Some (Inr 2, s') \<and>
     pid_entry s' 2 = Some 92"
proof -
  let ?env = "\<lparr>pv_proc = Some 92, pv_sem = Some 82, pv_name_ok = True, pv_mem = True\<rparr>"
  have ent: "pid_entry example_psys 0 = Some 90" "pid_entry example_psys 1 = Some 91" "pid_entry example_psys 2 = None"
    by (simp_all add: pid_entry_def example_psys_def array_guys_def array_of_def arr_cells_def array_getnum_def)
  have cur: "cur_pid example_psys = Some 0"
    by (simp add: cur_pid_def example_psys_def example_ksys_def example_thread_def)
  have nle: "\<exists>i. 0 \<le> i \<and> i \<le> PID_MAX \<and> pid_entry example_psys i = None"
    by (rule exI [of _ 2]) (simp add: PID_MAX_def ent)
  obtain r s' where r: "allocatePid ?env 3 example_psys = Some (r, s')" and
    c: "case r of
       Inl e \<Rightarrow> e = EAGAIN \<and> s' = example_psys \<and> (\<forall>i. 0 \<le> i \<longrightarrow> i \<le> PID_MAX \<longrightarrow> pid_entry example_psys i \<noteq> None)
     | Inr pid \<Rightarrow> 0 \<le> pid \<and> pid \<le> PID_MAX \<and> pid_entry example_psys pid = None \<and>
         (\<forall>j. 0 \<le> j \<longrightarrow> j < pid \<longrightarrow> pid_entry example_psys j \<noteq> None) \<and>
         pid_entry s' = (pid_entry example_psys)(pid \<mapsto> 92) \<and>
         procs s' 92 = Some \<lparr>parent_pid = 0, exited = 0, exit_code = -1, exit_lock = Some 82, mythread = Some 3\<rparr> \<and>
         objs (ks s') 82 = Some (Sem ''exit_lock'' 0)"
    using allocatePid_least_free [OF example_table_ok cur, of ?env 92 82 3] by (simp only: pid_env.select_convs) blast
  obtain pid where pid0: "r = Inr pid" using c nle by (cases r) auto
  have pid: "0 \<le> pid" "pid_entry example_psys pid = None"
    "\<forall>j. 0 \<le> j \<longrightarrow> j < pid \<longrightarrow> pid_entry example_psys j \<noteq> None" "pid_entry s' = (pid_entry example_psys)(pid \<mapsto> 92)"
    using c by (simp_all add: pid0)
  have "pid \<noteq> 0" "pid \<noteq> 1" "\<not> 2 < pid" using pid(2) pid(3) [rule_format, of 2] ent by auto
  then have "pid = 2" using pid(1) by linarith
  then show ?thesis using r pid by (simp add: pid0)
qed

section \<open>Exit and wait\<close>

lemma hassleepers_loop_none:
  assumes "sleepers s = Some sl" "array_ok sl" "\<forall>t \<in> set (array_guys sl). thr s t \<noteq> None \<and> \<not> sleeps_on (thr s) a t"
    and "0 \<le> i"
  shows "hassleepers_loop a i s = Some False"
  using assms(4)
proof (induction "nat (array_getnum sl - i)" arbitrary: i)
  case 0
  then show ?case using assms(1) by (simp add: hassleepers_loop.simps)
next
  case (Suc n)
  then have i: "0 \<le> i" "i < array_getnum sl" by simp_all
  have "hassleepers_loop a (i + 1) s = Some False" using Suc by simp
  moreover have "array_getguy sl i = Some (array_guys sl ! nat i)" by (rule karr.get [OF assms(2) i])
  moreover have "array_guys sl ! nat i \<in> set (array_guys sl)" using i karr.num [OF assms(2)] by simp
  ultimately show ?case using assms(1,3) i by (subst hassleepers_loop.simps) (auto simp: sleeps_on_def)
qed

lemma sem_destroy_quiet:
  assumes "threads_ok s" "objs s a = Some ob" "quiet s a"
  shows "\<exists>s'. sem_destroy a s = Some s' \<and> s' = s\<lparr>objs := (objs s)(a := None)\<rparr>"
proof -
  obtain sl where sl: "sleepers s = Some sl" "array_ok sl" "sleep_list s = array_guys sl" using assms(1) by (rule threads_okD)
  have "thr s t \<noteq> None" if "t \<in> set (array_guys sl)" for t
    using threads_ok_listed [OF assms(1), of t] that sl(3) by auto
  then have "hassleepers_loop a 0 (s\<lparr>curspl := spl_high\<rparr>) = Some False"
    using hassleepers_loop_none [of "s\<lparr>curspl := spl_high\<rparr>" sl a 0] sl assms(3) by (auto simp: quiet_def)
  then show ?thesis using assms(2)
    by (simp add: sem_destroy_def destroy_obj_def splhigh_def splx_def thread_hassleepers_def spl_high_def)
qed

lemma P_no_block:
  assumes "objs s a = Some (Sem nm c)" "0 < c" "curthread s = Some me" "in_interrupt s = 0"
  shows "P irqs m a s = Some (s\<lparr>objs := (objs s)(a \<mapsto> Sem nm (c - 1)), conts := (conts s)(me := C_Run), klog := Ev_P a me # klog s\<rparr>)"
  using assms by (simp add: P_def P_loop_def splhigh_def splx_def set_obj_def set_cont_def note_event_def)

lemma freePid_frees:
  assumes "table_ok s" "pid_entry s pid = Some a" "1 \<le> pid" "procs s a = Some pr" "exit_lock pr = Some l"
    and "threads_ok (ks s)" "objs (ks s) l = Some ob" "quiet (ks s) l"
  shows "\<exists>s'. freePid pid s = Some (Inr (), s') \<and> table_ok s' \<and> pid_entry s' = (pid_entry s)(pid := None) \<and>
    procs s' = (procs s)(a := None) \<and> ks s' = (ks s)\<lparr>objs := (objs (ks s))(l := None)\<rparr>"
proof -
  obtain t where t: "pid_table s = Some t" "array_getnum t \<le> PID_MAX + 1" using assms(1) by (auto simp: table_ok_def)
  have pid: "0 \<le> pid" "pid < array_getnum t" using assms(2) t by (auto simp: pid_entry_def split: if_splits)
  obtain t' where t': "array_setguy t pid None = Some t'"
    "\<forall>s'. pid_table s' = Some t' \<longrightarrow> table_ok s' \<and> pid_entry s' = (pid_entry s)(pid := None)"
    using table_setguy [OF assms(1) t(1) pid] by blast
  obtain k where k: "sem_destroy l (ks s) = Some k" "k = (ks s)\<lparr>objs := (objs (ks s))(l := None)\<rparr>"
    using sem_destroy_quiet [OF assms(6,7,8)] by blast
  have "freePid pid s = Some (Inr (), s\<lparr>pid_table := Some t', ks := k, procs := (procs s)(a := None)\<rparr>)"
    using t pid assms(2-5) k(1) t'(1) table_getguy [OF assms(1) t(1) pid]
    by (simp add: freePid_def process_exit_def)
  then show ?thesis using t'(2) k(2) by simp
qed

text \<open>C9. Exit and wait: after the child with process id \<open>pid\<close> has called \<^verbatim>\<open>_exit(code)\<close>, at any later moment
  at which the process table and the child's exit semaphore are as it left them, a \<^verbatim>\<open>waitpid\<close> by the
  parent returns at once with that code and that id, frees the entry and only it.\<close>

theorem exit_then_waitpid:
  assumes "table_ok s" and "cur_pid s = Some pid" and "1 \<le> pid" and "pid_entry s pid = Some a"
    and "procs s a = Some pr" and "exit_lock pr = Some l" and "objs (ks s) l = Some (Sem nm 0)"
    and "threads_ok (ks s)" and "cv_wakeup_one_thread (ks s) = 0"
  shows "\<exists>s1. exit_mark mem code s = Some s1 \<and>
    (\<forall>s2 init irqs mem2 status. pid_table s2 = pid_table s1 \<longrightarrow> procs s2 = procs s1 \<longrightarrow>
       objs (ks s2) l = objs (ks s1) l \<longrightarrow> synch_ok init (ks s2) \<longrightarrow> in_interrupt (ks s2) = 0 \<longrightarrow>
       cur_pid s2 = Some (parent_pid pr) \<longrightarrow> status \<notin> {0, 0x80000000, 0x40000000} \<longrightarrow>
       (\<exists>s3. waitpid irqs mem2 pid status 0 s2 = Some (Returned (Inr (code, pid)), s3) \<and>
          table_ok s3 \<and> pid_entry s3 = (pid_entry s2)(pid := None) \<and> procs s3 a = None))"
proof -
  obtain t where t: "pid_table s = Some t" "array_getnum t \<le> PID_MAX + 1" using assms(1) by (auto simp: table_ok_def)
  have pid: "0 \<le> pid" "pid < array_getnum t" using assms(4) t by (auto simp: pid_entry_def split: if_splits)
  have get: "array_getguy t pid = Some (Some a)" using table_getguy [OF assms(1) t(1) pid] assms(4) by simp
  obtain me where "curthread (ks s) = Some me" using assms(2) by (auto simp: cur_pid_def bind_eq_Some_conv)
  from V_total [OF assms(8) this assms(9,7), of mem] obtain k where
    k: "V mem l (ks s) = Some k" "objs k l = Some (Sem nm 1)" by auto
  let ?s1 = "s\<lparr>ks := k, procs := (procs s)(a \<mapsto> pr\<lparr>exit_code := code, exited := 1\<rparr>)\<rparr>"
  have s1: "exit_mark mem code s = Some ?s1" using t assms(2,5,6) get k(1) by (simp add: exit_mark_def)
  have "\<exists>s3. waitpid irqs mem2 pid status 0 s2 = Some (Returned (Inr (code, pid)), s3) \<and>
          table_ok s3 \<and> pid_entry s3 = (pid_entry s2)(pid := None) \<and> procs s3 a = None"
    if s2: "pid_table s2 = pid_table ?s1" "procs s2 = procs ?s1" "objs (ks s2) l = objs (ks ?s1) l" "synch_ok init (ks s2)"
      "in_interrupt (ks s2) = 0" "cur_pid s2 = Some (parent_pid pr)" "status \<notin> {0, 0x80000000, 0x40000000}" for s2 init irqs mem2 status
  proof -
    obtain me2 where me2: "curthread (ks s2) = Some me2" using s2(6) by (auto simp: cur_pid_def bind_eq_Some_conv)
    have chk: "waitpid_check pid status 0 s2 = Some (Inr a)"
      using s2 t pid assms(3) get by (simp add: waitpid_check_def)
    have ob: "objs (ks s2) l = Some (Sem nm 1)" using s2(3) k(2) by simp
    define k3 where "k3 = (ks s2)\<lparr>objs := (objs (ks s2))(l \<mapsto> Sem nm 0), conts := (conts (ks s2))(me2 := C_Run),
      klog := Ev_P l me2 # klog (ks s2)\<rparr>"
    have P: "P irqs mem2 l (ks s2) = Some k3" using P_no_block [OF ob _ me2 s2(5)] by (simp add: k3_def)
    have q: "quiet (ks s2) l" "threads_ok (ks s2)"
      using synch_obj [OF s2(4) ob] s2(4) by (auto simp: obj_inv_def synch_ok_def)
    let ?s = "s2\<lparr>ks := k3\<rparr>"
    have "table_ok ?s" "pid_entry ?s = pid_entry s2" "pid_entry s2 = pid_entry s"
      using s2(1) assms(1) by (auto simp: table_ok_def pid_entry_def fun_eq_iff)
    moreover have "procs ?s a = Some (pr\<lparr>exit_code := code, exited := 1\<rparr>)" using s2(2) by simp
    moreover have "threads_ok k3" "quiet k3 l" "objs k3 l = Some (Sem nm 0)" using q by (simp_all add: k3_def quiet_def)
    ultimately obtain s3 where s3: "freePid pid ?s = Some (Inr (), s3)" "table_ok s3" "pid_entry s3 = (pid_entry s2)(pid := None)"
      "procs s3 = (procs ?s)(a := None)"
      using freePid_frees [of ?s pid a "pr\<lparr>exit_code := code, exited := 1\<rparr>" l "Sem nm 0"] assms(3,4,6) by auto
    have "waitpid irqs mem2 pid status 0 s2 = Some (Returned (Inr (code, pid)), s3)"
      using chk s2(2) assms(6) me2 P s3(1) by (simp add: waitpid_def waitpid_finish_def k3_def)
    then show ?thesis using s3 by simp
  qed
  then show ?thesis using s1 by blast
qed

text \<open>The example machine with \<open>c\<close> of its two threads running and \<open>r\<close> ready.\<close>

definition run_example :: "nat \<Rightarrow> nat \<Rightarrow> psys" where
  "run_example c r = example_psys\<lparr>ks := (ks example_psys)\<lparr>curthread := Some c,
     runqueue := Some \<lparr>q_size = 4, q_nextwrite = 1, q_nextread = 0, q_data = [Some r, None, None, None]\<rparr>\<rparr>\<rparr>"

lemma run_example_threads:
  assumes "c = 1 \<and> r = 2 \<or> c = 2 \<and> r = 1"
  shows "synch_init (\<lambda>_. 0) (ks (run_example c r))"
proof -
  let ?s = "ks (run_example c r)"
  have lists: "cur_list ?s = [c]" "runq ?s = [r]" "sleep_list ?s = []" "zombie_list ?s = []" "runq_room ?s = 2"
    by (simp_all add: run_example_def example_psys_def example_ksys_def thread_lists sched_defs q_list_def q_count_def
        ring_dist_def q_cell_def array_of_def array_guys_def arr_cells_def q_room_def)
  have "sched_ok ?s"
    by (simp add: run_example_def example_psys_def example_ksys_def sched_ok_def queue_ok_def q_count_def ring_dist_def q_cell_def)
  moreover have "array_ok (array_of ([] :: nat list) 4)" "array_ok (array_of ([] :: nat list) 0)" "arr_max (array_of ([] :: nat list) 4) = 4"
    by (simp_all add: array_ok_def array_of_def arr_cells_def)
  moreover have "lists_ok [c] [r] [] [] (thr ?s)"
    using assms by (auto simp: lists_ok_def live_ok_def run_example_def example_psys_def example_ksys_def
        example_thread_def magic_ok_def check_magic_def)
  ultimately have "threads_ok ?s" unfolding threads_ok_def counts_ok_def lists
    by (simp add: run_example_def example_psys_def example_ksys_def)
  then show ?thesis
    by (auto simp: synch_init_def lists) (auto simp: run_example_def example_psys_def example_ksys_def split: if_splits)
qed

theorem exit_then_waitpid_witness:
  "\<exists>s1 s2 s3. exit_mark True 7 (run_example 2 1) = Some s1 \<and> pid_table s2 = pid_table s1 \<and> procs s2 = procs s1 \<and>
     waitpid [] True 1 4096 0 s2 = Some (Returned (Inr (7, 1)), s3) \<and> pid_entry s3 1 = None"
proof -
  let ?c = "run_example 2 1"
  define pr where "pr = \<lparr>parent_pid = 0, exited = 0, exit_code = -1, exit_lock = Some 81, mythread = Some 2\<rparr>"
  have tab: "table_ok ?c" using example_table_ok by (simp add: table_ok_def run_example_def)
  have facts: "cur_pid ?c = Some 1" "procs ?c 91 = Some pr" "exit_lock pr = Some 81" "objs (ks ?c) 81 = Some (Sem ''exit_lock'' 0)"
    by (simp_all add: cur_pid_def run_example_def example_psys_def example_ksys_def pr_def)
  have ent: "pid_entry ?c 1 = Some 91"
    by (simp add: run_example_def pid_entry_def example_psys_def array_guys_def array_of_def arr_cells_def array_getnum_def)
  have thr: "threads_ok (ks ?c)" "cv_wakeup_one_thread (ks ?c) = 0"
    using run_example_threads [of 2 1] by (simp_all add: synch_init_def)
  obtain s1 where s1: "exit_mark True 7 ?c = Some s1" and
    w: "\<forall>s2 init irqs mem2 status. pid_table s2 = pid_table s1 \<longrightarrow> procs s2 = procs s1 \<longrightarrow>
       objs (ks s2) 81 = objs (ks s1) 81 \<longrightarrow> synch_ok init (ks s2) \<longrightarrow> in_interrupt (ks s2) = 0 \<longrightarrow>
       cur_pid s2 = Some (parent_pid pr) \<longrightarrow> status \<notin> {0, 0x80000000, 0x40000000} \<longrightarrow>
       (\<exists>s3. waitpid irqs mem2 1 status 0 s2 = Some (Returned (Inr (7, 1)), s3) \<and>
          table_ok s3 \<and> pid_entry s3 = (pid_entry s2)(1 := None) \<and> procs s3 91 = None)"
    using exit_then_waitpid [OF tab facts(1) _ ent facts(2,3,4) thr, of True 7] by auto
  have ob: "objs (ks s1) 81 = Some (Sem ''exit_lock'' 1)"
    using s1 V_total [OF thr(1) _ thr(2) facts(4), of 2 True] facts ent
    by (auto simp: exit_mark_def bind_eq_Some_conv run_example_def example_psys_def example_ksys_def array_getguy_def
        array_of_def arr_cells_def cur_pid_def)
  let ?k = "note_event (Ev_V 81) (set_obj 81 (Sem ''exit_lock'' 1) (ks (run_example 1 2)))"
  let ?s2 = "s1\<lparr>ks := ?k\<rparr>"
  have "synch_ok (\<lambda>_. 0) (ks (run_example 1 2))" by (rule synch_init_ok [OF run_example_threads]) simp
  then have "synch_ok (\<lambda>_. 0) ?k"
  proof (rule synch_ok_set)
    have "sleep_list (ks (run_example 1 2)) = []" "klog (ks (run_example 1 2)) = []"
      using run_example_threads [of 1 2] by (simp_all add: synch_init_def)
    then show "obj_inv (\<lambda>_. 0) 81 (Some (Sem ''exit_lock'' 1)) (Ev_V 81 # klog (ks (run_example 1 2))) (quiet (ks (run_example 1 2)) 81)"
      by (simp add: obj_inv_def quiet_def)
  qed (simp add: about_def)
  moreover have "in_interrupt ?k = 0" "cur_pid ?s2 = Some (parent_pid pr)"
    by (simp_all add: note_event_def set_obj_def run_example_def example_psys_def example_ksys_def cur_pid_def pr_def)
  ultimately obtain s3 where "waitpid [] True 1 4096 0 ?s2 = Some (Returned (Inr (7, 1)), s3)" "pid_entry s3 1 = None"
    using w [rule_format, of ?s2 "\<lambda>_. 0" 4096 "[]" True] ob by (auto simp: note_event_def set_obj_def)
  moreover have "pid_table ?s2 = pid_table s1" "procs ?s2 = procs s1" by simp_all
  ultimately show ?thesis using s1 by blast
qed

text \<open>C24. \<^verbatim>\<open>freePid\<close> does not reject every id outside the table: for the two ids just past its end the test
  \<^verbatim>\<open>(pid-1) > array_getnum(pid_table)\<close> is false and the kernel stops on the assertion of
  \<^verbatim>\<open>array_getguy\<close> instead of returning EINVAL; for any larger id it does return EINVAL.\<close>

theorem freePid_past_end_panics:
  assumes "pid_table s = Some t" and "array_getnum t \<le> pid" and "0 < pid" and "pid \<le> PID_MAX"
  shows "(pid \<le> array_getnum t + 1 \<longrightarrow> freePid pid s = None) \<and>
         (array_getnum t + 1 < pid \<longrightarrow> freePid pid s = Some (Inl EINVAL, s))"
  using assms array_getguy_out [of pid t] by (auto simp: freePid_def)

theorem freePid_past_end_panics_witness:
  "freePid 3 example_psys = None \<and> freePid 4 example_psys = Some (Inl EINVAL, example_psys)"
  using freePid_past_end_panics [of example_psys "array_of [Some 90, Some 91] 4" 3]
    freePid_past_end_panics [of example_psys "array_of [Some 90, Some 91] 4" 4]
  by (simp add: example_psys_def array_getnum_def array_of_def PID_MAX_def)

end
