(* ===== verification/Libc_String.thy ===== *)
theory Libc_String
  imports Kernel_Prelude
begin

text \<open>
  The string and memory functions of \<^verbatim>\<open>lib/libc\<close>, which the kernel shares: \<^verbatim>\<open>strlen\<close>, \<^verbatim>\<open>strcmp\<close>,
  \<^verbatim>\<open>strcpy\<close>, \<^verbatim>\<open>strcat\<close>, \<^verbatim>\<open>strchr\<close>, \<^verbatim>\<open>strrchr\<close>, \<^verbatim>\<open>memcpy\<close>, \<^verbatim>\<open>memmove\<close>, \<^verbatim>\<open>memset\<close>, \<^verbatim>\<open>memcmp\<close>, \<^verbatim>\<open>bzero\<close>,
  \<^verbatim>\<open>atoi\<close>, \<^verbatim>\<open>strtok_r\<close>.  Memory is one flat map from addresses to bytes, so that overlapping blocks
  and writes through aliased pointers are what they are on the machine; an access outside the mapped
  addresses is stuck.  The loops that run to a terminator are \<^theory_text>\<open>partial_function\<close>s: not finding one is
  the value \<open>None\<close>.
\<close>

section \<open>Memory\<close>

type_synonym mem = "nat \<rightharpoonup> char"

abbreviation NUL :: char where
  "NUL \<equiv> CHR 0x00"

definition store :: "mem \<Rightarrow> nat \<Rightarrow> char \<Rightarrow> mem outcome" where
  "store m p c = (if m p = None then None else Some (m(p \<mapsto> c)))"

text \<open>The value of a \<^verbatim>\<open>char\<close>, which is signed on the target, and of an \<^verbatim>\<open>unsigned char\<close>.\<close>

definition schar :: "char \<Rightarrow> int" where
  "schar c = (let n = of_char c :: int in if n < 128 then n else n - 256)"

definition uchar :: "char \<Rightarrow> int" where
  "uchar c = of_char c"

text \<open>Loads and stores of an object of \<open>n\<close> bytes.\<close>

fun load_bytes :: "mem \<Rightarrow> nat \<Rightarrow> nat \<Rightarrow> char list outcome" where
  "load_bytes m p 0 = Some []"
| "load_bytes m p (Suc n) = do {
     c \<leftarrow> m p;
     cs \<leftarrow> load_bytes m (p + 1) n;
     Some (c # cs)
   }"

fun store_bytes :: "mem \<Rightarrow> nat \<Rightarrow> char list \<Rightarrow> mem outcome" where
  "store_bytes m p [] = Some m"
| "store_bytes m p (c # cs) = do {
     m1 \<leftarrow> store m p c;
     store_bytes m1 (p + 1) cs
   }"

section \<open>Model: strings\<close>

partial_function (option) strlen_loop :: "mem \<Rightarrow> nat \<Rightarrow> nat \<Rightarrow> nat outcome" where
  "strlen_loop m s ret = do {
     c \<leftarrow> m (s + ret);
     if c \<noteq> NUL then strlen_loop m s (ret + 1) else Some ret
   }"

definition strlen :: "mem \<Rightarrow> nat \<Rightarrow> nat outcome" where
  "strlen m s = strlen_loop m s 0"

partial_function (option) strcmp_loop :: "mem \<Rightarrow> nat \<Rightarrow> nat \<Rightarrow> nat \<Rightarrow> nat outcome" where
  "strcmp_loop m a b i = do {
     x \<leftarrow> m (a + i);
     if x = NUL then Some i
     else do {
       y \<leftarrow> m (b + i);
       if x = y then strcmp_loop m a b (i + 1) else Some i
     }
   }"

definition strcmp :: "mem \<Rightarrow> nat \<Rightarrow> nat \<Rightarrow> int outcome" where
  "strcmp m a b = do {
     i \<leftarrow> strcmp_loop m a b 0;
     x \<leftarrow> m (a + i);
     y \<leftarrow> m (b + i);
     Some (if schar x > schar y then 1 else if x = y then 0 else -1)
   }"

partial_function (option) strcpy_loop :: "mem \<Rightarrow> nat \<Rightarrow> nat \<Rightarrow> nat \<Rightarrow> (nat \<times> mem) outcome" where
  "strcpy_loop m dest src i = do {
     c \<leftarrow> m (src + i);
     if c \<noteq> NUL then do {
       m1 \<leftarrow> store m (dest + i) c;
       strcpy_loop m1 dest src (i + 1)
     }
     else Some (i, m)
   }"

definition strcpy :: "mem \<Rightarrow> nat \<Rightarrow> nat \<Rightarrow> mem outcome" where
  "strcpy m dest src = do {
     (i, m1) \<leftarrow> strcpy_loop m dest src 0;
     store m1 (dest + i) NUL
   }"

definition strcat :: "mem \<Rightarrow> nat \<Rightarrow> nat \<Rightarrow> mem outcome" where
  "strcat m dest src = do {
     offset \<leftarrow> strlen m dest;
     strcpy m (dest + offset) src
   }"

partial_function (option) strchr :: "mem \<Rightarrow> nat \<Rightarrow> char \<Rightarrow> nat option outcome" where
  "strchr m s ch = do {
     c \<leftarrow> m s;
     if c \<noteq> NUL then (if c = ch then Some (Some s) else strchr m (s + 1) ch)
     else Some (if c = ch then Some s else None)
   }"

fun strrchr_loop :: "mem \<Rightarrow> nat \<Rightarrow> char \<Rightarrow> nat \<Rightarrow> nat option outcome" where
  "strrchr_loop m s ch 0 = Some None"
| "strrchr_loop m s ch (Suc i) = do {
     c \<leftarrow> m (s + i);
     if c = ch then Some (Some (s + i)) else strrchr_loop m s ch i
   }"

definition strrchr :: "mem \<Rightarrow> nat \<Rightarrow> char \<Rightarrow> nat option outcome" where
  "strrchr m s ch = do {
     n \<leftarrow> strlen m s;
     strrchr_loop m s ch (n + 1)
   }"

section \<open>Model: blocks\<close>

text \<open>One assignment \<^verbatim>\<open>d[i] = s[i]\<close> between arrays of elements of \<open>u\<close> bytes.\<close>

definition copy_elem :: "nat \<Rightarrow> mem \<Rightarrow> nat \<Rightarrow> nat \<Rightarrow> mem outcome" where
  "copy_elem u m d s = do {
     cs \<leftarrow> load_bytes m s u;
     store_bytes m d cs
   }"

text \<open>The loops \<^verbatim>\<open>for (i=0; i<n; i++) d[i] = s[i]\<close> and \<^verbatim>\<open>for (i=n; i>0; i--) d[i-1] = s[i-1]\<close>.\<close>

fun copy_up :: "nat \<Rightarrow> nat \<Rightarrow> mem \<Rightarrow> nat \<Rightarrow> nat \<Rightarrow> mem outcome" where
  "copy_up u 0 m d s = Some m"
| "copy_up u (Suc n) m d s = do {
     m1 \<leftarrow> copy_elem u m d s;
     copy_up u n m1 (d + u) (s + u)
   }"

fun copy_down :: "nat \<Rightarrow> nat \<Rightarrow> mem \<Rightarrow> nat \<Rightarrow> nat \<Rightarrow> mem outcome" where
  "copy_down u 0 m d s = Some m"
| "copy_down u (Suc n) m d s = do {
     m1 \<leftarrow> copy_elem u m (d + u * n) (s + u * n);
     copy_down u n m1 d s
   }"

definition sizeof_long :: nat where
  "sizeof_long = 4"

definition memcpy :: "mem \<Rightarrow> nat \<Rightarrow> nat \<Rightarrow> nat \<Rightarrow> mem outcome" where
  "memcpy m dst src len =
     (if dst mod sizeof_long = 0 \<and> src mod sizeof_long = 0 \<and> len mod sizeof_long = 0
      then copy_up sizeof_long (len div sizeof_long) m dst src
      else copy_up 1 len m dst src)"

definition memmove :: "mem \<Rightarrow> nat \<Rightarrow> nat \<Rightarrow> nat \<Rightarrow> mem outcome" where
  "memmove m dst src len =
     (if dst < src then memcpy m dst src len
      else if dst mod sizeof_long = 0 \<and> src mod sizeof_long = 0 \<and> len mod sizeof_long = 0
      then copy_down sizeof_long (len div sizeof_long) m dst src
      else copy_down 1 len m dst src)"

fun fill_up :: "nat \<Rightarrow> nat \<Rightarrow> mem \<Rightarrow> nat \<Rightarrow> char \<Rightarrow> mem outcome" where
  "fill_up u 0 m p c = Some m"
| "fill_up u (Suc n) m p c = do {
     m1 \<leftarrow> store_bytes m p (replicate u c);
     fill_up u n m1 (p + u) c
   }"

definition memset :: "mem \<Rightarrow> nat \<Rightarrow> char \<Rightarrow> nat \<Rightarrow> mem outcome" where
  "memset m ptr ch len = fill_up 1 len m ptr ch"

definition bzero :: "mem \<Rightarrow> nat \<Rightarrow> nat \<Rightarrow> mem outcome" where
  "bzero m block len =
     (if block mod sizeof_long = 0 \<and> len mod sizeof_long = 0
      then fill_up sizeof_long (len div sizeof_long) m block NUL
      else fill_up 1 len m block NUL)"

fun memcmp :: "mem \<Rightarrow> nat \<Rightarrow> nat \<Rightarrow> nat \<Rightarrow> int outcome" where
  "memcmp m a b 0 = Some 0"
| "memcmp m a b (Suc n) = do {
     x \<leftarrow> m a;
     y \<leftarrow> m b;
     if x \<noteq> y then Some (uchar x - uchar y) else memcmp m (a + 1) (b + 1) n
   }"

section \<open>Model: numbers and tokens\<close>

text \<open>\<^verbatim>\<open>strchr(lit, ch)\<close> for a string literal, as the index into it.\<close>

fun lit_strchr :: "string \<Rightarrow> char \<Rightarrow> nat option" where
  "lit_strchr [] ch = (if ch = NUL then Some 0 else None)"
| "lit_strchr (c # cs) ch = (if c = ch then Some 0 else map_option Suc (lit_strchr cs ch))"

partial_function (option) skip_blanks :: "mem \<Rightarrow> nat \<Rightarrow> nat outcome" where
  "skip_blanks m s = do {
     c \<leftarrow> m s;
     if c = CHR '' '' \<or> c = CHR 0x09 then skip_blanks m (s + 1) else Some s
   }"

partial_function (option) atoi_digits :: "mem \<Rightarrow> nat \<Rightarrow> 32 word \<Rightarrow> 32 word outcome" where
  "atoi_digits m s val = do {
     c \<leftarrow> m s;
     if c = NUL then Some val
     else (case lit_strchr ''0123456789'' c of
             None \<Rightarrow> Some val
           | Some digit \<Rightarrow> atoi_digits m (s + 1) (val * 10 + of_nat digit))
   }"

definition atoi :: "mem \<Rightarrow> nat \<Rightarrow> int outcome" where
  "atoi m s = do {
     s1 \<leftarrow> skip_blanks m s;
     c \<leftarrow> m s1;
     let (neg, s2) = (if c = CHR ''-'' then (True, s1 + 1)
                      else if c = CHR ''+'' then (False, s1 + 1) else (False, s1));
     val \<leftarrow> atoi_digits m s2 0;
     Some (if neg then sint (- val) else sint val)
   }"

text \<open>The two loops of \<^verbatim>\<open>strtok_r\<close>: skip while the character is (not) a separator.\<close>

partial_function (option) tok_skip :: "bool \<Rightarrow> mem \<Rightarrow> nat \<Rightarrow> nat \<Rightarrow> nat outcome" where
  "tok_skip sep m seps p = do {
     c \<leftarrow> m p;
     if c = NUL then Some p
     else do {
       w \<leftarrow> strchr m seps c;
       if (w \<noteq> None) = sep then tok_skip sep m seps (p + 1) else Some p
     }
   }"

text \<open>The result is the word, the new value of \<^verbatim>\<open>*context\<close> and the memory.\<close>

definition strtok_r ::
  "mem \<Rightarrow> nat option \<Rightarrow> nat \<Rightarrow> nat option \<Rightarrow> (nat option \<times> nat option \<times> mem) outcome" where
  "strtok_r m string seps context =
     (case (if string \<noteq> None then string else context) of
        None \<Rightarrow> Some (None, None, m)
      | Some start \<Rightarrow> do {
          head \<leftarrow> tok_skip True m seps start;
          c \<leftarrow> m head;
          if c = NUL then Some (None, None, m)
          else do {
            tail \<leftarrow> tok_skip False m seps head;
            d \<leftarrow> m tail;
            if d = NUL then Some (Some head, None, m)
            else do {
              m1 \<leftarrow> store m tail NUL;
              Some (Some head, Some (tail + 1), m1)
            }
          }
        })"

section \<open>Strings in memory\<close>

fun cstr :: "mem \<Rightarrow> nat \<Rightarrow> string \<Rightarrow> bool" where
  "cstr m p [] \<longleftrightarrow> m p = Some NUL"
| "cstr m p (x # xs) \<longleftrightarrow> x \<noteq> NUL \<and> m p = Some x \<and> cstr m (p + 1) xs"

lemma cstr_nth: "cstr m p xs \<Longrightarrow> i < length xs \<Longrightarrow> m (p + i) = Some (xs ! i) \<and> xs ! i \<noteq> NUL"
proof (induction xs arbitrary: p i)
  case (Cons x xs)
  then show ?case using Cons.IH [of "p + 1" "i - 1"] by (cases i) auto
qed simp

lemma cstr_end: "cstr m p xs \<Longrightarrow> m (p + length xs) = Some NUL"
proof (induction xs arbitrary: p)
  case (Cons x xs)
  then show ?case using Cons.IH [of "p + 1"] by simp
qed simp

lemma cstr_eqI:
  assumes "\<And>i. i < length xs \<Longrightarrow> m (p + i) = Some (xs ! i)" "m (p + length xs) = Some NUL" "NUL \<notin> set xs"
  shows "cstr m p xs"
  using assms
proof (induction xs arbitrary: p)
  case (Cons x xs)
  have "m (p + 1 + i) = Some (xs ! i)" if "i < length xs" for i using Cons.prems(1) [of "Suc i"] that by simp
  then have "cstr m (p + 1) xs" using Cons by simp
  then show ?case using Cons.prems(1) [of 0] Cons.prems(3) by auto
qed simp

lemma cstr_nul: "cstr m p xs \<Longrightarrow> NUL \<notin> set xs"
  by (induction xs arbitrary: p) auto

lemma cstr_cong:
  assumes "cstr m p xs" "\<And>x. p \<le> x \<Longrightarrow> x \<le> p + length xs \<Longrightarrow> m' x = m x"
  shows "cstr m' p xs"
  using assms by (induction xs arbitrary: p) auto

lemma cstr_drop: "cstr m p xs \<Longrightarrow> i \<le> length xs \<Longrightarrow> cstr m (p + i) (drop i xs)"
proof (induction xs arbitrary: p i)
  case (Cons x xs)
  then show ?case using Cons.IH [of "p + 1" "i - 1"] by (cases i) auto
qed simp

lemma cstr_unique: "cstr m p xs \<Longrightarrow> cstr m p ys \<Longrightarrow> xs = ys"
proof (induction xs arbitrary: p ys)
  case Nil
  then show ?case by (cases ys) auto
next
  case (Cons x xs)
  then show ?case by (cases ys) auto
qed

section \<open>String functions\<close>

lemma strlen_loop_cstr: "cstr m (s + r) xs \<Longrightarrow> strlen_loop m s r = Some (r + length xs)"
proof (induction xs arbitrary: r)
  case Nil
  then show ?case by (simp add: strlen_loop.simps)
next
  case (Cons x xs)
  then have "strlen_loop m s (r + 1) = Some (r + 1 + length xs)" by (intro Cons.IH) (simp add: add.assoc)
  with Cons.prems show ?case by (subst strlen_loop.simps) simp
qed

lemma strlen_cstr: "cstr m s xs \<Longrightarrow> strlen m s = Some (length xs)"
  using strlen_loop_cstr [of m s 0 xs] by (simp add: strlen_def)

lemma strchr_cstr:
  "cstr m s xs \<Longrightarrow> strchr m s ch = Some (map_option (\<lambda>i. s + i) (lit_strchr xs ch))"
proof (induction xs arbitrary: s)
  case Nil
  then show ?case by (simp add: strchr.simps)
next
  case (Cons x xs)
  then have "strchr m (s + 1) ch = Some (map_option (\<lambda>i. s + 1 + i) (lit_strchr xs ch))" by simp
  with Cons.prems show ?case by (subst strchr.simps) (auto simp: option.map_comp o_def)
qed

lemma lit_strchr_None: "lit_strchr xs ch = None \<longleftrightarrow> ch \<notin> set xs \<and> ch \<noteq> NUL"
  by (induction xs) auto

lemma lit_strchr_Some:
  "ch \<noteq> NUL \<Longrightarrow> lit_strchr xs ch = Some i \<longleftrightarrow> i < length xs \<and> xs ! i = ch \<and> ch \<notin> set (take i xs)"
proof (induction xs arbitrary: i)
  case (Cons x xs)
  then show ?case by (cases i) auto
qed simp

lemma strrchr_loop_spec:
  assumes "\<And>i. i < n \<Longrightarrow> m (s + i) \<noteq> None"
  shows "strrchr_loop m s ch n = Some (if \<exists>i < n. m (s + i) = Some ch then Some (s + (GREATEST i. i < n \<and> m (s + i) = Some ch)) else None)"
  using assms
proof (induction n)
  case (Suc n)
  obtain c where c: "m (s + n) = Some c" using Suc.prems [of n] by auto
  show ?case
  proof (cases "c = ch")
    case True
    have "(GREATEST i. i < Suc n \<and> m (s + i) = Some ch) = n"
      by (rule Greatest_equality) (use c True in auto)
    then show ?thesis using c True by auto
  next
    case False
    then have "i < Suc n \<and> m (s + i) = Some ch \<longleftrightarrow> i < n \<and> m (s + i) = Some ch" for i
      using c by (auto simp: less_Suc_eq)
    then show ?thesis using c False Suc by auto
  qed
qed simp

text \<open>The order on strings that \<^verbatim>\<open>strcmp\<close> computes: first difference decides, with the terminator
  smaller than nothing but the characters above 127.\<close>

fun lex_cmp :: "string \<Rightarrow> string \<Rightarrow> int" where
  "lex_cmp [] [] = 0"
| "lex_cmp [] (y # ys) = (if schar y < 0 then 1 else -1)"
| "lex_cmp (x # xs) [] = (if schar x > 0 then 1 else -1)"
| "lex_cmp (x # xs) (y # ys) = (if x = y then lex_cmp xs ys else if schar x > schar y then 1 else -1)"

lemma uchar_bounds: "0 \<le> uchar c" "uchar c < 256"
proof -
  have "uchar c = uchar c mod 256" using of_char_mod_256 [of c, where ?'a = int] by (simp add: uchar_def)
  then show "0 \<le> uchar c" "uchar c < 256" using pos_mod_sign [of 256 "uchar c"] pos_mod_bound [of 256 "uchar c"] by simp_all
qed

lemma uchar_inj: "uchar c = uchar d \<longleftrightarrow> c = d"
  by (simp add: uchar_def)

lemma schar_inj: "schar c = schar d \<longleftrightarrow> c = d"
  using uchar_bounds [of c] uchar_bounds [of d] uchar_inj [of c d]
  by (auto simp: schar_def uchar_def Let_def split: if_splits)

lemma schar_NUL [simp]: "schar NUL = 0"
  by (simp add: schar_def)

fun lcp :: "string \<Rightarrow> string \<Rightarrow> nat" where
  "lcp [] ys = 0"
| "lcp (x # xs) [] = 0"
| "lcp (x # xs) (y # ys) = (if x = y then Suc (lcp xs ys) else 0)"

lemma strcmp_loop_cstr:
  "cstr m (a + i) xs \<Longrightarrow> cstr m (b + i) ys \<Longrightarrow> strcmp_loop m a b i = Some (i + lcp xs ys)"
proof (induction xs ys arbitrary: i rule: lcp.induct)
  case (1 ys)
  then show ?case by (subst strcmp_loop.simps) simp
next
  case (2 x xs)
  then show ?case by (subst strcmp_loop.simps) simp
next
  case (3 x xs y ys)
  show ?case
  proof (cases "x = y")
    case True
    then have "strcmp_loop m a b (i + 1) = Some (i + 1 + lcp xs ys)" using 3 by (simp add: add.assoc)
    with 3(2,3) True show ?thesis by (subst strcmp_loop.simps) simp
  next
    case False
    with 3(2,3) show ?thesis by (subst strcmp_loop.simps) simp
  qed
qed

lemma strcmp_cstr:
  assumes "cstr m a xs" "cstr m b ys"
  shows "strcmp m a b = Some (lex_cmp xs ys)"
proof -
  have "(m (a + lcp xs ys) \<bind> (\<lambda>x. m (b + lcp xs ys) \<bind>
     (\<lambda>y. Some (if schar x > schar y then 1 else if x = y then 0 else -1)))) = Some (lex_cmp xs ys)"
    using assms
  proof (induction xs ys arbitrary: a b rule: lcp.induct)
    case (1 ys)
    then show ?case by (cases ys) (auto simp: less_le schar_inj [of _ NUL, simplified])
  next
    case (2 x xs)
    then show ?case by (auto simp: less_le schar_inj [of _ NUL, simplified])
  next
    case (3 x xs y ys)
    then show ?case using 3(1) [of "a + 1" "b + 1"] by auto
  qed
  then show ?thesis using strcmp_loop_cstr [of m a 0 xs b ys] assms by (simp add: strcmp_def)
qed

lemma lex_cmp_0: "NUL \<notin> set xs \<Longrightarrow> NUL \<notin> set ys \<Longrightarrow> lex_cmp xs ys = 0 \<longleftrightarrow> xs = ys"
  by (induction xs ys rule: lex_cmp.induct) auto

section \<open>Copying\<close>

definition mapped :: "mem \<Rightarrow> nat \<Rightarrow> nat \<Rightarrow> bool" where
  "mapped m p n \<longleftrightarrow> (\<forall>i < n. m (p + i) \<noteq> None)"

text \<open>The memory with the \<open>n\<close> bytes that were at \<open>s\<close> now at \<open>d\<close>.\<close>

definition moved :: "mem \<Rightarrow> nat \<Rightarrow> nat \<Rightarrow> nat \<Rightarrow> mem" where
  "moved m d s n = (\<lambda>x. if d \<le> x \<and> x < d + n then m (s + (x - d)) else m x)"

lemma mapped_Suc: "mapped m p (Suc n) \<longleftrightarrow> m p \<noteq> None \<and> mapped m (p + 1) n"
  by (auto simp: mapped_def less_Suc_eq_0_disj)

lemma mapped_sub: "mapped m p n \<Longrightarrow> q + k \<le> p + n \<Longrightarrow> p \<le> q \<Longrightarrow> mapped m q k"
  unfolding mapped_def
proof (intro allI impI)
  fix i assume m: "\<forall>i < n. m (p + i) \<noteq> None" and l: "q + k \<le> p + n" "p \<le> q" "i < k"
  then show "m (q + i) \<noteq> None" using m [rule_format, of "q - p + i"] by simp
qed

lemma load_bytes_spec: "mapped m p n \<Longrightarrow> load_bytes m p n = Some (map (\<lambda>i. the (m (p + i))) [0..<n])"
proof (induction n arbitrary: p)
  case (Suc n)
  then show ?case by (auto simp: mapped_Suc upt_conv_Cons map_Suc_upt [symmetric] simp del: upt_Suc)
qed simp

lemma store_bytes_spec:
  "mapped m p (length cs) \<Longrightarrow>
   store_bytes m p cs = Some (\<lambda>x. if p \<le> x \<and> x < p + length cs then Some (cs ! (x - p)) else m x)"
proof (induction cs arbitrary: m p)
  case (Cons c cs)
  then have "mapped (m(p \<mapsto> c)) (p + 1) (length cs)" by (auto simp: mapped_def)
  from Cons.IH [OF this] have "store_bytes (m(p \<mapsto> c)) (p + 1) cs =
      Some (\<lambda>x. if p \<le> x \<and> x < p + length (c # cs) then Some ((c # cs) ! (x - p)) else m x)"
    by (rule trans) (auto simp: nth_Cons')
  then show ?case using Cons.prems by (auto simp: store_def mapped_Suc)
qed (auto simp: fun_eq_iff)

lemma copy_elem_spec:
  assumes "mapped m d u" "mapped m s u"
  shows "copy_elem u m d s = Some (moved m d s u)"
proof -
  have "Some (the (m (s + (x - d)))) = m (s + (x - d))" if "d \<le> x" "x < d + u" for x
    using assms(2) that unfolding mapped_def by (metis less_diff_conv2 add.commute option.collapse)
  then show ?thesis using assms by (auto simp: copy_elem_def load_bytes_spec store_bytes_spec moved_def fun_eq_iff)
qed

lemma mapped_moved: "mapped m d n \<Longrightarrow> mapped m s n \<Longrightarrow> mapped m p k \<Longrightarrow> mapped (moved m d s n) p k"
  unfolding mapped_def moved_def
proof (intro allI impI)
  fix i assume m: "\<forall>i < n. m (s + i) \<noteq> None" "\<forall>i < k. m (p + i) \<noteq> None" "i < k"
  show "(if d \<le> p + i \<and> p + i < d + n then m (s + (p + i - d)) else m (p + i)) \<noteq> None"
    using m(1) [rule_format, of "p + i - d"] m(2,3) by (cases "d \<le> p + i \<and> p + i < d + n") auto
qed

lemma moved_up:
  assumes "d + u \<le> s \<or> s + u * Suc n \<le> d"
  shows "moved (moved m d s u) (d + u) (s + u) (u * n) = moved m d s (u * Suc n)"
proof (rule ext)
  fix x
  have e: "s + u + (x - (d + u)) = s + (x - d)" if "d + u \<le> x" using that by simp
  have "\<not> (d \<le> s + (x - d) \<and> s + (x - d) < d + u)" if "d + u \<le> x" "x < d + u * Suc n"
    using assms that by auto
  then show "moved (moved m d s u) (d + u) (s + u) (u * n) x = moved m d s (u * Suc n) x"
    using e by (auto simp: moved_def)
qed

lemma copy_up_spec:
  assumes "mapped m d (u * n)" "mapped m s (u * n)" "d + u \<le> s \<or> s + u * n \<le> d"
  shows "copy_up u n m d s = Some (moved m d s (u * n))"
  using assms
proof (induction n arbitrary: m d s)
  case 0
  then show ?case by (auto simp: moved_def fun_eq_iff)
next
  case (Suc n)
  have u: "mapped m d u" "mapped m s u" using Suc.prems by (auto intro: mapped_sub [of m d "u * Suc n"] mapped_sub [of m s "u * Suc n"])
  have "mapped m (d + u) (u * n)" "mapped m (s + u) (u * n)"
    using Suc.prems by (auto intro: mapped_sub [of m d "u * Suc n"] mapped_sub [of m s "u * Suc n"])
  then have "copy_up u n (moved m d s u) (d + u) (s + u) = Some (moved (moved m d s u) (d + u) (s + u) (u * n))"
    using Suc.prems(3) u by (intro Suc.IH mapped_moved) auto
  then show ?case using u Suc.prems(3) by (simp add: copy_elem_spec moved_up del: mult_Suc_right)
qed

lemma copy_down_spec:
  assumes "mapped m d (u * n)" "mapped m s (u * n)" "s + u \<le> d \<or> d = s"
  shows "copy_down u n m d s = Some (moved m d s (u * n))"
  using assms
proof (induction n arbitrary: m)
  case 0
  then show ?case by (auto simp: moved_def fun_eq_iff)
next
  case (Suc n)
  let ?m = "moved m (d + u * n) (s + u * n) u"
  have u: "mapped m (d + u * n) u" "mapped m (s + u * n) u" "mapped m d (u * n)" "mapped m s (u * n)"
    using Suc.prems by (auto intro: mapped_sub [of m d "u * Suc n"] mapped_sub [of m s "u * Suc n"])
  have "copy_down u n ?m d s = Some (moved ?m d s (u * n))" using Suc.prems(3) u by (intro Suc.IH mapped_moved) auto
  moreover have "moved ?m d s (u * n) = moved m d s (u * Suc n)"
    using Suc.prems(3) by (auto simp: moved_def fun_eq_iff)
  ultimately show ?case using u by (simp add: copy_elem_spec del: mult_Suc_right)
qed

lemma aligned_gap:
  assumes "(d::nat) mod 4 = 0" "s mod 4 = 0" "d < s"
  shows "d + 4 \<le> s"
  using assms by presburger

lemma memcpy_spec:
  assumes "mapped m d n" "mapped m s n" "d < s \<or> s + n \<le> d"
  shows "memcpy m d s n = Some (moved m d s n)"
proof (cases "d mod 4 = 0 \<and> s mod 4 = 0 \<and> n mod 4 = 0")
  case True
  then have n: "4 * (n div 4) = n" by auto
  have "d + 4 \<le> s \<or> s + 4 * (n div 4) \<le> d" using True assms(3) aligned_gap n by auto
  then show ?thesis using copy_up_spec [of m d 4 "n div 4" s] assms True n by (simp add: memcpy_def sizeof_long_def)
next
  case False
  then show ?thesis using copy_up_spec [of m d 1 n s] assms by (auto simp: memcpy_def sizeof_long_def)
qed

lemma memmove_spec:
  assumes "mapped m d n" "mapped m s n"
  shows "memmove m d s n = Some (moved m d s n)"
proof (cases "d < s")
  case True
  then show ?thesis using memcpy_spec assms by (simp add: memmove_def)
next
  case False
  show ?thesis
  proof (cases "d mod 4 = 0 \<and> s mod 4 = 0 \<and> n mod 4 = 0")
    case True
    then have n: "4 * (n div 4) = n" by auto
    have "s + 4 \<le> d \<or> d = s" using True False aligned_gap [of s d] by auto
    then show ?thesis using copy_down_spec [of m d 4 "n div 4" s] assms True False n
      by (simp add: memmove_def sizeof_long_def)
  next
    case byte: False
    have "s + 1 \<le> d \<or> d = s" using False by auto
    then show ?thesis using copy_down_spec [of m d 1 n s] assms False byte by (auto simp: memmove_def sizeof_long_def)
  qed
qed

lemma fill_up_spec:
  "mapped m p (u * n) \<Longrightarrow> fill_up u n m p c = Some (\<lambda>x. if p \<le> x \<and> x < p + u * n then Some c else m x)"
proof (induction n arbitrary: m p)
  case (Suc n)
  have u: "mapped m p u" "mapped m (p + u) (u * n)" using Suc.prems by (auto intro: mapped_sub [of m p "u * Suc n"])
  let ?m = "\<lambda>x. if p \<le> x \<and> x < p + u then Some c else m x"
  have "store_bytes m p (replicate u c) = Some ?m"
    using store_bytes_spec [of m p "replicate u c"] u(1) by (auto simp: fun_eq_iff)
  moreover have "mapped ?m (p + u) (u * n)" using u(2) by (auto simp: mapped_def)
  ultimately show ?case using Suc.IH [of ?m "p + u"] by (auto simp: fun_eq_iff)
qed (auto simp: fun_eq_iff)

text \<open>The word-at-a-time path of \<^verbatim>\<open>bzero\<close> writes what \<^verbatim>\<open>memset\<close> with zero writes.\<close>

lemma bzero_memset: "mapped m p n \<Longrightarrow> bzero m p n = memset m p NUL n"
  using fill_up_spec [of m p 1 n NUL] fill_up_spec [of m p 4 "n div 4" NUL]
  by (auto simp: bzero_def memset_def sizeof_long_def mult.commute)

lemma memcmp_0_iff:
  assumes "mapped m a n" "mapped m b n"
  shows "\<exists>r. memcmp m a b n = Some r \<and> (r = 0 \<longleftrightarrow> (\<forall>i < n. m (a + i) = m (b + i)))"
  using assms
proof (induction n arbitrary: a b)
  case (Suc n)
  obtain x y where xy: "m a = Some x" "m b = Some y" using Suc.prems by (auto simp: mapped_Suc)
  have split: "(\<forall>i < Suc n. m (a + i) = m (b + i)) \<longleftrightarrow> x = y \<and> (\<forall>i < n. m (a + 1 + i) = m (b + 1 + i))"
    using xy by (auto simp: less_Suc_eq_0_disj)
  show ?case
  proof (cases "x = y")
    case True
    with Suc.IH [of "a + 1" "b + 1"] Suc.prems xy show ?thesis unfolding split by (auto simp: mapped_Suc)
  next
    case False
    then show ?thesis using xy uchar_inj [of x y] unfolding split by auto
  qed
qed simp

section \<open>Copying strings\<close>

lemma strcpy_loop_cstr:
  assumes "cstr m (src + i) xs" "mapped m (dest + i) (length xs)" "dest + i + length xs \<le> src + i \<or> src + i + length xs < dest + i"
  shows "strcpy_loop m dest src i =
    Some (i + length xs, \<lambda>x. if dest + i \<le> x \<and> x < dest + i + length xs then Some (xs ! (x - (dest + i))) else m x)"
  using assms
proof (induction xs arbitrary: m i)
  case Nil
  then have nul: "m (src + i) = Some NUL" by simp
  have a: "strcpy_loop m dest src i = Some (i + length ([] :: string), m)" by (subst strcpy_loop.simps) (simp add: nul)
  have b: "m = (\<lambda>x. if dest + i \<le> x \<and> x < dest + i + length ([] :: string) then Some ([] ! (x - (dest + i))) else m x)" by (rule ext) auto
  show ?case by (rule trans [OF a]) (rule arg_cong [OF b])
next
  case (Cons c cs)
  let ?m = "m(dest + i \<mapsto> c)"
  have c: "cstr m (src + (i + 1)) cs" using Cons.prems(1) by (simp add: add.assoc)
  have n: "x \<noteq> dest + i" if "src + (i + 1) \<le> x" "x \<le> src + (i + 1) + length cs" for x
    using Cons.prems(3) that by auto
  have cm: "cstr ?m (src + (i + 1)) cs" by (rule cstr_cong [OF c]) (use n in simp)
  have mm: "mapped ?m (dest + (i + 1)) (length cs)" using Cons.prems(2) by (auto simp: mapped_def less_Suc_eq_0_disj)
  have "strcpy_loop ?m dest src (i + 1) = Some (i + 1 + length cs,
      \<lambda>x. if dest + (i + 1) \<le> x \<and> x < dest + (i + 1) + length cs then Some (cs ! (x - (dest + (i + 1)))) else ?m x)"
    by (rule Cons.IH [OF cm mm]) (use Cons.prems(3) in auto)
  also have "\<dots> = Some (i + length (c # cs),
      \<lambda>x. if dest + i \<le> x \<and> x < dest + i + length (c # cs) then Some ((c # cs) ! (x - (dest + i))) else m x)"
    by (auto simp: fun_eq_iff nth_Cons')
  finally show ?case using Cons.prems by (subst strcpy_loop.simps) (auto simp: store_def mapped_Suc)
qed

lemma strcpy_spec:
  assumes "cstr m src xs" "mapped m dest (length xs + 1)" "dest + length xs < src \<or> src + length xs < dest"
  shows "\<exists>m'. strcpy m dest src = Some m' \<and> cstr m' dest xs \<and> cstr m' src xs \<and>
    (\<forall>x. x < dest \<or> dest + length xs < x \<longrightarrow> m' x = m x)"
proof -
  let ?m = "\<lambda>x. if dest \<le> x \<and> x < dest + length xs then Some (xs ! (x - dest)) else m x"
  have "mapped m dest (length xs)" using assms(2) by (auto simp: mapped_def)
  then have "strcpy_loop m dest src 0 = Some (length xs, ?m)"
    using strcpy_loop_cstr [of m src 0 xs dest, unfolded add_0_right] assms by auto
  then have r: "strcpy m dest src = Some (?m(dest + length xs \<mapsto> NUL))" (is "_ = Some ?r")
    using assms(2) by (auto simp: strcpy_def store_def mapped_def)
  have "cstr ?r dest xs" by (rule cstr_eqI) (use cstr_nul [OF assms(1)] in auto)
  moreover have "cstr ?r src xs" by (rule cstr_cong [OF assms(1)]) (use assms(3) in auto)
  ultimately show ?thesis using r by auto
qed

lemma strcat_spec:
  assumes "cstr m dest xs" "cstr m src ys" "mapped m dest (length xs + length ys + 1)"
    and "dest + length xs + length ys < src \<or> src + length ys < dest"
  shows "\<exists>m'. strcat m dest src = Some m' \<and> cstr m' dest (xs @ ys)"
proof -
  have "mapped m (dest + length xs) (length ys + 1)" by (rule mapped_sub [OF assms(3)]) auto
  then obtain m' where m': "strcpy m (dest + length xs) src = Some m'" "cstr m' (dest + length xs) ys"
    "\<forall>x. x < dest + length xs \<or> dest + length xs + length ys < x \<longrightarrow> m' x = m x"
    using strcpy_spec [OF assms(2), of "dest + length xs"] assms(4) by auto
  have "cstr m' dest (xs @ ys)"
  proof (rule cstr_eqI)
    fix i assume i: "i < length (xs @ ys)"
    show "m' (dest + i) = Some ((xs @ ys) ! i)"
    proof (cases "i < length xs")
      case True
      then show ?thesis using m'(3) cstr_nth [OF assms(1), of i] by (simp add: nth_append)
    next
      case False
      then show ?thesis using cstr_nth [OF m'(2), of "i - length xs"] i by (simp add: nth_append)
    qed
  qed (use cstr_end [OF m'(2)] cstr_nul [OF assms(1)] cstr_nul [OF assms(2)] in \<open>auto simp: add.assoc\<close>)
  then show ?thesis using m'(1) strlen_cstr [OF assms(1)] by (simp add: strcat_def)
qed

section \<open>Tokens\<close>

lemma tok_skip_cstr:
  assumes "cstr m p xs" "cstr m seps ss"
  shows "tok_skip sep m seps p = Some (p + length (takeWhile (\<lambda>c. (c \<in> set ss) = sep) xs))"
  using assms(1)
proof (induction xs arbitrary: p)
  case Nil
  then show ?case by (subst tok_skip.simps) simp
next
  case (Cons c cs)
  have w: "strchr m seps c = Some (map_option (\<lambda>i. seps + i) (lit_strchr ss c))" by (rule strchr_cstr [OF assms(2)])
  have "(lit_strchr ss c \<noteq> None) = (c \<in> set ss)" using Cons.prems lit_strchr_None [of ss c] by auto
  then show ?case using Cons w by (subst tok_skip.simps) auto
qed

text \<open>C26. One call of \<^verbatim>\<open>strtok_r\<close>: if only separators are left it returns \<^verbatim>\<open>NULL\<close> and ends the scan; otherwise
  it returns the first maximal run of non-separators, terminated in place, and leaves in the
  context the string that follows the separator after it, or \<^verbatim>\<open>NULL\<close> when the word ended the text.
  Nothing but that one separator is overwritten.\<close>

theorem strtok_r_next_word:
  assumes "cstr m p xs" and "cstr m seps ss" and "p + length xs < seps \<or> seps + length ss < p"
    and "(if string \<noteq> None then string else context) = Some p"
    and "pre = takeWhile (\<lambda>c. c \<in> set ss) xs" and "rest = dropWhile (\<lambda>c. c \<in> set ss) xs"
    and "word = takeWhile (\<lambda>c. c \<notin> set ss) rest"
  shows "(rest = [] \<longrightarrow> strtok_r m string seps context = Some (None, None, m)) \<and>
    (rest \<noteq> [] \<longrightarrow> (\<exists>ctx m'. strtok_r m string seps context = Some (Some (p + length pre), ctx, m') \<and>
       word \<noteq> [] \<and> cstr m' (p + length pre) word \<and> cstr m' seps ss \<and>
       (if word = rest then ctx = None \<and> m' = m
        else ctx = Some (p + length pre + length word + 1) \<and>
          cstr m' (p + length pre + length word + 1) (drop (length word + 1) rest) \<and>
          m' = m(p + length pre + length word \<mapsto> NUL))))"
proof -
  let ?h = "p + length pre" and ?t = "p + length pre + length word"
  have xs: "xs = pre @ rest" and split: "rest = word @ drop (length word) rest"
    using assms(5-7) by (simp_all add: dropWhile_eq_drop [symmetric])
  have h: "tok_skip True m seps p = Some ?h" using tok_skip_cstr [OF assms(1,2), of True] assms(5) by simp
  have crest: "cstr m ?h rest" using cstr_drop [OF assms(1), of "length pre"] xs by simp
  show ?thesis
  proof (cases "rest = []")
    case True
    then show ?thesis using crest h assms(4) by (auto simp: strtok_r_def)
  next
    case False
    then obtain c cs where rest: "rest = c # cs" by (cases rest) auto
    have "c \<notin> set ss" using rest assms(6) hd_dropWhile [of "\<lambda>c. c \<in> set ss" xs] by auto
    then have word: "word \<noteq> []" using rest assms(7) by simp
    have t: "tok_skip False m seps ?h = Some ?t" using tok_skip_cstr [OF crest assms(2), of False] assms(7) by simp
    have hc: "m ?h = Some c" "c \<noteq> NUL" using crest rest by simp_all
    have nul: "NUL \<notin> set word" using cstr_nul [OF crest] split by (metis UnCI set_append)
    show ?thesis
    proof (cases "word = rest")
      case True
      then show ?thesis using h t hc cstr_end [OF crest] assms(4,2) word crest False
        by (auto simp: strtok_r_def)
    next
      case neq: False
      then have "length word < length rest" using split by (metis append_Nil2 drop_all linorder_not_less)
      then have d: "m ?t = Some (rest ! length word)" "rest ! length word \<noteq> NUL"
        using cstr_nth [OF crest, of "length word"] by simp_all
      let ?m = "m(?t \<mapsto> NUL)"
      have r: "strtok_r m string seps context = Some (Some ?h, Some (?t + 1), ?m)"
        using h t hc d assms(4) by (auto simp: strtok_r_def store_def)
      have "cstr ?m ?h word"
      proof (rule cstr_eqI)
        fix i assume i: "i < length word"
        then have "rest ! i = word ! i" using split by (metis nth_append)
        then show "?m (?h + i) = Some (word ! i)"
          using i cstr_nth [OF crest, of i] \<open>length word < length rest\<close> by simp
      qed (use nul in auto)
      moreover have "cstr ?m seps ss" using assms(3) xs \<open>length word < length rest\<close> by (intro cstr_cong [OF assms(2)]) auto
      moreover have "cstr m (?t + 1) (drop (length word + 1) rest)"
        using cstr_drop [OF crest, of "length word + 1"] \<open>length word < length rest\<close> by (simp add: add.assoc)
      then have "cstr ?m (?t + 1) (drop (length word + 1) rest)" by (rule cstr_cong) auto
      ultimately show ?thesis using r word neq False by auto
    qed
  qed
qed

text \<open>The text \<^verbatim>\<open>" ab c"\<close> at address 100 and the separators \<^verbatim>\<open>" "\<close> at 200.\<close>

definition example_mem :: mem where
  "example_mem = [100 \<mapsto> CHR '' '', 101 \<mapsto> CHR ''a'', 102 \<mapsto> CHR ''b'', 103 \<mapsto> CHR '' '', 104 \<mapsto> CHR ''c'',
     105 \<mapsto> NUL, 200 \<mapsto> CHR '' '', 201 \<mapsto> NUL]"

theorem strtok_r_next_word_witness:
  "\<exists>m'. strtok_r example_mem (Some 100) 200 None = Some (Some 101, Some 104, m') \<and> cstr m' 101 ''ab'' \<and> cstr m' 104 ''c''"
proof -
  have c: "cstr example_mem 100 '' ab c''" "cstr example_mem 200 '' ''" by (simp_all add: example_mem_def)
  from strtok_r_next_word [OF c, of "Some 100" None "'' ''" "''ab c''" "''ab''"] show ?thesis by auto
qed

text \<open>C25. \<^verbatim>\<open>memmove\<close> is correct for every overlap of its blocks and every alignment: whichever of its four
  loops runs, afterwards the destination holds the bytes the source held before, and nothing else
  has changed.\<close>

theorem memmove_moves:
  assumes "mapped m dst len" and "mapped m src len"
  shows "\<exists>m'. memmove m dst src len = Some m' \<and>
    (\<forall>i < len. m' (dst + i) = m (src + i)) \<and> (\<forall>x. x < dst \<or> dst + len \<le> x \<longrightarrow> m' x = m x)"
  using memmove_spec [OF assms] by (auto simp: moved_def)

lemma all_less_4: "(\<forall>i < 4. Q i) \<longleftrightarrow> Q 0 \<and> Q 1 \<and> Q 2 \<and> Q (3::nat)"
proof -
  have "i < 4 \<Longrightarrow> i = 0 \<or> i = 1 \<or> i = 2 \<or> i = 3" for i :: nat by linarith
  then show ?thesis by auto
qed

theorem memmove_moves_witness:
  "\<exists>m'. memmove example_mem 101 100 4 = Some m' \<and> m' 104 = Some (CHR '' '') \<and> m' 102 = Some (CHR ''a'')"
proof -
  have m: "mapped example_mem 101 4" "mapped example_mem 100 4"
    unfolding mapped_def all_less_4 by (simp_all add: example_mem_def)
  then obtain m' where m': "memmove example_mem 101 100 4 = Some m'"
    "\<forall>i < 4. m' (101 + i) = example_mem (100 + i)" using memmove_moves [OF m] by blast
  have "m' 102 = example_mem 101" "m' 104 = example_mem 103" using m'(2) [rule_format, of 1] m'(2) [rule_format, of 3] by simp_all
  then show ?thesis using m'(1) by (simp add: example_mem_def)
qed

end
