(* ===== verification/Libc_Printf.thy ===== *)
theory Libc_Printf
  imports Libc_String
begin

text \<open>
  The formatted output of \<^verbatim>\<open>lib/libc/__printf.c\<close> and \<^verbatim>\<open>snprintf.c\<close>, and the console output of
  \<^verbatim>\<open>kern/lib/kprintf.c\<close>.  The state machine of \<^verbatim>\<open>__vprintf\<close> is modelled with its state structure, its
  number buffer and its output function, which is a parameter \<open>send\<close> on the client data.  The
  reference is \<open>render\<close>, a definition of what a format string means.  On the target \<^verbatim>\<open>int\<close>, \<^verbatim>\<open>long\<close> and
  pointers are 32 bits wide, and the negation of the least integer wraps.
\<close>

section \<open>Model of the formatter\<close>

text \<open>The arguments as \<^verbatim>\<open>va_arg\<close> hands them out.\<close>

datatype va = VInt "32 word" | VStr "string option"

datatype int_size = INTSZ | LONGSZ

record 'c PF =
  clientdata :: 'c
  ap :: "va list"
  charcount :: int
  in_pct :: bool
  pf_size :: int_size
  num :: "32 word"
  sign :: int
  spacing :: int
  rightspc :: bool
  fillchar :: char
  base :: nat
  baseprefix :: bool
  altformat :: bool

type_synonym 'c sendfunc = "'c \<Rightarrow> string \<Rightarrow> 'c outcome"

definition NUMBER_BUF_SIZE :: nat where
  "NUMBER_BUF_SIZE = (4 * 8) div 3 + 2"

text \<open>The C string in a block: the bytes before the terminator.\<close>

definition c_text :: "string \<Rightarrow> string" where
  "c_text xs = takeWhile (\<lambda>c. c \<noteq> NUL) xs"

definition pf_print :: "'c sendfunc \<Rightarrow> string \<Rightarrow> 'c PF \<Rightarrow> 'c PF outcome" where
  "pf_print send txt pf = do {
     cd \<leftarrow> send (clientdata pf) txt;
     Some (pf\<lparr>clientdata := cd, charcount := wrap32 (charcount pf + int (length txt))\<rparr>)
   }"

definition pf_endfield :: "'c PF \<Rightarrow> 'c PF" where
  "pf_endfield pf = pf\<lparr>in_pct := False, pf_size := INTSZ, num := 0, sign := 0, spacing := 0, rightspc := False,
     fillchar := CHR '' '', base := 0, baseprefix := False, altformat := False\<rparr>"

definition pf_modifier :: "char \<Rightarrow> 'c PF \<Rightarrow> 'c PF outcome" where
  "pf_modifier ch pf =
     (if ch = CHR ''#'' then Some (pf\<lparr>altformat := True\<rparr>)
      else if ch = CHR ''-'' then Some (pf\<lparr>rightspc := True\<rparr>)
      else if ch = CHR ''l'' then Some (if pf_size pf = LONGSZ then pf else pf\<lparr>pf_size := LONGSZ\<rparr>)
      else if ch = CHR ''q'' then Some (pf\<lparr>pf_size := LONGSZ\<rparr>)
      else if ch = CHR ''0'' then
        (if spacing pf > 0 then do {
           kassert (int_ok (spacing pf * 10));
           Some (pf\<lparr>spacing := spacing pf * 10\<rparr>)
         }
         else Some (pf\<lparr>fillchar := CHR ''0''\<rparr>))
      else do {
        kassert (schar ch > schar (CHR ''0'') \<and> schar ch \<le> schar (CHR ''9''));
        kassert (int_ok (spacing pf * 10 + (schar ch - schar (CHR ''0''))));
        Some (pf\<lparr>spacing := spacing pf * 10 + (schar ch - schar (CHR ''0''))\<rparr>)
      })"

fun va_int :: "va list \<Rightarrow> (32 word \<times> va list) outcome" where
  "va_int (VInt w # vs) = Some (w, vs)"
| "va_int _ = None"

fun va_str :: "va list \<Rightarrow> (string option \<times> va list) outcome" where
  "va_str (VStr s # vs) = Some (s, vs)"
| "va_str _ = None"

definition pf_getnum :: "char \<Rightarrow> 'c PF \<Rightarrow> 'c PF outcome" where
  "pf_getnum ch pf =
     (if ch = CHR ''p'' then do {
        (w, vs) \<leftarrow> va_int (ap pf);
        Some (pf\<lparr>ap := vs, num := w\<rparr>)
      }
      else if ch = CHR ''d'' then do {
        (signednum, vs) \<leftarrow> va_int (ap pf);
        if sint signednum < 0 then Some (pf\<lparr>ap := vs, sign := -1, num := - signednum\<rparr>)
        else Some (pf\<lparr>ap := vs, num := signednum\<rparr>)
      }
      else do {
        (w, vs) \<leftarrow> va_int (ap pf);
        Some (pf\<lparr>ap := vs, num := w\<rparr>)
      })"

definition pf_setbase :: "char \<Rightarrow> 'c PF \<Rightarrow> 'c PF" where
  "pf_setbase ch pf =
     (let pf1 = (if ch = CHR ''d'' \<or> ch = CHR ''u'' then pf\<lparr>base := 10\<rparr>
                 else if ch = CHR ''x'' \<or> ch = CHR ''p'' then pf\<lparr>base := 16\<rparr>
                 else if ch = CHR ''o'' then pf\<lparr>base := 8\<rparr> else pf)
      in if altformat pf1 \<or> ch = CHR ''p'' then pf1\<lparr>baseprefix := True\<rparr> else pf1)"

fun pf_fill :: "'c sendfunc \<Rightarrow> nat \<Rightarrow> 'c PF \<Rightarrow> 'c PF outcome" where
  "pf_fill send 0 pf = Some pf"
| "pf_fill send (Suc n) pf = do {
     pf1 \<leftarrow> pf_print send [fillchar pf] pf;
     pf_fill send n pf1
   }"

definition pf_printstuff :: "'c sendfunc \<Rightarrow> string \<Rightarrow> string \<Rightarrow> string \<Rightarrow> 'c PF \<Rightarrow> 'c PF outcome" where
  "pf_printstuff send prefix prefix2 stuff pf = do {
     let len = int (length prefix + length prefix2 + length stuff);
     let spc = (if spacing pf > len then spacing pf - len else 0);
     pf1 \<leftarrow> (if spc > 0 \<and> \<not> rightspc pf \<and> fillchar pf \<noteq> CHR ''0'' then pf_fill send (nat spc) pf else Some pf);
     pf2 \<leftarrow> pf_print send prefix pf1;
     pf3 \<leftarrow> pf_print send prefix2 pf2;
     pf4 \<leftarrow> (if spc > 0 \<and> \<not> rightspc pf3 \<and> fillchar pf3 = CHR ''0'' then pf_fill send (nat spc) pf3 else Some pf3);
     pf5 \<leftarrow> pf_print send stuff pf4;
     if spc > 0 \<and> rightspc pf5 then pf_fill send (nat spc) pf5 else Some pf5
   }"

text \<open>The conversion loop writes digits from right to left; \<open>x\<close> is the offset of the next cell.  A
  write below the buffer or a division by zero is stuck.\<close>

function printnum_loop :: "nat \<Rightarrow> string \<Rightarrow> int \<Rightarrow> nat \<Rightarrow> (string \<times> int) outcome" where
  "printnum_loop b buf x xnum =
     (if b < 2 then None
      else do {
        d \<leftarrow> load_cell ''0123456789abcdef'' (xnum mod b);
        kassert (0 \<le> x);
        buf1 \<leftarrow> store_cell buf (nat x) d;
        if xnum div b > 0 then printnum_loop b buf1 (x - 1) (xnum div b) else Some (buf1, x - 1)
      })"
  by pat_completeness auto
termination
  by (relation "measure (\<lambda>(b, buf, x, xnum). xnum)") (auto simp: not_less intro!: div_less_dividend gr0I)

declare printnum_loop.simps [simp del]

definition number_text :: "nat \<Rightarrow> 32 word \<Rightarrow> string outcome" where
  "number_text b w = do {
     let buf0 = replicate NUMBER_BUF_SIZE (CHR ''?'');
     buf1 \<leftarrow> store_cell buf0 (NUMBER_BUF_SIZE - 1) NUL;
     (buf, x) \<leftarrow> printnum_loop b buf1 (int NUMBER_BUF_SIZE - 2) (unat w);
     Some (c_text (drop (nat (x + 1)) buf))
   }"

definition pf_printnum :: "'c sendfunc \<Rightarrow> 'c PF \<Rightarrow> 'c PF outcome" where
  "pf_printnum send pf = do {
     x \<leftarrow> number_text (base pf) (num pf);
     let bprefix = (if baseprefix pf \<and> base pf = 16 then ''0x''
                    else if baseprefix pf \<and> base pf = 8 then ''0'' else '''');
     let sprefix = (if sign pf \<noteq> 0 then ''-'' else '''');
     pf_printstuff send sprefix bprefix x pf
   }"

definition pf_send :: "'c sendfunc \<Rightarrow> char \<Rightarrow> 'c PF \<Rightarrow> 'c PF outcome" where
  "pf_send send ch pf = do {
     kassert (ch \<noteq> NUL);
     if \<not> in_pct pf \<and> ch \<noteq> CHR ''%'' then pf_print send [ch] pf
     else if \<not> in_pct pf then Some (pf\<lparr>in_pct := True\<rparr>)
     else if lit_strchr ''#-ql0123456789'' ch \<noteq> None then pf_modifier ch pf
     else if lit_strchr ''doupx'' ch \<noteq> None then do {
       pf1 \<leftarrow> pf_getnum ch pf;
       pf2 \<leftarrow> pf_printnum send (pf_setbase ch pf1);
       Some (pf_endfield pf2)
     }
     else if ch = CHR ''s'' then do {
       (str, vs) \<leftarrow> va_str (ap pf);
       pf1 \<leftarrow> pf_printstuff send '''' '''' (case str of None \<Rightarrow> ''(null)'' | Some s \<Rightarrow> c_text s) (pf\<lparr>ap := vs\<rparr>);
       Some (pf_endfield pf1)
     }
     else do {
       (x, pf1) \<leftarrow> (if ch = CHR ''c'' then do {
                      (w, vs) \<leftarrow> va_int (ap pf);
                      Some (char_of (unat w), pf\<lparr>ap := vs\<rparr>)
                    }
                    else Some (ch, pf));
       pf2 \<leftarrow> pf_printstuff send '''' '''' (c_text [x]) pf1;
       Some (pf_endfield pf2)
     }
   }"

fun vprintf_loop :: "'c sendfunc \<Rightarrow> string \<Rightarrow> 'c PF \<Rightarrow> 'c PF outcome" where
  "vprintf_loop send [] pf = Some pf"
| "vprintf_loop send (ch # fmt) pf = do {
     pf1 \<leftarrow> pf_send send ch pf;
     vprintf_loop send fmt pf1
   }"

text \<open>The result is the count of characters and the final client data.\<close>

definition vprintf :: "'c sendfunc \<Rightarrow> 'c \<Rightarrow> string \<Rightarrow> va list \<Rightarrow> (int \<times> 'c) outcome" where
  "vprintf send cd fmt vs = do {
     let pf0 = pf_endfield \<lparr>clientdata = cd, ap = vs, charcount = 0, in_pct = False, pf_size = INTSZ, num = 0,
       sign = 0, spacing = 0, rightspc = False, fillchar = CHR '' '', base = 0, baseprefix = False, altformat = False\<rparr>;
     pf \<leftarrow> vprintf_loop send fmt pf0;
     Some (charcount pf, clientdata pf)
   }"

section \<open>Model of the output functions\<close>

text \<open>\<^verbatim>\<open>snprintf\<close> prints into the caller's block \<open>buf\<close>.\<close>

record SNP =
  snp_buf :: string
  buflen :: nat
  bufpos :: nat

fun snprintf_send :: "SNP \<Rightarrow> string \<Rightarrow> SNP outcome" where
  "snprintf_send snp [] = Some snp"
| "snprintf_send snp (c # data) =
     (if bufpos snp < buflen snp then do {
        b \<leftarrow> store_cell (snp_buf snp) (bufpos snp) c;
        snprintf_send (snp\<lparr>snp_buf := b, bufpos := bufpos snp + 1\<rparr>) data
      }
      else snprintf_send snp data)"

definition vsnprintf :: "string \<Rightarrow> nat \<Rightarrow> string \<Rightarrow> va list \<Rightarrow> (int \<times> string) outcome" where
  "vsnprintf buf len fmt vs = do {
     let snp = \<lparr>snp_buf = buf, buflen = (if len = 0 then 0 else len - 1), bufpos = 0\<rparr>;
     (chars, snp1) \<leftarrow> vprintf snprintf_send snp fmt vs;
     b \<leftarrow> (if len > 0 then store_cell (snp_buf snp1) (bufpos snp1) NUL else Some (snp_buf snp1));
     Some (chars, b)
   }"

definition snprintf :: "string \<Rightarrow> nat \<Rightarrow> string \<Rightarrow> va list \<Rightarrow> (int \<times> string) outcome" where
  "snprintf buf len fmt vs = vsnprintf buf len fmt vs"

text \<open>The console: the characters given to \<^verbatim>\<open>putch\<close>, in order.\<close>

fun console_send :: "string \<Rightarrow> string \<Rightarrow> string outcome" where
  "console_send out [] = Some out"
| "console_send out (c # data) = console_send (out @ [c]) data"

section \<open>What a format string means\<close>

definition is_mod :: "char \<Rightarrow> bool" where
  "is_mod c \<longleftrightarrow> c \<in> set ''#-ql0123456789''"

definition is_digit :: "char \<Rightarrow> bool" where
  "is_digit c \<longleftrightarrow> c \<in> set ''0123456789''"

definition digit_val :: "char \<Rightarrow> int" where
  "digit_val c = schar c - schar (CHR ''0'')"

definition dec_from :: "int \<Rightarrow> string \<Rightarrow> int" where
  "dec_from a ds = fold (\<lambda>d a. a * 10 + digit_val d) ds a"

fun digits_of :: "nat \<Rightarrow> nat \<Rightarrow> string" where
  "digits_of b n = (if b < 2 \<or> n < b then [''0123456789abcdef'' ! n]
     else digits_of b (n div b) @ [''0123456789abcdef'' ! (n mod b)])"

declare digits_of.simps [simp del]

text \<open>Padding of \<open>pre @ stuff\<close> to a field.\<close>

definition pad_field :: "int \<Rightarrow> bool \<Rightarrow> char \<Rightarrow> string \<Rightarrow> string \<Rightarrow> string" where
  "pad_field w left fill pre stuff =
     (let spc = replicate (nat (w - int (length pre + length stuff))) fill
      in if left then pre @ stuff @ spc else if fill = CHR ''0'' then pre @ spc @ stuff else spc @ pre @ stuff)"

text \<open>A conversion: the prefix, the text and the remaining arguments.\<close>

definition convert :: "bool \<Rightarrow> char \<Rightarrow> va list \<Rightarrow> (string \<times> string \<times> va list) option" where
  "convert alt k vs =
     (if k \<in> set ''doupx'' then
        (case vs of
           VInt w # vs' \<Rightarrow> Some
             (if k = CHR ''d'' then (if sint w < 0 then (''-'', digits_of 10 (unat (- w)), vs') else ('''', digits_of 10 (unat w), vs'))
              else if k = CHR ''u'' then ('''', digits_of 10 (unat w), vs')
              else if k = CHR ''o'' then (if alt then ''0'' else '''', digits_of 8 (unat w), vs')
              else (if alt \<or> k = CHR ''p'' then ''0x'' else '''', digits_of 16 (unat w), vs'))
         | _ \<Rightarrow> None)
      else if k = CHR ''s'' then
        (case vs of
           VStr None # vs' \<Rightarrow> Some ('''', ''(null)'', vs')
         | VStr (Some s) # vs' \<Rightarrow> Some ('''', c_text s, vs')
         | _ \<Rightarrow> None)
      else if k = CHR ''c'' then
        (case vs of VInt w # vs' \<Rightarrow> Some ('''', c_text [char_of (unat w)], vs') | _ \<Rightarrow> None)
      else Some ('''', [k], vs))"

text \<open>One field \<open>%mods k\<close>: flags and width from the modifiers.\<close>

definition field_text :: "string \<Rightarrow> char \<Rightarrow> va list \<Rightarrow> (string \<times> va list) option" where
  "field_text mods k vs =
     (let ds = filter is_digit mods; w = dec_from 0 ds in
      if \<not> int_ok w then None
      else do {
        (pre, stuff, vs') \<leftarrow> convert (CHR ''#'' \<in> set mods) k vs;
        Some (pad_field w (CHR ''-'' \<in> set mods) (if ds \<noteq> [] \<and> hd ds = CHR ''0'' then CHR ''0'' else CHR '' '') pre stuff, vs')
      })"

text \<open>The text of a whole format; an unfinished field at the end prints nothing.\<close>

function render :: "string \<Rightarrow> va list \<Rightarrow> string option" where
  "render [] vs = Some []"
| "render (c # cs) vs =
     (if c \<noteq> CHR ''%'' then map_option (\<lambda>out. c # out) (render cs vs)
      else (case dropWhile is_mod cs of
              [] \<Rightarrow> (if int_ok (dec_from 0 (filter is_digit cs)) then Some [] else None)
            | k # rest \<Rightarrow> do {
                (txt, vs') \<leftarrow> field_text (takeWhile is_mod cs) k vs;
                out \<leftarrow> render rest vs';
                Some (txt @ out)
              }))"
  by pat_completeness auto
termination
proof (relation "measure (\<lambda>(f, vs). length f)")
  fix c :: char and cs k rest
  assume "dropWhile is_mod cs = k # rest"
  then have "length (k # rest) \<le> length cs" by (metis length_dropWhile_le)
  then show "\<And>vs' vs. ((rest, vs'), c # cs, vs) \<in> measure (\<lambda>(f, vs). length f)" by simp
qed auto

declare render.simps(2) [simp del]

section \<open>Numbers\<close>

lemma digits_of_length: "2 \<le> b \<Longrightarrow> 0 < j \<Longrightarrow> n < b ^ j \<Longrightarrow> length (digits_of b n) \<le> j"
proof (induction b n arbitrary: j rule: digits_of.induct)
  case (1 b n)
  show ?case
  proof (cases "n < b")
    case True
    then show ?thesis using 1 by (simp add: digits_of.simps)
  next
    case False
    then have "j \<noteq> 1" using 1 by auto
    then obtain i where j: "j = Suc i" "0 < i" using 1 by (cases j) auto
    then have "n div b < b ^ i" using 1(2,4) by (simp add: less_mult_imp_div_less mult.commute)
    then show ?thesis using 1 False j by (subst digits_of.simps) auto
  qed
qed

lemma digits_of_chars: "2 \<le> b \<Longrightarrow> b \<le> 16 \<Longrightarrow> set (digits_of b n) \<subseteq> set ''0123456789abcdef''"
proof (induction b n rule: digits_of.induct)
  case (1 b n)
  define D where "D = ''0123456789abcdef''"
  have D: "D ! k \<in> set D" if "k < b" for k using that 1(3) by (intro nth_mem) (simp add: D_def)
  show ?case using 1 D [of n] D [of "n mod b"] unfolding D_def [symmetric] by (subst digits_of.simps) (auto simp: D_def [symmetric])
qed

lemma printnum_loop_digits:
  assumes "2 \<le> b" "b \<le> 16" "length (digits_of b n) \<le> k + 1" "k < length buf"
  shows "\<exists>buf'. printnum_loop b buf (int k) n = Some (buf', int k - int (length (digits_of b n))) \<and>
    length buf' = length buf \<and> drop (k + 1 - length (digits_of b n)) buf' = digits_of b n @ drop (k + 1) buf"
  using assms
proof (induction n arbitrary: k buf rule: less_induct)
  case (less n)
  let ?d = "''0123456789abcdef'' ! (n mod b)"
  have d: "load_cell ''0123456789abcdef'' (n mod b) = Some ?d"
    using less.prems(1,2) by (intro load_cell_in) (simp add: less_le_trans [OF mod_less_divisor])
  have st: "store_cell buf k ?d = Some (buf[k := ?d])" using less.prems by simp
  have dk: "drop k (buf[k := ?d]) = ?d # drop (k + 1) buf"
    using less.prems(4) by (simp add: drop_update_swap Cons_nth_drop_Suc [symmetric] del: list.sel)
  show ?case
  proof (cases "n < b")
    case True
    then have "digits_of b n = [?d]" using less.prems by (simp add: digits_of.simps)
    moreover have "printnum_loop b buf (int k) n = Some (buf[k := ?d], int k - 1)"
      using True less.prems(1) d st by (subst printnum_loop.simps) simp
    ultimately show ?thesis using dk by simp
  next
    case False
    let ?q = "n div b"
    have q: "?q < n" "0 < ?q" using False less.prems(1) by (auto simp: div_greater_zero_iff)
    have dg: "digits_of b n = digits_of b ?q @ [?d]" using False less.prems(1) by (simp add: digits_of.simps [of b n])
    have "0 < length (digits_of b ?q)" by (subst digits_of.simps) simp
    moreover have len: "length (digits_of b n) = length (digits_of b ?q) + 1" by (simp add: dg)
    ultimately have "0 < k" using less.prems(3) by linarith
    then obtain j where k: "k = Suc j" by (cases k) auto
    have "length (digits_of b ?q) \<le> j + 1" "j < length (buf[k := ?d])" using less.prems(3,4) len k by simp_all
    from less.IH [OF q(1) less.prems(1,2) this] obtain buf' where
      b': "printnum_loop b (buf[k := ?d]) (int j) ?q = Some (buf', int j - int (length (digits_of b ?q)))"
        "length buf' = length buf" "drop (j + 1 - length (digits_of b ?q)) buf' = digits_of b ?q @ drop k (buf[k := ?d])"
      unfolding k by auto
    have "int k - 1 = int j" using k by simp
    then have "printnum_loop b buf (int k) n = Some (buf', int k - int (length (digits_of b n)))"
      using q less.prems(1) d st b'(1) len by (subst printnum_loop.simps) simp
    moreover have "drop (k + 1 - length (digits_of b n)) buf' = digits_of b n @ drop (k + 1) buf"
      using b'(3) dk k len dg by simp
    ultimately show ?thesis using b'(2) by blast
  qed
qed

lemma number_text_digits:
  assumes "b \<in> {8, 10, 16}"
  shows "number_text b w = Some (digits_of b (unat w))"
proof -
  let ?n = "unat w" and ?buf = "replicate 11 (CHR ''?'') @ [NUL]"
  have b: "2 \<le> b" "b \<le> 16" "8 \<le> b" using assms by auto
  have "?n < 2 ^ 32" using unsigned_less [of w, where ?'a = nat] by simp
  also have "\<dots> \<le> (8::nat) ^ 11" by simp
  also have "\<dots> \<le> b ^ 11" by (rule power_mono [OF b(3)]) simp
  finally have len: "length (digits_of b ?n) \<le> 11" using digits_of_length [OF b(1), of 11] by simp
  have buf: "store_cell (replicate NUMBER_BUF_SIZE (CHR ''?'')) (NUMBER_BUF_SIZE - 1) NUL = Some ?buf"
    by code_simp
  obtain buf' where l: "printnum_loop b ?buf (int 10) ?n = Some (buf', int 10 - int (length (digits_of b ?n)))"
    "drop (11 - length (digits_of b ?n)) buf' = digits_of b ?n @ [NUL]"
    using printnum_loop_digits [OF b(1,2), of ?n 10 ?buf] len by auto
  have "NUL \<notin> set (digits_of b ?n)" using digits_of_chars [OF b(1,2), of ?n] by auto
  then have "c_text (digits_of b ?n @ [NUL]) = digits_of b ?n"
    unfolding c_text_def by (subst takeWhile_append2) auto
  moreover have "nat (int 10 - int (length (digits_of b ?n)) + 1) = 11 - length (digits_of b ?n)" using len by auto
  ultimately show ?thesis unfolding number_text_def Let_def buf using l
    by (simp add: NUMBER_BUF_SIZE_def)
qed

section \<open>Modifiers\<close>

lemma dec_from_Cons: "dec_from a (d # ds) = dec_from (a * 10 + digit_val d) ds"
  by (simp add: dec_from_def)

lemma dec_from_Nil [simp]: "dec_from a [] = a"
  by (simp add: dec_from_def)

lemma digit_val_bounds: "is_digit c \<Longrightarrow> 0 \<le> digit_val c \<and> digit_val c \<le> 9"
  by (auto simp: is_digit_def digit_val_def schar_def)

lemma dec_from_mono: "0 \<le> a \<Longrightarrow> (\<forall>d \<in> set ds. is_digit d) \<Longrightarrow> a \<le> dec_from a ds"
proof (induction ds arbitrary: a)
  case (Cons d ds)
  then have d: "0 \<le> digit_val d" using digit_val_bounds by simp
  then have "a * 10 + digit_val d \<le> dec_from (a * 10 + digit_val d) ds" using Cons by simp
  then show ?case using d Cons.prems(1) unfolding dec_from_Cons by linarith
qed simp

text \<open>The state after the modifiers \<open>ms\<close>.\<close>

definition fill_after :: "int \<Rightarrow> char \<Rightarrow> string \<Rightarrow> char" where
  "fill_after a f ds = (if a = 0 \<and> ds \<noteq> [] \<and> hd ds = CHR ''0'' then CHR ''0'' else f)"

definition mods_state :: "string \<Rightarrow> 'c PF \<Rightarrow> 'c PF" where
  "mods_state ms pf = pf\<lparr>altformat := altformat pf \<or> CHR ''#'' \<in> set ms, rightspc := rightspc pf \<or> CHR ''-'' \<in> set ms,
     pf_size := (if CHR ''l'' \<in> set ms \<or> CHR ''q'' \<in> set ms then LONGSZ else pf_size pf),
     spacing := dec_from (spacing pf) (filter is_digit ms),
     fillchar := fill_after (spacing pf) (fillchar pf) (filter is_digit ms)\<rparr>"

lemma modifier_digit:
  assumes "is_digit c" "0 \<le> spacing pf" "int_ok (spacing pf)"
  shows "pf_modifier c pf =
    (if int_ok (spacing pf * 10 + digit_val c)
     then Some (pf\<lparr>spacing := spacing pf * 10 + digit_val c, fillchar := fill_after (spacing pf) (fillchar pf) [c]\<rparr>) else None)"
proof (cases "c = CHR ''0''")
  case True
  then show ?thesis using assms(2,3) by (auto simp: pf_modifier_def digit_val_def fill_after_def kassert_def int_ok_def)
next
  case False
  then have "schar (CHR ''0'') < schar c" "schar c \<le> schar (CHR ''9'')"
    using assms(1) by (auto simp: is_digit_def schar_def)
  moreover have "c \<noteq> CHR ''#''" "c \<noteq> CHR ''-''" "c \<noteq> CHR ''l''" "c \<noteq> CHR ''q''" using assms(1) by (auto simp: is_digit_def)
  ultimately show ?thesis using False by (auto simp: pf_modifier_def digit_val_def fill_after_def kassert_def)
qed

lemma lit_strchr_set: "ch \<noteq> NUL \<Longrightarrow> lit_strchr xs ch \<noteq> None \<longleftrightarrow> ch \<in> set xs"
  using lit_strchr_None [of xs ch] by auto

lemma send_mods:
  assumes "\<forall>c \<in> set ms. is_mod c" "in_pct pf" "0 \<le> spacing pf" "int_ok (spacing pf)"
  shows "vprintf_loop send (ms @ rest) pf =
    (if int_ok (dec_from (spacing pf) (filter is_digit ms)) then vprintf_loop send rest (mods_state ms pf) else None)"
  using assms
proof (induction ms arbitrary: pf)
  case Nil
  then show ?case by (simp add: mods_state_def fill_after_def)
next
  case (Cons c ms)
  have c: "c \<noteq> NUL" "lit_strchr ''#-ql0123456789'' c \<noteq> None"
    using Cons.prems(1) lit_strchr_set [of c "''#-ql0123456789''"] by (auto simp: is_mod_def)
  have step: "pf_send send c pf = pf_modifier c pf" using c Cons.prems(2) by (auto simp: pf_send_def)
  show ?case
  proof (cases "is_digit c")
    case True
    let ?a = "spacing pf * 10 + digit_val c"
    let ?pf = "pf\<lparr>spacing := ?a, fillchar := fill_after (spacing pf) (fillchar pf) [c]\<rparr>"
    have a: "0 \<le> ?a" using digit_val_bounds [OF True] Cons.prems(3) by simp
    have nm: "c \<notin> {CHR ''#'', CHR ''-'', CHR ''l'', CHR ''q''}" using True by (auto simp: is_digit_def)
    have mono: "?a \<le> dec_from ?a (filter is_digit ms)" using dec_from_mono [OF a] by simp
    have z: "?a = 0 \<longleftrightarrow> spacing pf = 0 \<and> c = CHR ''0''"
      using True Cons.prems(3) by (auto simp: is_digit_def digit_val_def schar_def)
    have st: "mods_state (c # ms) pf = mods_state ms ?pf"
      using True nm z by (auto simp: mods_state_def dec_from_Cons fill_after_def)
    show ?thesis
    proof (cases "int_ok ?a")
      case ok: True
      have "vprintf_loop send (ms @ rest) ?pf =
        (if int_ok (dec_from ?a (filter is_digit ms)) then vprintf_loop send rest (mods_state ms ?pf) else None)"
        using Cons.IH [of ?pf] Cons.prems a ok by simp
      then show ?thesis using step modifier_digit [OF True Cons.prems(3,4)] ok st True by (simp add: dec_from_Cons)
    next
      case False
      then have "\<not> int_ok (dec_from ?a (filter is_digit ms))" using mono a by (auto simp: int_ok_def)
      then show ?thesis using step modifier_digit [OF True Cons.prems(3,4)] False True by (simp add: dec_from_Cons)
    qed
  next
    case False
    let ?pf = "pf\<lparr>altformat := altformat pf \<or> c = CHR ''#'', rightspc := rightspc pf \<or> c = CHR ''-'',
      pf_size := (if c = CHR ''l'' \<or> c = CHR ''q'' then LONGSZ else pf_size pf)\<rparr>"
    have cs: "c \<in> {CHR ''#'', CHR ''-'', CHR ''l'', CHR ''q''}" using False Cons.prems(1) by (auto simp: is_mod_def is_digit_def)
    then have "pf_modifier c pf = Some ?pf" by (cases "pf_size pf") (auto simp: pf_modifier_def)
    moreover have "mods_state (c # ms) pf = mods_state ms ?pf"
    proof -
      have "filter is_digit (c # ms) = filter is_digit ms" using False by simp
      then show ?thesis unfolding mods_state_def by (rule ssubst) (simp add: disj_commute disj_left_commute eq_commute [of c])
    qed
    ultimately show ?thesis using step Cons.IH [of ?pf] Cons.prems False by simp
  qed
qed

lemma reset_fields:
  assumes "pf_endfield pf = pf"
  shows "\<not> in_pct pf" "pf_size pf = INTSZ" "num pf = 0" "sign pf = 0" "spacing pf = 0" "\<not> rightspc pf"
    "fillchar pf = CHR '' ''" "base pf = 0" "\<not> baseprefix pf" "\<not> altformat pf"
  using assms by (cases pf; simp add: pf_endfield_def)+

lemma endfield_upd [simp]:
  "pf_endfield (pf\<lparr>in_pct := a\<rparr>) = pf_endfield pf" "pf_endfield (pf\<lparr>pf_size := b\<rparr>) = pf_endfield pf"
  "pf_endfield (pf\<lparr>num := c\<rparr>) = pf_endfield pf" "pf_endfield (pf\<lparr>sign := d\<rparr>) = pf_endfield pf"
  "pf_endfield (pf\<lparr>base := e\<rparr>) = pf_endfield pf" "pf_endfield (pf\<lparr>baseprefix := f\<rparr>) = pf_endfield pf"
  "pf_endfield (pf\<lparr>ap := vs\<rparr>) = (pf_endfield pf)\<lparr>ap := vs\<rparr>" "pf_endfield (mods_state ms pf) = pf_endfield pf"
  by (cases pf; simp add: pf_endfield_def mods_state_def)+

section \<open>The formatter against the reference\<close>

text \<open>Printing \<open>out\<close> and looking at what the caller of \<^verbatim>\<open>__vprintf\<close> sees.\<close>

definition seen :: "'c sendfunc \<Rightarrow> 'c PF \<Rightarrow> string \<Rightarrow> (int \<times> 'c) outcome" where
  "seen send pf out = map_option (\<lambda>cd. (wrap32 (charcount pf + int (length out)), cd)) (send (clientdata pf) out)"

text \<open>An output function that does not depend on how the text is cut into pieces.\<close>

locale sink =
  fixes send :: "'c sendfunc"
  assumes send_Nil: "send cd [] = Some cd"
    and send_append: "send cd (xs @ ys) = send cd xs \<bind> (\<lambda>cd1. send cd1 ys)"
begin

lemma wrap32_add: "wrap32 (wrap32 a + b) = wrap32 (a + b)"
  by (simp add: wrap32_def mod_simps algebra_simps)

lemma print_append: "pf_print send (xs @ ys) pf = pf_print send xs pf \<bind> pf_print send ys"
  by (simp add: pf_print_def send_append Option.bind_assoc wrap32_add add.assoc comp_def)

lemma print_keeps:
  "pf_print send t pf = Some pf' \<Longrightarrow> pf'\<lparr>clientdata := clientdata pf, charcount := charcount pf\<rparr> = pf"
  by (auto simp: pf_print_def bind_eq_Some_conv)

lemma print_fields:
  assumes "pf_print send t pf = Some pf'"
  shows "rightspc pf' = rightspc pf" "fillchar pf' = fillchar pf" "spacing pf' = spacing pf"
  using assms by (auto simp: pf_print_def bind_eq_Some_conv)

lemma fill_print: "pf_fill send (Suc n) pf = pf_print send (replicate (Suc n) (fillchar pf)) pf"
proof (induction n arbitrary: pf)
  case 0
  show ?case by (cases "pf_print send [fillchar pf] pf") simp_all
next
  case (Suc n)
  have "pf_fill send (Suc (Suc n)) pf = pf_print send [fillchar pf] pf \<bind> pf_fill send (Suc n)" by simp
  also have "\<dots> = pf_print send [fillchar pf] pf \<bind> pf_print send (replicate (Suc n) (fillchar pf))"
    by (rule Option.bind_cong [OF refl]) (simp only: Suc print_fields(2))
  also have "\<dots> = pf_print send ([fillchar pf] @ replicate (Suc n) (fillchar pf)) pf" by (rule print_append [symmetric])
  finally show ?case by simp
qed

lemma print_append_fun: "pf_print send (xs @ ys) = (\<lambda>pf. pf_print send xs pf \<bind> pf_print send ys)"
  by (rule ext) (rule print_append)

lemma printstuff_print:
  "pf_printstuff send prefix prefix2 stuff pf =
     pf_print send (pad_field (spacing pf) (rightspc pf) (fillchar pf) (prefix @ prefix2) stuff) pf"
proof -
  define len where "len = int (length prefix + length prefix2 + length stuff)"
  define n where "n = nat (spacing pf - len)"
  define f where "f = fillchar pf"
  define mid where "mid = (\<lambda>pf3. if 0 < n \<and> \<not> rightspc pf \<and> f = CHR ''0'' then pf_print send (replicate n f) pf3 else Some pf3)"
  define fin where "fin = (\<lambda>pf5. if 0 < n \<and> rightspc pf then pf_print send (replicate n f) pf5 else Some pf5)"
  have spc: "(0 < (if len < spacing pf then spacing pf - len else 0)) = (0 < n)"
    "nat (if len < spacing pf then spacing pf - len else 0) = n" by (auto simp: n_def)
  have fill: "pf_fill send n pf' = pf_print send (replicate n (fillchar pf')) pf'" if "0 < n" for pf'
    using fill_print [of "n - 1" pf'] that by simp
  have "pf_printstuff send prefix prefix2 stuff pf =
      (if 0 < n \<and> \<not> rightspc pf \<and> f \<noteq> CHR ''0'' then pf_print send (replicate n f) pf else Some pf) \<bind>
      (\<lambda>pf1. pf_print send prefix pf1 \<bind> (\<lambda>pf2. pf_print send prefix2 pf2 \<bind> (\<lambda>pf3. mid pf3 \<bind> (\<lambda>pf4.
         pf_print send stuff pf4 \<bind> fin))))"
    unfolding pf_printstuff_def Let_def len_def [symmetric] spc mid_def fin_def f_def
    by (intro Option.bind_cong refl) (auto simp: fill print_fields split: if_splits)
  also have "\<dots> = pf_print send (pad_field (spacing pf) (rightspc pf) (fillchar pf) (prefix @ prefix2) stuff) pf"
  proof -
    have n: "nat (spacing pf - int (length (prefix @ prefix2) + length stuff)) = n" by (simp add: n_def len_def)
    show ?thesis unfolding pad_field_def n Let_def mid_def fin_def f_def [symmetric]
      by (cases "0 < n"; cases "rightspc pf"; cases "f = CHR ''0''") (simp_all add: print_append_fun Option.bind_assoc)
  qed
  finally show ?thesis .
qed

lemma print_endfield: "(pf_print send t q \<bind> (\<lambda>pf. Some (pf_endfield pf))) = pf_print send t (pf_endfield q)"
  by (cases q) (simp add: pf_print_def Option.bind_assoc pf_endfield_def)

lemma send_field:
  assumes pf: "pf_endfield pf = pf" and k: "k \<noteq> NUL" "\<not> is_mod k"
    and ds_def: "ds = filter is_digit ms"
  shows "pf_send send k (mods_state ms (pf\<lparr>in_pct := True\<rparr>)) =
    (convert (CHR ''#'' \<in> set ms) k (ap pf) \<bind> (\<lambda>(pre, stuff, vs).
       pf_print send (pad_field (dec_from 0 ds) (CHR ''-'' \<in> set ms)
         (if ds \<noteq> [] \<and> hd ds = CHR ''0'' then CHR ''0'' else CHR '' '') pre stuff) (pf\<lparr>ap := vs\<rparr>)))"
proof -
  define q where "q = mods_state ms (pf\<lparr>in_pct := True\<rparr>)"
  note r = reset_fields [OF pf]
  have q: "in_pct q" "spacing q = dec_from 0 ds" "rightspc q = (CHR ''-'' \<in> set ms)" "ap q = ap pf" "sign q = 0"
    "altformat q = (CHR ''#'' \<in> set ms)" "fillchar q = (if ds \<noteq> [] \<and> hd ds = CHR ''0'' then CHR ''0'' else CHR '' '')"
    "\<not> baseprefix q"
    using r by (simp_all add: q_def mods_state_def ds_def fill_after_def)
  have qe: "pf_endfield q = pf" by (simp add: q_def pf)
  have nomod: "lit_strchr ''#-ql0123456789'' k = None" using k lit_strchr_None [of "''#-ql0123456789''" k] by (simp add: is_mod_def)
  have inum: "(lit_strchr ''doupx'' k \<noteq> None) = (k \<in> set ''doupx'')" by (rule lit_strchr_set [OF k(1)])
  have send: "pf_send send k q =
    (if k \<in> set ''doupx'' then pf_getnum k q \<bind> (\<lambda>pf1. pf_printnum send (pf_setbase k pf1) \<bind> (\<lambda>pf2. Some (pf_endfield pf2)))
     else if k = CHR ''s'' then va_str (ap q) \<bind> (\<lambda>(str, vs). pf_printstuff send [] []
       (case str of None \<Rightarrow> ''(null)'' | Some s \<Rightarrow> c_text s) (q\<lparr>ap := vs\<rparr>) \<bind> (\<lambda>pf1. Some (pf_endfield pf1)))
     else (if k = CHR ''c'' then va_int (ap q) \<bind> (\<lambda>(w, vs). Some (char_of (unat w), q\<lparr>ap := vs\<rparr>)) else Some (k, q)) \<bind>
       (\<lambda>(x, pf1). pf_printstuff send [] [] (c_text [x]) pf1 \<bind> (\<lambda>pf2. Some (pf_endfield pf2))))"
    unfolding pf_send_def inum using k q(1) nomod by simp
  have stuff: "(pf_printstuff send a b t p \<bind> (\<lambda>pf1. Some (pf_endfield pf1))) =
      pf_print send (pad_field (spacing p) (rightspc p) (fillchar p) (a @ b) t) (pf_endfield p)" for a b t p
    by (simp add: printstuff_print print_endfield)
  have ctext: "c_text [k] = [k]" using k(1) by (simp add: c_text_def)
  define pad where "pad = pad_field (spacing q) (rightspc q) (fillchar q)"
  have pad: "pad_field (dec_from 0 ds) (CHR ''-'' \<in> set ms)
      (if ds \<noteq> [] \<and> hd ds = CHR ''0'' then CHR ''0'' else CHR '' '') = pad" by (simp add: pad_def q)
  have stuffq: "(pf_printstuff send a b t p \<bind> (\<lambda>pf1. Some (pf_endfield pf1))) = pf_print send (pad (a @ b) t) (pf_endfield p)"
    if "spacing p = spacing q" "rightspc p = rightspc q" "fillchar p = fillchar q" for a b t p
    using that by (simp add: stuff pad_def)
  show ?thesis
  proof (cases "k \<in> set ''doupx'' \<or> k = CHR ''s'' \<or> k = CHR ''c''")
    case False
    then show ?thesis unfolding q_def [symmetric] send pad using q(4) qe ctext by (simp add: convert_def stuffq)
  next
    case k: True
    show ?thesis
    proof (cases "ap pf")
      case Nil
      then show ?thesis unfolding q_def [symmetric] send pad using q(4) k
        by (auto simp: convert_def pf_getnum_def)
    next
      case (Cons v vs)
      then show ?thesis unfolding q_def [symmetric] send pad using q(4,5,6,8) qe k
        by (cases v) (auto simp: convert_def pf_getnum_def pf_setbase_def Let_def pf_printnum_def stuffq number_text_digits
          split: option.splits)
    qed
  qed
qed

lemma seen_append:
  "seen send pf (xs @ ys) = (pf_print send xs pf \<bind> (\<lambda>pf1. seen send pf1 ys))"
  by (cases "send (clientdata pf) xs") (simp_all add: seen_def pf_print_def send_append wrap32_add add.assoc)

lemma print_reset:
  assumes "pf_print send t pf = Some pf1" "pf_endfield pf = pf"
  shows "pf_endfield pf1 = pf1" "ap pf1 = ap pf" "wrap32 (charcount pf1) = charcount pf1"
proof -
  have "pf_print send t pf = pf_print send t pf \<bind> (\<lambda>pf. Some (pf_endfield pf))" by (simp add: print_endfield assms(2))
  then show "pf_endfield pf1 = pf1" using assms(1) by simp
  show "ap pf1 = ap pf" "wrap32 (charcount pf1) = charcount pf1"
    using assms(1) wrap32_add [of "charcount pf + int (length t)" 0] by (auto simp: pf_print_def bind_eq_Some_conv)
qed

lemma loop_percent:
  assumes "pf_endfield pf = pf"
  shows "vprintf_loop send (CHR ''%'' # cs) pf = (if int_ok (dec_from 0 (filter is_digit (takeWhile is_mod cs)))
    then vprintf_loop send (dropWhile is_mod cs) (mods_state (takeWhile is_mod cs) (pf\<lparr>in_pct := True\<rparr>)) else None)"
proof -
  let ?q = "pf\<lparr>in_pct := True\<rparr>" and ?ms = "takeWhile is_mod cs" and ?rest = "dropWhile is_mod cs"
  note r = reset_fields [OF assms]
  have "vprintf_loop send (?ms @ ?rest) ?q = (if int_ok (dec_from (spacing ?q) (filter is_digit ?ms))
      then vprintf_loop send ?rest (mods_state ?ms ?q) else None)"
    by (rule send_mods) (use r in \<open>auto simp: int_ok_def dest: set_takeWhileD\<close>)
  then show ?thesis using r by (simp add: pf_send_def)
qed

lemma loop_field:
  assumes pf: "pf_endfield pf = pf" and cs: "dropWhile is_mod cs = k # rest" and nul: "NUL \<notin> set cs"
  shows "vprintf_loop send (CHR ''%'' # cs) pf =
    (field_text (takeWhile is_mod cs) k (ap pf) \<bind> (\<lambda>(t, vs). pf_print send t (pf\<lparr>ap := vs\<rparr>) \<bind> vprintf_loop send rest))"
proof -
  let ?ms = "takeWhile is_mod cs"
  have k: "k \<noteq> NUL" "\<not> is_mod k" using cs nul set_dropWhileD [of k is_mod cs] hd_dropWhile [of is_mod cs] by auto
  note sf = send_field [OF pf k refl, of ?ms]
  show ?thesis
  proof (cases "int_ok (dec_from 0 (filter is_digit ?ms))")
    case False
    then show ?thesis unfolding loop_percent [OF pf] cs by (simp add: field_text_def Let_def)
  next
    case True
    then show ?thesis unfolding loop_percent [OF pf] cs
      by (cases "convert (CHR ''#'' \<in> set ?ms) k (ap pf)") (auto simp: field_text_def Let_def sf)
  qed
qed

lemma loop_render:
  assumes "pf_endfield pf = pf" "wrap32 (charcount pf) = charcount pf" "NUL \<notin> set fmt"
  shows "map_option (\<lambda>pf. (charcount pf, clientdata pf)) (vprintf_loop send fmt pf) = render fmt (ap pf) \<bind> seen send pf"
  using assms
proof (induction fmt "ap pf" arbitrary: pf rule: render.induct)
  case 1
  then show ?case by (simp add: seen_def send_Nil)
next
  case (2 c cs)
  have print: "map_option (\<lambda>pf. (charcount pf, clientdata pf)) (pf_print send t (pf\<lparr>ap := vs\<rparr>) \<bind> vprintf_loop send rest) =
      render rest vs \<bind> (\<lambda>out. seen send pf (t @ out))"
    if IH: "\<And>pf1. vs = ap pf1 \<Longrightarrow> pf_endfield pf1 = pf1 \<Longrightarrow> wrap32 (charcount pf1) = charcount pf1 \<Longrightarrow>
      map_option (\<lambda>pf. (charcount pf, clientdata pf)) (vprintf_loop send rest pf1) = render rest (ap pf1) \<bind> seen send pf1" for t vs rest
  proof -
    have pa: "pf_endfield (pf\<lparr>ap := vs\<rparr>) = pf\<lparr>ap := vs\<rparr>" using 2(3) by simp
    have "seen send (pf\<lparr>ap := vs\<rparr>) = seen send pf" by (rule ext) (simp add: seen_def)
    then have sa: "seen send pf (t @ out) = (pf_print send t (pf\<lparr>ap := vs\<rparr>) \<bind> (\<lambda>pf1. seen send pf1 out))" for out
      using seen_append [of "pf\<lparr>ap := vs\<rparr>" t out] by simp
    show ?thesis
    proof (cases "pf_print send t (pf\<lparr>ap := vs\<rparr>)")
      case (Some pf1)
      then show ?thesis using IH [of pf1] print_reset [OF Some pa] by (simp add: sa)
    qed (simp add: sa Option.bind_eq_None_conv)
  qed
  show ?case
  proof (cases "c = CHR ''%''")
    case False
    have step: "pf_send send c pf = pf_print send [c] (pf\<lparr>ap := ap pf\<rparr>)"
      using reset_fields [OF 2(3)] 2(5) False by (auto simp: pf_send_def)
    then show ?thesis using print [of "ap pf" cs "[c]"] 2(1) [OF False] 2(5) False
      by (cases "render cs (ap pf)") (simp_all add: render.simps(2))
  next
    case True
    show ?thesis
    proof (cases "dropWhile is_mod cs")
      case Nil
      then have ms: "takeWhile is_mod cs = cs" by (metis append_Nil2 takeWhile_dropWhile_id)
      show ?thesis unfolding True loop_percent [OF 2(3)] render.simps(2) Nil ms
        using 2(4) by (simp add: seen_def send_Nil mods_state_def)
    next
      case (Cons k rest)
      have rest: "NUL \<notin> set rest" using Cons 2(5) set_dropWhileD [of NUL is_mod cs] by auto
      show ?thesis
      proof (cases "field_text (takeWhile is_mod cs) k (ap pf)")
        case None
        then show ?thesis unfolding True loop_field [OF 2(3) Cons 2(5) [simplified, THEN conjunct2]] render.simps(2) Cons by simp
      next
        case (Some tv)
        obtain t vs where tv: "tv = (t, vs)" by (cases tv)
        have "map_option (\<lambda>pf. (charcount pf, clientdata pf)) (pf_print send t (pf\<lparr>ap := vs\<rparr>) \<bind> vprintf_loop send rest) =
          render rest vs \<bind> (\<lambda>out. seen send pf (t @ out))"
          by (rule print) (use 2(2) [of k rest "(t, vs)" t] True Cons Some tv rest in auto)
        then show ?thesis
          using Some unfolding True loop_field [OF 2(3) Cons 2(5) [simplified, THEN conjunct2]] render.simps(2) Cons tv by simp
      qed
    qed
  qed
qed

lemma vprintf_render:
  assumes "NUL \<notin> set fmt"
  shows "vprintf send cd fmt vs =
    (render fmt vs \<bind> (\<lambda>out. send cd out \<bind> (\<lambda>cd'. Some (wrap32 (int (length out)), cd'))))"
proof -
  define pf where "pf = pf_endfield \<lparr>clientdata = cd, ap = vs, charcount = 0, in_pct = False, pf_size = INTSZ, num = 0,
       sign = 0, spacing = 0, rightspc = False, fillchar = CHR '' '', base = 0, baseprefix = False, altformat = False\<rparr>"
  have pf: "pf_endfield pf = pf" "charcount pf = 0" "ap pf = vs" "clientdata pf = cd" by (simp_all add: pf_def pf_endfield_def)
  have "vprintf send cd fmt vs = map_option (\<lambda>pf. (charcount pf, clientdata pf)) (vprintf_loop send fmt pf)"
    by (cases "vprintf_loop send fmt pf") (simp_all add: vprintf_def pf_def)
  also have "\<dots> = render fmt vs \<bind> seen send pf"
    using loop_render [OF pf(1) _ assms] pf(2,3) by (simp add: wrap32_def)
  finally show ?thesis using pf by (simp add: seen_def map_option_case Option.bind_eq_None_conv cong: Option.bind_cong)
      (auto intro!: Option.bind_cong split: option.splits)
qed

end

section \<open>The output functions are sinks\<close>

lemma snprintf_send_append:
  "snprintf_send snp (xs @ ys) = snprintf_send snp xs \<bind> (\<lambda>snp1. snprintf_send snp1 ys)"
  by (induction xs arbitrary: snp) (auto simp: Option.bind_assoc)

lemma console_send_eq: "console_send out xs = Some (out @ xs)"
  by (induction xs arbitrary: out) auto

interpretation snp: sink snprintf_send
  by unfold_locales (simp_all add: snprintf_send_append)

interpretation con: sink console_send
  by unfold_locales (simp_all add: console_send_eq)

lemma snprintf_send_spec:
  assumes "buflen snp \<le> length (snp_buf snp)" "bufpos snp \<le> buflen snp"
    and n: "n = min (length xs) (buflen snp - bufpos snp)"
  shows "snprintf_send snp xs = Some (snp\<lparr>snp_buf := take (bufpos snp) (snp_buf snp) @ take n xs @ drop (bufpos snp + n) (snp_buf snp),
    bufpos := bufpos snp + n\<rparr>)"
  using assms(1,2) unfolding n
proof (induction xs arbitrary: snp)
  case (Cons c xs)
  show ?case
  proof (cases "bufpos snp < buflen snp")
    case True
    let ?s = "snp\<lparr>snp_buf := (snp_buf snp)[bufpos snp := c], bufpos := bufpos snp + 1\<rparr>"
    have min: "min (length (c # xs)) (buflen snp - bufpos snp) = Suc (min (length xs) (buflen ?s - bufpos ?s))" using True by simp
    have tk: "take (bufpos snp + 1) ((snp_buf snp)[bufpos snp := c]) = take (bufpos snp) (snp_buf snp) @ [c]"
      using take_Suc_update [of "bufpos snp" "snp_buf snp" c] Cons.prems(1) True by simp
    have IH: "snprintf_send ?s xs = Some (?s\<lparr>snp_buf := take (bufpos snp + 1) (snp_buf ?s) @
        take (min (length xs) (buflen ?s - bufpos ?s)) xs @ drop (bufpos snp + 1 + min (length xs) (buflen ?s - bufpos ?s)) (snp_buf ?s),
        bufpos := bufpos snp + 1 + min (length xs) (buflen ?s - bufpos ?s)\<rparr>)"
      using Cons.IH [of ?s] Cons.prems True by simp
    have "snprintf_send snp (c # xs) = snprintf_send ?s xs" using True Cons.prems(1) by simp
    then show ?thesis unfolding IH min using tk by simp
  next
    case False
    then have "buflen snp - bufpos snp = 0" by simp
    then show ?thesis using False Cons by simp
  qed
qed simp

section \<open>Properties\<close>



text \<open>C28. \<^verbatim>\<open>snprintf\<close> never writes outside the buffer it is given: into a block of at least \<open>len\<close> bytes it
  stores the first \<open>len - 1\<close> characters of the output and a terminator, leaves the rest of the block
  as it was, touches nothing when \<open>len\<close> is 0, and returns the length of the untruncated output.\<close>

theorem snprintf_bounded:
  assumes "NUL \<notin> set fmt" and "render fmt vs = Some out" and "len \<le> length buf"
  shows "snprintf buf len fmt vs = Some (wrap32 (int (length out)),
    if len = 0 then buf else take (len - 1) out @ NUL # drop (min (len - 1) (length out) + 1) buf)"
proof (cases "len = 0")
  case True
  then have "snprintf_send \<lparr>snp_buf = buf, buflen = 0, bufpos = 0\<rparr> out = Some \<lparr>snp_buf = buf, buflen = 0, bufpos = 0\<rparr>"
    using snprintf_send_spec [of "\<lparr>snp_buf = buf, buflen = 0, bufpos = 0\<rparr>" 0 out] by simp
  then show ?thesis using True snp.vprintf_render [OF assms(1)] assms(2)
    by (simp add: snprintf_def vsnprintf_def)
next
  case False
  let ?s = "\<lparr>snp_buf = buf, buflen = len - 1, bufpos = 0\<rparr>" and ?n = "min (length out) (len - 1)"
  have send: "snprintf_send ?s out = Some (?s\<lparr>snp_buf := take ?n out @ drop ?n buf, bufpos := ?n\<rparr>)"
    using snprintf_send_spec [of ?s ?n out] assms(3) by simp
  have lt: "?n < length buf" using False assms(3) by auto
  then have "drop ?n buf = buf ! ?n # drop (?n + 1) buf" by (simp add: Cons_nth_drop_Suc)
  then have upd: "(take ?n out @ drop ?n buf)[?n := NUL] = take ?n out @ NUL # drop (?n + 1) buf"
    by (simp add: list_update_append)
  have "store_cell (take ?n out @ drop ?n buf) ?n NUL = Some (take ?n out @ NUL # drop (?n + 1) buf)"
    using lt upd by (simp add: store_cell_def)
  moreover have "take ?n out = take (len - 1) out" by (cases "length out \<le> len - 1") auto
  ultimately show ?thesis using False snp.vprintf_render [OF assms(1)] assms(2) send
    by (simp add: snprintf_def vsnprintf_def min.commute)
qed

theorem snprintf_bounded_witness:
  "snprintf ''????'' 3 ''abc'' [] = Some (3, ''ab'' @ [NUL] @ ''?'')"
  using snprintf_bounded [of "''abc''" "[]" "''abc''" 3 "''????''"]
  by (simp add: render.simps(2) wrap32_def)

text \<open>Left alignment combined with a leading zero appends zeros to the number: \<^verbatim>\<open>%-05d\<close> of 42 prints
  as 42000, because the padding on the right also uses the fill character.\<close>

theorem left_align_pads_zeros:
  "vprintf console_send [] ''%-05d'' [VInt 42] = Some (5, ''42000'')"
proof -
  have d: "digits_of 10 (unat (42 :: 32 word)) = ''42''" by (simp add: digits_of.simps)
  have "render ''%-05d'' [VInt 42] = Some ''42000''"
    using d by (simp add: render.simps(2) is_mod_def field_text_def is_digit_def dec_from_def digit_val_def schar_def
        int_ok_def convert_def pad_field_def eval_nat_numeral Let_def)
  then show ?thesis using con.vprintf_render [of "''%-05d''" "[]" "[VInt 42]"] by (simp add: console_send_eq wrap32_def)
qed

section \<open>Printing and parsing decimal numbers\<close>

lemma less_10_cases: "k < 10 \<Longrightarrow> k = 0 \<or> k = 1 \<or> k = 2 \<or> k = 3 \<or> k = 4 \<or> k = 5 \<or> k = 6 \<or> k = 7 \<or> k = 8 \<or> k = (9::nat)"
  by auto

lemma digit_lookup: "k < 10 \<Longrightarrow> lit_strchr ''0123456789'' (''0123456789abcdef'' ! k) = Some k"
  using less_10_cases [of k] by auto

definition atoi_step :: "char \<Rightarrow> 32 word \<Rightarrow> 32 word" where
  "atoi_step c val = val * 10 + of_nat (the (lit_strchr ''0123456789'' c))"

lemma atoi_digits_fold:
  "cstr m p ds \<Longrightarrow> \<forall>c \<in> set ds. lit_strchr ''0123456789'' c \<noteq> None \<Longrightarrow> atoi_digits m p val = Some (fold atoi_step ds val)"
proof (induction ds arbitrary: p val)
  case Nil
  then show ?case by (subst atoi_digits.simps) simp
next
  case (Cons c ds)
  then obtain i where i: "lit_strchr ''0123456789'' c = Some i" by auto
  have "atoi_digits m (p + 1) (val * 10 + of_nat i) = Some (fold atoi_step ds (val * 10 + of_nat i))" using Cons by simp
  then show ?case using Cons.prems(1) i by (subst atoi_digits.simps) (simp add: atoi_step_def del: lit_strchr.simps)
qed

lemma digits_of_10: "\<forall>c \<in> set (digits_of 10 n). \<exists>k < 10. c = ''0123456789abcdef'' ! k"
proof (induction n rule: less_induct)
  case (less n)
  show ?case
  proof (cases "n < 10")
    case True
    then show ?thesis by (subst digits_of.simps) auto
  next
    case False
    have "\<exists>k < 10. ''0123456789abcdef'' ! (n mod 10) = ''0123456789abcdef'' ! k" by (rule exI [of _ "n mod 10"]) simp
    then show ?thesis using False less [of "n div 10"] by (subst digits_of.simps) auto
  qed
qed

lemma fold_digits: "fold atoi_step (digits_of 10 n) 0 = of_nat n"
proof (induction n rule: less_induct)
  case (less n)
  have step: "atoi_step (''0123456789abcdef'' ! k) v = v * 10 + of_nat k" if "k < 10" for k v
    using digit_lookup [OF that] by (simp add: atoi_step_def del: lit_strchr.simps)
  show ?case
  proof (cases "n < 10")
    case True
    then show ?thesis using step [of n 0] by (subst digits_of.simps) simp
  next
    case False
    have "of_nat (n div 10) * 10 + of_nat (n mod 10) = (of_nat (n div 10 * 10 + n mod 10) :: 32 word)"
      by (simp only: of_nat_add of_nat_mult of_nat_numeral)
    then show ?thesis using False less [of "n div 10"] step [of "n mod 10"] by (subst digits_of.simps) simp
  qed
qed

lemma atoi_digits_of: "cstr m p (digits_of 10 n) \<Longrightarrow> atoi_digits m p 0 = Some (of_nat n)"
  using atoi_digits_fold [of m p "digits_of 10 n" 0] digits_of_10 [of n] digit_lookup fold_digits [of n] by force

lemma digits_head: "\<exists>k < 10. \<exists>ds. digits_of 10 n = ''0123456789abcdef'' ! k # ds"
proof -
  have "digits_of 10 n \<noteq> []" by (subst digits_of.simps) simp
  then show ?thesis using digits_of_10 [of n] by (cases "digits_of 10 n") auto
qed

lemma render_d: "render ''%d'' [VInt w] =
    Some (if sint w < 0 then CHR ''-'' # digits_of 10 (unat (- w)) else digits_of 10 (unat w))"
  by (simp add: render.simps(2) is_mod_def field_text_def is_digit_def int_ok_def convert_def pad_field_def Let_def)

text \<open>C29. Parsing what was printed gives back the number: for every 32-bit integer, the least one
  included, \<^verbatim>\<open>atoi\<close> of the text that \<^verbatim>\<open>%d\<close> prints is that integer.\<close>

theorem atoi_of_printed:
  assumes "render ''%d'' [VInt w] = Some out" and "cstr m p out"
  shows "atoi m p = Some (sint w)"
proof (cases "sint w < 0")
  case True
  then have c: "m p = Some (CHR ''-'')" "cstr m (p + 1) (digits_of 10 (unat (- w)))" using assms render_d [of w] by auto
  then have "skip_blanks m p = Some p" by (subst skip_blanks.simps) simp
  then show ?thesis using c atoi_digits_of [OF c(2)] by (simp add: atoi_def)
next
  case False
  then have c: "cstr m p (digits_of 10 (unat w))" using assms render_d [of w] by auto
  obtain k ds where k: "k < 10" "digits_of 10 (unat w) = ''0123456789abcdef'' ! k # ds" using digits_head by blast
  let ?c = "''0123456789abcdef'' ! k"
  have mp: "m p = Some ?c" using c k by simp
  have "?c \<noteq> CHR '' ''" "?c \<noteq> CHR 0x09" "?c \<noteq> CHR ''-''" "?c \<noteq> CHR ''+''" using less_10_cases [OF k(1)] by auto
  moreover from this have "skip_blanks m p = Some p" using mp by (subst skip_blanks.simps) simp
  ultimately show ?thesis using mp atoi_digits_of [OF c] by (simp add: atoi_def)
qed

theorem atoi_of_printed_witness:
  "atoi [1 \<mapsto> CHR ''-'', 2 \<mapsto> CHR ''7'', 3 \<mapsto> NUL] 1 = Some (- 7)"
proof -
  have "render ''%d'' [VInt (- 7)] = Some ''-7''" using render_d [of "- 7"] by (simp add: digits_of.simps)
  from atoi_of_printed [OF this, of "[1 \<mapsto> CHR ''-'', 2 \<mapsto> CHR ''7'', 3 \<mapsto> NUL]" 1] show ?thesis by simp
qed

end
