(* ===== verification/Kheap.thy ===== *)
theory Kheap
  imports Kernel_Prelude
begin

text \<open>
  The kernel heap (\<^verbatim>\<open>kern/lib/kheap.c\<close>): \<^verbatim>\<open>kmalloc\<close> and \<^verbatim>\<open>kfree\<close> over whole pages.  Page references
  are indices into the array \<^verbatim>\<open>pagerefs\<close>; the free list of a page is threaded through the first words
  of its free blocks, which are words of the memory \<open>words\<close> (address to value, 0 is \<^verbatim>\<open>NULL\<close>) like any
  other.  Addresses are natural numbers below $2^{32}$.  What \<^verbatim>\<open>alloc_kpages\<close> and \<^verbatim>\<open>evictPage\<close> return is an
  argument, and the pages given back to \<^verbatim>\<open>free_kpages\<close> are part of the result.  All of it runs with
  interrupts off.
\<close>

unbundle bit_operations_syntax

section \<open>Model\<close>

definition PAGE_SIZE :: nat where
  "PAGE_SIZE = 4096"

definition NSIZES :: nat where
  "NSIZES = 8"

definition sizes :: "nat list" where
  "sizes = [16, 32, 64, 128, 256, 512, 1024, 2048]"

definition LARGEST_SUBPAGE_SIZE :: nat where
  "LARGEST_SUBPAGE_SIZE = 2048"

record pageref =
  next_samesize :: "nat option"
  next_all :: "nat option"
  pageaddr_and_blocktype :: nat
  freelist_offset :: nat
  nfree :: nat

definition INVALID_OFFSET :: nat where
  "INVALID_OFFSET = 0xffff"

text \<open>The masks with \<^verbatim>\<open>PAGE_FRAME\<close> keep the page address and the 12 bits below it.\<close>

definition PR_PAGEADDR :: "pageref \<Rightarrow> nat" where
  "PR_PAGEADDR pr = pageaddr_and_blocktype pr div PAGE_SIZE * PAGE_SIZE"

definition PR_BLOCKTYPE :: "pageref \<Rightarrow> nat" where
  "PR_BLOCKTYPE pr = pageaddr_and_blocktype pr mod PAGE_SIZE"

definition MKPAB :: "nat \<Rightarrow> nat \<Rightarrow> nat" where
  "MKPAB pa blk = pa div PAGE_SIZE * PAGE_SIZE + blk mod PAGE_SIZE"

definition NPAGEREFS :: nat where
  "NPAGEREFS = PAGE_SIZE div 16"

definition INUSE_WORDS :: nat where
  "INUSE_WORDS = NPAGEREFS div 32"

record kheap =
  pagerefs :: "pageref list"
  pagerefs_inuse :: "32 word list"
  sizebases :: "nat option list"
  allbase :: "nat option"
  words :: "nat \<Rightarrow> nat"

text \<open>The inner loop of \<^verbatim>\<open>allocpageref\<close> tries the masks \<^verbatim>\<open>k = 1, 2, 4, ...\<close> until the shift gives 0.\<close>

definition allocpageref :: "kheap \<Rightarrow> (nat option \<times> kheap) outcome" where
  "allocpageref h =
     (case find (\<lambda>i. pagerefs_inuse h ! i \<noteq> 0xffffffff) [0..<INUSE_WORDS] of
        None \<Rightarrow> Some (None, h)
      | Some i \<Rightarrow>
          (case find (\<lambda>j. pagerefs_inuse h ! i AND push_bit j 1 = 0) [0..<32] of
             None \<Rightarrow> None
           | Some j \<Rightarrow> Some (Some (i * 32 + j),
               h\<lparr>pagerefs_inuse := (pagerefs_inuse h)[i := pagerefs_inuse h ! i OR push_bit j 1]\<rparr>)))"

definition freepageref :: "nat \<Rightarrow> kheap \<Rightarrow> kheap outcome" where
  "freepageref p h = do {
     kassert (p < NPAGEREFS);
     w \<leftarrow> load_cell (pagerefs_inuse h) (p div 32);
     kassert (w AND push_bit (p mod 32) 1 \<noteq> 0);
     Some (h\<lparr>pagerefs_inuse := (pagerefs_inuse h)[p div 32 := w AND NOT (push_bit (p mod 32) 1)]\<rparr>)
   }"

text \<open>
  The loops of \<^verbatim>\<open>remove_lists\<close> walk the cells that hold the pointers: first the base, then the field
  \<open>sel\<close> of one page reference after the other; \<open>upd\<close> writes that field.
\<close>

partial_function (option) unlink_loop ::
  "(pageref \<Rightarrow> nat option) \<Rightarrow> (nat option \<Rightarrow> pageref \<Rightarrow> pageref) \<Rightarrow> nat \<Rightarrow> nat option \<Rightarrow>
   nat option \<times> pageref list \<Rightarrow> (nat option \<times> pageref list) outcome" where
  "unlink_loop sel upd pr guy st = do {
     v \<leftarrow> (case guy of None \<Rightarrow> Some (fst st) | Some g \<Rightarrow> map_option sel (load_cell (snd st) g));
     case v of
       None \<Rightarrow> Some st
     | Some g \<Rightarrow>
         if g = pr then do {
           r \<leftarrow> load_cell (snd st) pr;
           case guy of
             None \<Rightarrow> Some (sel r, snd st)
           | Some c \<Rightarrow> do {
               rc \<leftarrow> load_cell (snd st) c;
               Some (fst st, (snd st)[c := upd (sel r) rc])
             }
         }
         else unlink_loop sel upd pr (Some g) st
   }"

definition set_samesize :: "nat option \<Rightarrow> pageref \<Rightarrow> pageref" where
  "set_samesize v r = r\<lparr>next_samesize := v\<rparr>"

definition set_all :: "nat option \<Rightarrow> pageref \<Rightarrow> pageref" where
  "set_all v r = r\<lparr>next_all := v\<rparr>"

definition remove_lists :: "nat \<Rightarrow> nat \<Rightarrow> kheap \<Rightarrow> kheap outcome" where
  "remove_lists pr blktype h = do {
     kassert (blktype < NSIZES);
     b \<leftarrow> load_cell (sizebases h) blktype;
     (b1, refs1) \<leftarrow> unlink_loop next_samesize set_samesize pr None (b, pagerefs h);
     (a2, refs2) \<leftarrow> unlink_loop next_all set_all pr None (allbase h, refs1);
     Some (h\<lparr>sizebases := (sizebases h)[blktype := b1], allbase := a2, pagerefs := refs2\<rparr>)
   }"

text \<open>Stuck where the code panics.\<close>

definition blocktype :: "nat \<Rightarrow> nat outcome" where
  "blocktype sz = find (\<lambda>i. sz \<le> sizes ! i) [0..<NSIZES]"

text \<open>The search through the pages of one size.\<close>

partial_function (option) find_page :: "kheap \<Rightarrow> nat \<Rightarrow> nat option \<Rightarrow> nat option outcome" where
  "find_page h blktype p =
     (case p of
        None \<Rightarrow> Some None
      | Some i \<Rightarrow> do {
          pr \<leftarrow> load_cell (pagerefs h) i;
          kassert (PR_BLOCKTYPE pr = blktype);
          if nfree pr > 0 then Some (Some i) else find_page h blktype (next_samesize pr)
        })"

text \<open>From the label \<^verbatim>\<open>doalloc\<close>: take the first free block of page reference \<open>i\<close>.\<close>

definition doalloc :: "nat \<Rightarrow> kheap \<Rightarrow> (nat \<times> kheap) outcome" where
  "doalloc i h = do {
     pr \<leftarrow> load_cell (pagerefs h) i;
     kassert (freelist_offset pr < PAGE_SIZE);
     let prpage = PR_PAGEADDR pr;
     let retptr = prpage + freelist_offset pr;
     let fl = words h retptr;
     kassert (nfree pr > 0);
     let n = nfree pr - 1;
     if fl \<noteq> 0 then do {
       kassert (n > 0);
       kassert (prpage \<le> fl \<and> fl - prpage < PAGE_SIZE);
       Some (retptr, h\<lparr>pagerefs := (pagerefs h)[i := pr\<lparr>nfree := n, freelist_offset := fl - prpage\<rparr>]\<rparr>)
     }
     else do {
       kassert (n = 0);
       Some (retptr, h\<lparr>pagerefs := (pagerefs h)[i := pr\<lparr>nfree := n, freelist_offset := INVALID_OFFSET\<rparr>]\<rparr>)
     }
   }"

text \<open>The loop that threads the free list through a fresh page, for \<^verbatim>\<open>i\<close> from 1 to \<open>n\<close>.\<close>

fun fl_loop :: "(nat \<Rightarrow> nat) \<Rightarrow> nat \<Rightarrow> nat \<Rightarrow> nat \<Rightarrow> (nat \<Rightarrow> nat) outcome" where
  "fl_loop w fla sz 0 = Some w"
| "fl_loop w fla sz (Suc k) = do {
     w1 \<leftarrow> fl_loop w fla sz k;
     kassert (fla + Suc k * sz \<noteq> fla + k * sz);
     Some (w1(fla + Suc k * sz := fla + k * sz))
   }"

text \<open>Setting up the page \<open>prpage\<close> for page reference \<open>j\<close>.\<close>

definition new_page :: "nat \<Rightarrow> nat \<Rightarrow> nat \<Rightarrow> kheap \<Rightarrow> kheap outcome" where
  "new_page j prpage blktype h = do {
     pr \<leftarrow> load_cell (pagerefs h) j;
     sz \<leftarrow> load_cell sizes blktype;
     let n = PAGE_SIZE div sz;
     w \<leftarrow> fl_loop ((words h)(prpage := 0)) prpage sz (n - 1);
     b \<leftarrow> load_cell (sizebases h) blktype;
     let pr1 = pr\<lparr>pageaddr_and_blocktype := MKPAB prpage blktype, nfree := n, freelist_offset := (n - 1) * sz,
                next_samesize := b, next_all := allbase h\<rparr>;
     Some (h\<lparr>words := w, pagerefs := (pagerefs h)[j := pr1], sizebases := (sizebases h)[blktype := Some j], allbase := Some j\<rparr>)
   }"

text \<open>\<open>page\<close> is what \<^verbatim>\<open>alloc_kpages(1)\<close> returns if it is called; the result 0 is \<^verbatim>\<open>NULL\<close>.\<close>

definition subpage_kmalloc :: "nat \<Rightarrow> nat \<Rightarrow> kheap \<Rightarrow> (nat \<times> kheap) outcome" where
  "subpage_kmalloc page sz h = do {
     blktype \<leftarrow> blocktype sz;
     b \<leftarrow> load_cell (sizebases h) blktype;
     found \<leftarrow> find_page h blktype b;
     case found of
       Some i \<Rightarrow> doalloc i h
     | None \<Rightarrow> do {
         (r, h1) \<leftarrow> allocpageref h;
         case r of
           None \<Rightarrow> Some (0, h1)
         | Some j \<Rightarrow>
             if page = 0 then do {
               h2 \<leftarrow> freepageref j h1;
               Some (0, h2)
             }
             else do {
               h2 \<leftarrow> new_page j page blktype h1;
               doalloc j h2
             }
       }
   }"

partial_function (option) find_owner :: "kheap \<Rightarrow> nat \<Rightarrow> nat option \<Rightarrow> nat option outcome" where
  "find_owner h ptraddr p =
     (case p of
        None \<Rightarrow> Some None
      | Some i \<Rightarrow> do {
          pr \<leftarrow> load_cell (pagerefs h) i;
          kassert (PR_BLOCKTYPE pr < NSIZES);
          if PR_PAGEADDR pr \<le> ptraddr \<and> ptraddr < PR_PAGEADDR pr + PAGE_SIZE then Some (Some i)
          else find_owner h ptraddr (next_all pr)
        })"

fun fill_deadbeef :: "(nat \<Rightarrow> nat) \<Rightarrow> nat \<Rightarrow> nat \<Rightarrow> nat \<Rightarrow> nat" where
  "fill_deadbeef w ptr 0 = w"
| "fill_deadbeef w ptr (Suc n) = (fill_deadbeef w ptr n)(ptr + 4 * n := 0xdeadbeef)"

text \<open>The result is the return value, the page given to \<^verbatim>\<open>free_kpages\<close> if any, and the heap.\<close>

definition subpage_kfree :: "nat \<Rightarrow> kheap \<Rightarrow> (int \<times> nat option \<times> kheap) outcome" where
  "subpage_kfree ptr h = do {
     found \<leftarrow> find_owner h ptr (allbase h);
     case found of
       None \<Rightarrow> Some (-1, None, h)
     | Some i \<Rightarrow> do {
         pr \<leftarrow> load_cell (pagerefs h) i;
         let prpage = PR_PAGEADDR pr;
         let blktype = PR_BLOCKTYPE pr;
         sz \<leftarrow> load_cell sizes blktype;
         let offset = ptr - prpage;
         kassert (offset < PAGE_SIZE \<and> offset mod sz = 0);
         let w = fill_deadbeef (words h) ptr (sz div 4);
         let w1 = w(ptr := (if freelist_offset pr = INVALID_OFFSET then 0 else prpage + freelist_offset pr));
         let pr1 = pr\<lparr>freelist_offset := offset, nfree := (nfree pr + 1) mod 2 ^ 16\<rparr>;
         let h1 = h\<lparr>words := w1, pagerefs := (pagerefs h)[i := pr1]\<rparr>;
         kassert (nfree pr1 \<le> PAGE_SIZE div sz);
         if nfree pr1 = PAGE_SIZE div sz then do {
           h2 \<leftarrow> remove_lists i blktype h1;
           h3 \<leftarrow> freepageref i h2;
           Some (0, Some prpage, h3)
         }
         else Some (0, None, h1)
       }
   }"

text \<open>\<open>alloc\<close> is \<^verbatim>\<open>alloc_kpages\<close> (0 when it fails) and \<open>evicted\<close> the result of \<^verbatim>\<open>evictPage\<close>.\<close>

definition kmalloc :: "(nat \<Rightarrow> nat) \<Rightarrow> nat \<Rightarrow> nat \<Rightarrow> kheap \<Rightarrow> (nat \<times> kheap) outcome" where
  "kmalloc alloc evicted sz h =
     (if sz \<ge> LARGEST_SUBPAGE_SIZE then
        (let npages = ((sz + PAGE_SIZE - 1) mod 2 ^ 32) div PAGE_SIZE; address = alloc npages
         in Some (if address = 0 then evicted else address, h))
      else subpage_kmalloc (alloc 1) sz h)"

definition kfree :: "nat \<Rightarrow> kheap \<Rightarrow> (nat option \<times> kheap) outcome" where
  "kfree ptr h =
     (if ptr = 0 then Some (None, h)
      else do {
        (r, page, h1) \<leftarrow> subpage_kfree ptr h;
        if r \<noteq> 0 then do {
          kassert (ptr mod PAGE_SIZE = 0);
          Some (Some ptr, h1)
        }
        else Some (page, h1)
      })"

text \<open>The state at boot: everything in the BSS is zero.\<close>

definition kheap_boot :: "(nat \<Rightarrow> nat) \<Rightarrow> kheap" where
  "kheap_boot w = \<lparr>pagerefs = replicate NPAGEREFS \<lparr>next_samesize = None, next_all = None, pageaddr_and_blocktype = 0,
       freelist_offset = 0, nfree = 0\<rparr>, pagerefs_inuse = replicate INUSE_WORDS 0, sizebases = replicate NSIZES None,
     allbase = None, words = w\<rparr>"

section \<open>The abstraction\<close>

text \<open>Lists of page references, and lists of free blocks.\<close>

fun path :: "(pageref \<Rightarrow> nat option) \<Rightarrow> pageref list \<Rightarrow> nat option \<Rightarrow> nat list \<Rightarrow> bool" where
  "path sel refs p [] \<longleftrightarrow> p = None"
| "path sel refs p (x # xs) \<longleftrightarrow> p = Some x \<and> x < length refs \<and> path sel refs (sel (refs ! x)) xs"

fun chain :: "(nat \<Rightarrow> nat) \<Rightarrow> nat \<Rightarrow> nat list \<Rightarrow> bool" where
  "chain w p [] \<longleftrightarrow> p = 0"
| "chain w p (x # xs) \<longleftrightarrow> p = x \<and> x \<noteq> 0 \<and> chain w (w x) xs"

definition fl_start :: "pageref \<Rightarrow> nat" where
  "fl_start pr = (if freelist_offset pr = INVALID_OFFSET then 0 else PR_PAGEADDR pr + freelist_offset pr)"

definition psize :: "pageref \<Rightarrow> nat" where
  "psize pr = sizes ! PR_BLOCKTYPE pr"

definition pblocks :: "pageref \<Rightarrow> nat set" where
  "pblocks pr = (\<lambda>k. PR_PAGEADDR pr + k * psize pr) ` {..<PAGE_SIZE div psize pr}"

text \<open>\<open>xs\<close> are the free blocks of a page, in the order of its list.\<close>

definition page_free :: "(nat \<Rightarrow> nat) \<Rightarrow> pageref \<Rightarrow> nat list \<Rightarrow> bool" where
  "page_free w pr xs \<longleftrightarrow> chain w (fl_start pr) xs \<and> distinct xs \<and> set xs \<subseteq> pblocks pr \<and> length xs = nfree pr"

definition used :: "kheap \<Rightarrow> nat \<Rightarrow> bool" where
  "used h i \<longleftrightarrow> i < NPAGEREFS \<and> bit (pagerefs_inuse h ! (i div 32)) (i mod 32)"

text \<open>The live blocks: the blocks of the pages in use that are on no free list.\<close>

definition live :: "kheap \<Rightarrow> (nat \<times> nat) set" where
  "live h = {(a, s). \<exists>i. used h i \<and> s = psize (pagerefs h ! i) \<and> a \<in> pblocks (pagerefs h ! i) \<and>
     (\<forall>xs. page_free (words h) (pagerefs h ! i) xs \<longrightarrow> a \<notin> set xs)}"

definition page_ok :: "(nat \<Rightarrow> nat) \<Rightarrow> pageref \<Rightarrow> bool" where
  "page_ok w pr \<longleftrightarrow> PR_BLOCKTYPE pr < NSIZES \<and> 0 < PR_PAGEADDR pr \<and> (\<exists>xs. page_free w pr xs)"

definition lists_fit :: "kheap \<Rightarrow> bool" where
  "lists_fit h \<longleftrightarrow> length (pagerefs h) = NPAGEREFS \<and> length (pagerefs_inuse h) = INUSE_WORDS \<and> length (sizebases h) = NSIZES \<and>
     (\<exists>al. path next_all (pagerefs h) (allbase h) al \<and> distinct al \<and> set al = {i. used h i}) \<and>
     (\<forall>b < NSIZES. \<exists>sl. path next_samesize (pagerefs h) (sizebases h ! b) sl \<and> distinct sl \<and>
        set sl = {i. used h i \<and> PR_BLOCKTYPE (pagerefs h ! i) = b})"

text \<open>\<open>X\<close> are the page references that may be completely free.\<close>

definition heap_inv :: "nat set \<Rightarrow> kheap \<Rightarrow> bool" where
  "heap_inv X h \<longleftrightarrow> lists_fit h \<and>
     (\<forall>i. used h i \<longrightarrow> page_ok (words h) (pagerefs h ! i) \<and>
        (i \<notin> X \<longrightarrow> nfree (pagerefs h ! i) < PAGE_SIZE div psize (pagerefs h ! i))) \<and>
     (\<forall>i j. used h i \<longrightarrow> used h j \<longrightarrow> PR_PAGEADDR (pagerefs h ! i) = PR_PAGEADDR (pagerefs h ! j) \<longrightarrow> i = j)"

abbreviation heap_ok :: "kheap \<Rightarrow> bool" where
  "heap_ok \<equiv> heap_inv {}"

section \<open>Blocks and sizes\<close>

lemma less_8_cases: "b < 8 \<Longrightarrow> b = 0 \<or> b = 1 \<or> b = 2 \<or> b = 3 \<or> b = 4 \<or> b = 5 \<or> b = 6 \<or> b = (7::nat)"
  by auto

lemma sizes_facts:
  assumes "b < NSIZES"
  shows "16 \<le> sizes ! b" "sizes ! b \<le> 2048" "PAGE_SIZE div sizes ! b * sizes ! b = PAGE_SIZE" "4 * (sizes ! b div 4) = sizes ! b"
    "2 \<le> PAGE_SIZE div sizes ! b" "PAGE_SIZE div sizes ! b \<le> 256" "b < length sizes"
  using less_8_cases [of b] assms by (auto simp: sizes_def NSIZES_def PAGE_SIZE_def)

lemma blocktype_ok:
  assumes "sz \<le> LARGEST_SUBPAGE_SIZE"
  shows "\<exists>b. blocktype sz = Some b \<and> b < NSIZES \<and> sz \<le> sizes ! b \<and> (\<forall>c < b. sizes ! c < sz)"
proof -
  have "blocktype sz \<noteq> None"
  proof
    assume "blocktype sz = None"
    then have "\<not> sz \<le> sizes ! 7" by (auto simp: blocktype_def find_None_iff NSIZES_def)
    then show False using assms by (simp add: sizes_def LARGEST_SUBPAGE_SIZE_def)
  qed
  then obtain b where "find (\<lambda>i. sz \<le> sizes ! i) [0..<NSIZES] = Some b" by (auto simp: blocktype_def)
  then show ?thesis unfolding blocktype_def by (auto simp: find_upt_Some_iff not_le)
qed

lemma pblocks_range:
  assumes "PR_BLOCKTYPE pr < NSIZES" "a \<in> pblocks pr"
  shows "PR_PAGEADDR pr \<le> a" "a + psize pr \<le> PR_PAGEADDR pr + PAGE_SIZE" "(a - PR_PAGEADDR pr) mod psize pr = 0"
proof -
  obtain k where k: "a = PR_PAGEADDR pr + k * psize pr" "k < PAGE_SIZE div psize pr" using assms(2) by (auto simp: pblocks_def)
  then have "Suc k * psize pr \<le> PAGE_SIZE div psize pr * psize pr" by (intro mult_le_mono1) simp
  also have "\<dots> = PAGE_SIZE" using sizes_facts(3) [OF assms(1)] by (simp add: psize_def)
  finally show "a + psize pr \<le> PR_PAGEADDR pr + PAGE_SIZE" using k by simp
  show "PR_PAGEADDR pr \<le> a" "(a - PR_PAGEADDR pr) mod psize pr = 0" using k by simp_all
qed

lemma pblocks_intro:
  assumes "PR_BLOCKTYPE pr < NSIZES" "PR_PAGEADDR pr \<le> a" "a < PR_PAGEADDR pr + PAGE_SIZE" "(a - PR_PAGEADDR pr) mod psize pr = 0"
  shows "a \<in> pblocks pr"
proof -
  let ?k = "(a - PR_PAGEADDR pr) div psize pr"
  have "?k * psize pr = a - PR_PAGEADDR pr" using assms(4) by auto
  moreover have "?k < PAGE_SIZE div psize pr"
    using sizes_facts [OF assms(1)] assms(2,3) calculation
    by (metis psize_def div_less_iff_less_mult less_diff_conv2 add.commute le_less_trans not_less zero_less_iff_neq_zero
        less_eq_nat.simps(1) mult_0_right nat_neq_iff zero_less_numeral order.strict_trans2)
  ultimately show ?thesis using assms(2) by (auto simp: pblocks_def intro!: image_eqI [of _ _ ?k])
qed

text \<open>Two blocks of one page do not overlap.\<close>

lemma pblocks_disjoint:
  assumes "a \<in> pblocks pr" "b \<in> pblocks pr" "a \<le> b" "b < a + psize pr"
  shows "a = b"
proof -
  obtain k l where kl: "a = PR_PAGEADDR pr + k * psize pr" "b = PR_PAGEADDR pr + l * psize pr"
    using assms(1,2) by (auto simp: pblocks_def)
  then have "l * psize pr < Suc k * psize pr" using assms(4) by simp
  then have "l < Suc k" using mult_less_cancel2 by blast
  moreover have "k * psize pr \<le> l * psize pr" using assms(3) kl by simp
  then have "k \<le> l \<or> psize pr = 0" by auto
  ultimately have "k = l \<or> psize pr = 0" by linarith
  then show ?thesis using kl by auto
qed

lemma pages_disjoint:
  "PR_PAGEADDR p \<noteq> PR_PAGEADDR q \<Longrightarrow> PR_PAGEADDR p \<le> x \<Longrightarrow> x < PR_PAGEADDR p + PAGE_SIZE \<Longrightarrow>
    \<not> (PR_PAGEADDR q \<le> x \<and> x < PR_PAGEADDR q + PAGE_SIZE)"
proof
  assume a: "PR_PAGEADDR p \<noteq> PR_PAGEADDR q" "PR_PAGEADDR p \<le> x" "x < PR_PAGEADDR p + PAGE_SIZE"
    "PR_PAGEADDR q \<le> x \<and> x < PR_PAGEADDR q + PAGE_SIZE"
  have "x div PAGE_SIZE = pageaddr_and_blocktype p div PAGE_SIZE" "x div PAGE_SIZE = pageaddr_and_blocktype q div PAGE_SIZE"
    using a(2-) unfolding PR_PAGEADDR_def by (auto intro!: div_nat_eqI simp: mult.commute)
  then show False using a(1) by (simp add: PR_PAGEADDR_def)
qed

section \<open>Free lists\<close>

lemma chain_unique: "chain w p xs \<Longrightarrow> chain w p ys \<Longrightarrow> xs = ys"
proof (induction xs arbitrary: p ys)
  case Nil
  then show ?case by (cases ys) auto
next
  case (Cons x xs)
  then show ?case by (cases ys) auto
qed

lemma chain_cong: "chain w p xs \<Longrightarrow> (\<And>x. x \<in> set xs \<Longrightarrow> w' x = w x) \<Longrightarrow> chain w' p xs"
  by (induction xs arbitrary: p) auto

lemma page_free_unique: "page_free w pr xs \<Longrightarrow> page_free w pr ys \<Longrightarrow> xs = ys"
  using chain_unique by (auto simp: page_free_def)

lemma page_free_cong:
  assumes "page_free w pr xs" "\<And>x. x \<in> set xs \<Longrightarrow> w' x = w x"
  shows "page_free w' pr xs"
  using assms chain_cong by (auto simp: page_free_def)

text \<open>Only the list pointers of a page reference change without its pages and blocks changing.\<close>

definition same_page :: "pageref \<Rightarrow> pageref \<Rightarrow> bool" where
  "same_page p q \<longleftrightarrow> pageaddr_and_blocktype p = pageaddr_and_blocktype q \<and> freelist_offset p = freelist_offset q \<and> nfree p = nfree q"

lemma same_page_eqs:
  assumes "same_page p q"
  shows "PR_PAGEADDR p = PR_PAGEADDR q" "PR_BLOCKTYPE p = PR_BLOCKTYPE q" "psize p = psize q" "pblocks p = pblocks q"
    "page_free w p xs = page_free w q xs" "page_ok w p = page_ok w q" "nfree p = nfree q" "fl_start p = fl_start q"
  using assms by (simp_all add: same_page_def PR_PAGEADDR_def PR_BLOCKTYPE_def psize_def pblocks_def page_free_def page_ok_def fl_start_def)

lemma fl_loop_spec:
  assumes "0 < sz"
  shows "fl_loop w fla sz k = Some (\<lambda>a. if \<exists>i. 1 \<le> i \<and> i \<le> k \<and> a = fla + i * sz then a - sz else w a)"
proof (induction k)
  case (Suc k)
  let ?f = "\<lambda>k a. if \<exists>i. 1 \<le> i \<and> i \<le> k \<and> a = fla + i * sz then a - sz else w a"
  have "(?f k)(fla + Suc k * sz := fla + k * sz) = ?f (Suc k)"
  proof
    fix a
    show "((?f k)(fla + Suc k * sz := fla + k * sz)) a = ?f (Suc k) a"
    proof (cases "a = fla + Suc k * sz")
      case True
      have "\<exists>i. 1 \<le> i \<and> i \<le> Suc k \<and> a = fla + i * sz" by (rule exI [of _ "Suc k"]) (simp add: True)
      then show ?thesis using True by simp
    next
      case False
      then have "(\<exists>i. 1 \<le> i \<and> i \<le> Suc k \<and> a = fla + i * sz) \<longleftrightarrow> (\<exists>i. 1 \<le> i \<and> i \<le> k \<and> a = fla + i * sz)"
        by (metis le_Suc_eq)
      then show ?thesis using False by simp
    qed
  qed
  then show ?case using Suc assms by simp
qed auto

lemma chain_fresh:
  assumes "0 < fla" "0 < sz" "w fla = 0" "\<And>i. 1 \<le> i \<Longrightarrow> i \<le> k \<Longrightarrow> w (fla + i * sz) = fla + i * sz - sz"
  shows "chain w (fla + k * sz) (map (\<lambda>i. fla + i * sz) (rev [0..<Suc k]))"
  using assms(4)
proof (induction k)
  case 0
  then show ?case using assms by simp
next
  case (Suc k)
  have "w (fla + Suc k * sz) = fla + k * sz" using Suc.prems [of "Suc k"] by simp
  then show ?case using Suc assms(1) by (simp add: rev_swap)
qed

section \<open>Lists of page references\<close>

lemma path_cong:
  "path sel refs p xs \<Longrightarrow> length refs' = length refs \<Longrightarrow> (\<And>x. x \<in> set xs \<Longrightarrow> sel (refs' ! x) = sel (refs ! x)) \<Longrightarrow> path sel refs' p xs"
  by (induction xs arbitrary: p) auto

lemma path_range: "path sel refs p xs \<Longrightarrow> x \<in> set xs \<Longrightarrow> x < length refs"
  by (induction xs arbitrary: p) auto

lemma path_append: "path sel refs p (xs @ [x] @ ys) \<Longrightarrow> path sel refs (Some x) (x # ys)"
  by (induction xs arbitrary: p) auto

lemma unlink_loop_mid:
  assumes "path sel refs (Some c) (c # xs)" "pr \<in> set xs" "distinct (c # xs)" "\<And>v r. sel (upd v r) = v"
  shows "\<exists>c'. c' \<in> set (c # xs) \<and> c' \<noteq> pr \<and>
    unlink_loop sel upd pr (Some c) (b, refs) = Some (b, refs[c' := upd (sel (refs ! pr)) (refs ! c')]) \<and>
    path sel (refs[c' := upd (sel (refs ! pr)) (refs ! c')]) (Some c) (c # remove1 pr xs)"
  using assms(1-3)
proof (induction xs arbitrary: c)
  case (Cons x xs)
  have c: "c < length refs" "sel (refs ! c) = Some x" "x < length refs" "path sel refs (Some x) (x # xs)" using Cons.prems(1) by simp_all
  show ?case
  proof (cases "x = pr")
    case True
    let ?refs = "refs[c := upd (sel (refs ! pr)) (refs ! c)]"
    have "unlink_loop sel upd pr (Some c) (b, refs) = Some (b, ?refs)"
      using c True by (subst unlink_loop.simps) simp
    moreover have "path sel ?refs (sel (refs ! pr)) xs"
    proof (rule path_cong [of sel refs])
      fix y assume "y \<in> set xs"
      then have "y \<noteq> c" using Cons.prems(3) by auto
      then show "sel (?refs ! y) = sel (refs ! y)" by simp
    qed (use c(4) True in auto)
    then have "path sel ?refs (Some c) (c # remove1 pr (x # xs))" using True c(1) assms(4) by simp
    moreover have "c \<noteq> pr" using True Cons.prems(3) by auto
    ultimately show ?thesis by (intro exI [of _ c] conjI) (simp_all only: list.set insert_iff simp_thms)
  next
    case False
    then have "pr \<in> set xs" "distinct (x # xs)" using Cons.prems by auto
    from Cons.IH [OF c(4) this] obtain c' where c': "c' \<in> set (x # xs)" "c' \<noteq> pr"
      "unlink_loop sel upd pr (Some x) (b, refs) = Some (b, refs[c' := upd (sel (refs ! pr)) (refs ! c')])"
      "path sel (refs[c' := upd (sel (refs ! pr)) (refs ! c')]) (Some x) (x # remove1 pr xs)" by blast
    have "c \<noteq> c'" using c'(1) Cons.prems(3) by auto
    then have "path sel (refs[c' := upd (sel (refs ! pr)) (refs ! c')]) (Some c) (c # remove1 pr (x # xs))"
      using c'(4) c False by simp
    moreover have "unlink_loop sel upd pr (Some c) (b, refs) = unlink_loop sel upd pr (Some x) (b, refs)"
      using c False by (subst unlink_loop.simps) simp
    moreover have "c' \<in> set (c # x # xs)" using c'(1) by simp
    ultimately show ?thesis using c'(2,3) by (intro exI [of _ c'] conjI) (simp_all only: simp_thms)
  qed
qed simp

text \<open>The loop of \<^verbatim>\<open>remove_lists\<close> takes the page reference out of the list and changes one link.\<close>

lemma unlink_spec:
  assumes "path sel refs b xs" "pr \<in> set xs" "distinct xs" "\<And>v r. sel (upd v r) = v"
  shows "\<exists>b' refs'. unlink_loop sel upd pr None (b, refs) = Some (b', refs') \<and> path sel refs' b' (remove1 pr xs) \<and>
    (refs' = refs \<or> (\<exists>c v. c \<in> set xs \<and> c \<noteq> pr \<and> refs' = refs[c := upd v (refs ! c)]))"
proof (cases xs)
  case (Cons x ys)
  have p: "b = Some x" "x < length refs" "path sel refs (Some x) (x # ys)" using assms(1) Cons by simp_all
  show ?thesis
  proof (cases "x = pr")
    case True
    then have "unlink_loop sel upd pr None (b, refs) = Some (sel (refs ! pr), refs)" using p by (subst unlink_loop.simps) simp
    then show ?thesis using True Cons p by auto
  next
    case False
    then have "pr \<in> set ys" "distinct (x # ys)" using assms(2,3) Cons by auto
    from unlink_loop_mid [where upd = upd and b = b, OF p(3) this assms(4)] obtain c' where c': "c' \<in> set (x # ys)" "c' \<noteq> pr"
      "unlink_loop sel upd pr (Some x) (b, refs) = Some (b, refs[c' := upd (sel (refs ! pr)) (refs ! c')])"
      "path sel (refs[c' := upd (sel (refs ! pr)) (refs ! c')]) (Some x) (x # remove1 pr ys)" by blast
    have "unlink_loop sel upd pr None (b, refs) = unlink_loop sel upd pr (Some x) (b, refs)"
      using p False by (subst unlink_loop.simps) simp
    then show ?thesis using c' p(1) Cons False by auto
  qed
qed (use assms in simp)

section \<open>The map of page references in use\<close>

declare push_bit_of_1 [simp del]

lemma and_mask_0: "(w :: 32 word) AND push_bit j 1 = 0 \<longleftrightarrow> \<not> bit w j" if "j < 32"
proof -
  have "bit (w AND push_bit j 1) n \<longleftrightarrow> n = j \<and> bit w j" for n
    using that by (auto simp: bit_simps)
  note b = this
  show ?thesis
  proof
    assume "w AND push_bit j 1 = 0"
    then have "\<not> bit (w AND push_bit j 1) j" by simp
    then show "\<not> bit w j" using b by blast
  next
    assume "\<not> bit w j"
    then show "w AND push_bit j 1 = 0" using b by (intro bit_word_eqI) simp
  qed
qed

lemma used_upd_or:
  assumes "i < INUSE_WORDS" "j < 32" "length (pagerefs_inuse h) = INUSE_WORDS"
  shows "used (h\<lparr>pagerefs_inuse := (pagerefs_inuse h)[i := pagerefs_inuse h ! i OR push_bit j 1]\<rparr>) k \<longleftrightarrow> used h k \<or> k = i * 32 + j"
proof -
  have "i * 32 + j < NPAGEREFS" using assms(1,2) by (simp add: INUSE_WORDS_def NPAGEREFS_def PAGE_SIZE_def)
  moreover have "bit (pagerefs_inuse h ! i OR push_bit j 1) (k mod 32) \<longleftrightarrow> bit (pagerefs_inuse h ! i) (k mod 32) \<or> k mod 32 = j"
    using assms(2) by (auto simp: bit_simps)
  moreover have "k = i * 32 + j \<longleftrightarrow> k div 32 = i \<and> k mod 32 = j" using assms(2) by auto
  ultimately show ?thesis using assms by (auto simp: used_def nth_list_update)
qed

lemma allocpageref_spec:
  assumes "length (pagerefs_inuse h) = INUSE_WORDS"
  shows "\<exists>r h'. allocpageref h = Some (r, h') \<and>
    (case r of None \<Rightarrow> h' = h \<and> (\<forall>k < NPAGEREFS. used h k)
     | Some k \<Rightarrow> k < NPAGEREFS \<and> \<not> used h k \<and>
        (\<exists>inuse. h' = h\<lparr>pagerefs_inuse := inuse\<rparr> \<and> length inuse = INUSE_WORDS) \<and> (\<forall>l. used h' l \<longleftrightarrow> used h l \<or> l = k))"
proof (cases "find (\<lambda>i. pagerefs_inuse h ! i \<noteq> 0xffffffff) [0..<INUSE_WORDS]")
  case None
  then have full: "pagerefs_inuse h ! i = 0xffffffff" if "i < INUSE_WORDS" for i using that by (auto simp: find_upt_None_iff)
  have m: "(0xffffffff :: 32 word) = mask 32" by (simp add: mask_eq_exp_minus_1)
  have "used h k" if "k < NPAGEREFS" for k
  proof -
    have "k div 32 < INUSE_WORDS" using that by (simp add: INUSE_WORDS_def NPAGEREFS_def PAGE_SIZE_def less_mult_imp_div_less)
    then show ?thesis using that full by (simp add: used_def m bit_mask_iff)
  qed
  then show ?thesis using None by (simp add: allocpageref_def)
next
  case (Some i)
  then have i: "i < INUSE_WORDS" "pagerefs_inuse h ! i \<noteq> 0xffffffff" by (auto simp: find_upt_Some_iff)
  let ?w = "pagerefs_inuse h ! i"
  have "\<exists>j < 32. \<not> bit ?w j"
  proof (rule ccontr)
    assume "\<not> (\<exists>j < 32. \<not> bit ?w j)"
    then have "?w = mask 32" by (intro bit_word_eqI) (auto simp: bit_mask_iff)
    then show False using i(2) by (simp add: mask_eq_exp_minus_1)
  qed
  then obtain j where j: "find (\<lambda>j. ?w AND push_bit j 1 = 0) [0..<32] = Some j"
    by (cases "find (\<lambda>j. ?w AND push_bit j 1 = 0) [0..<32]") (auto simp: find_upt_None_iff and_mask_0)
  then have j': "j < 32" "\<not> bit ?w j" by (auto simp: find_upt_Some_iff and_mask_0)
  let ?h = "h\<lparr>pagerefs_inuse := (pagerefs_inuse h)[i := ?w OR push_bit j 1]\<rparr>"
  have "allocpageref h = Some (Some (i * 32 + j), ?h)" using Some j by (simp add: allocpageref_def)
  moreover have "i * 32 + j < NPAGEREFS" using i j' by (simp add: INUSE_WORDS_def NPAGEREFS_def PAGE_SIZE_def)
  moreover have "\<not> used h (i * 32 + j)" using j' by (simp add: used_def)
  moreover have "\<forall>l. used ?h l \<longleftrightarrow> used h l \<or> l = i * 32 + j" using used_upd_or [OF i(1) j'(1) assms] by blast
  moreover have "\<exists>inuse. ?h = h\<lparr>pagerefs_inuse := inuse\<rparr> \<and> length inuse = INUSE_WORDS"
    by (rule exI [of _ "(pagerefs_inuse h)[i := ?w OR push_bit j 1]"]) (simp add: assms)
  ultimately show ?thesis by (intro exI [of _ "Some (i * 32 + j)"] exI [of _ ?h]) (simp only: option.case simp_thms)
qed

lemma freepageref_spec:
  assumes "length (pagerefs_inuse h) = INUSE_WORDS" "used h p"
  shows "\<exists>inuse. freepageref p h = Some (h\<lparr>pagerefs_inuse := inuse\<rparr>) \<and> length inuse = INUSE_WORDS \<and>
    (\<forall>k. used (h\<lparr>pagerefs_inuse := inuse\<rparr>) k \<longleftrightarrow> used h k \<and> k \<noteq> p)"
proof -
  let ?w = "pagerefs_inuse h ! (p div 32)"
  let ?in = "(pagerefs_inuse h)[p div 32 := ?w AND NOT (push_bit (p mod 32) 1)]"
  have p: "p < NPAGEREFS" "bit ?w (p mod 32)" using assms(2) by (simp_all add: used_def)
  have lt: "p div 32 < INUSE_WORDS" using p by (simp add: INUSE_WORDS_def NPAGEREFS_def PAGE_SIZE_def less_mult_imp_div_less)
  have "freepageref p h = Some (h\<lparr>pagerefs_inuse := ?in\<rparr>)"
    using p lt assms(1) and_mask_0 [of "p mod 32" ?w] by (simp add: freepageref_def)
  moreover have "used (h\<lparr>pagerefs_inuse := ?in\<rparr>) k \<longleftrightarrow> used h k \<and> k \<noteq> p" for k
  proof -
    have "bit (?w AND NOT (push_bit (p mod 32) 1)) (k mod 32) \<longleftrightarrow> bit ?w (k mod 32) \<and> k mod 32 \<noteq> p mod 32"
      by (auto simp: bit_simps)
    moreover have "k = p \<longleftrightarrow> k div 32 = p div 32 \<and> k mod 32 = p mod 32" by (metis div_mult_mod_eq)
    ultimately show ?thesis using lt assms(1) by (auto simp: used_def nth_list_update)
  qed
  ultimately show ?thesis using assms(1) by auto
qed

end
