(* ===== verification/Kheap_Inv.thy ===== *)
theory Kheap_Inv
  imports Kheap
begin

text \<open>
  The kernel heap keeps its structure: every page in use is on the list of all pages and on the
  list of its size, its free blocks are exactly the blocks of its free list, and live blocks never
  overlap.  Shown for \<^verbatim>\<open>kmalloc\<close>, \<^verbatim>\<open>kfree\<close> and for writes into live blocks.
\<close>

section \<open>Searching\<close>

lemma find_page_spec:
  assumes "path next_samesize (pagerefs h) p sl" "\<And>i. i \<in> set sl \<Longrightarrow> PR_BLOCKTYPE (pagerefs h ! i) = b"
  shows "\<exists>r. find_page h b p = Some r \<and>
    (case r of None \<Rightarrow> True | Some i \<Rightarrow> i \<in> set sl \<and> 0 < nfree (pagerefs h ! i))"
  using assms
proof (induction sl arbitrary: p)
  case Nil
  then show ?case by (subst find_page.simps) simp
next
  case (Cons x sl)
  then show ?case
  proof (cases "0 < nfree (pagerefs h ! x)")
    case True
    then have "find_page h b p = Some (Some x)" using Cons.prems by (subst find_page.simps) simp
    then show ?thesis using True by simp
  next
    case False
    obtain r where r: "find_page h b (next_samesize (pagerefs h ! x)) = Some r"
      "case r of None \<Rightarrow> True | Some i \<Rightarrow> i \<in> set sl \<and> 0 < nfree (pagerefs h ! i)" using Cons by auto
    have "find_page h b p = find_page h b (next_samesize (pagerefs h ! x))"
      using Cons.prems False by (subst find_page.simps) simp
    then show ?thesis using r by (intro exI [of _ r]) (auto split: option.splits)
  qed
qed

lemma find_owner_spec:
  assumes "path next_all (pagerefs h) p al" "\<And>i. i \<in> set al \<Longrightarrow> PR_BLOCKTYPE (pagerefs h ! i) < NSIZES"
  shows "\<exists>r. find_owner h a p = Some r \<and>
    (case r of
       None \<Rightarrow> (\<forall>i \<in> set al. \<not> (PR_PAGEADDR (pagerefs h ! i) \<le> a \<and> a < PR_PAGEADDR (pagerefs h ! i) + PAGE_SIZE))
     | Some i \<Rightarrow> i \<in> set al \<and> PR_PAGEADDR (pagerefs h ! i) \<le> a \<and> a < PR_PAGEADDR (pagerefs h ! i) + PAGE_SIZE)"
  using assms
proof (induction al arbitrary: p)
  case Nil
  then show ?case by (subst find_owner.simps) simp
next
  case (Cons x al)
  let ?in = "\<lambda>i. PR_PAGEADDR (pagerefs h ! i) \<le> a \<and> a < PR_PAGEADDR (pagerefs h ! i) + PAGE_SIZE"
  show ?case
  proof (cases "?in x")
    case True
    then have "find_owner h a p = Some (Some x)" using Cons.prems by (subst find_owner.simps) simp
    then show ?thesis using True by simp
  next
    case False
    obtain r where r: "find_owner h a (next_all (pagerefs h ! x)) = Some r"
      "case r of None \<Rightarrow> \<forall>i \<in> set al. \<not> ?in i | Some i \<Rightarrow> i \<in> set al \<and> ?in i" using Cons by auto
    have "find_owner h a p = find_owner h a (next_all (pagerefs h ! x))"
      using Cons.prems False by (subst find_owner.simps) auto
    then show ?thesis using r False by (intro exI [of _ r]) (auto split: option.splits)
  qed
qed

section \<open>One page\<close>

text \<open>Taking the first free block.\<close>

lemma page_free_pop:
  assumes "page_free w pr (x # xs)" "PR_BLOCKTYPE pr < NSIZES"
  shows "freelist_offset pr < PAGE_SIZE" "PR_PAGEADDR pr + freelist_offset pr = x" "0 < nfree pr" "x \<in> pblocks pr"
    "w x \<noteq> 0 \<longleftrightarrow> xs \<noteq> []" "w x \<noteq> 0 \<Longrightarrow> PR_PAGEADDR pr \<le> w x \<and> w x < PR_PAGEADDR pr + PAGE_SIZE"
    "length xs = nfree pr - 1"
proof -
  have c: "chain w (fl_start pr) (x # xs)" "set (x # xs) \<subseteq> pblocks pr" "length (x # xs) = nfree pr"
    using assms(1) by (simp_all add: page_free_def)
  have st: "fl_start pr = x" "x \<noteq> 0" "chain w (w x) xs" using c(1) by simp_all
  then show s: "PR_PAGEADDR pr + freelist_offset pr = x" by (auto simp: fl_start_def split: if_splits)
  show x: "x \<in> pblocks pr" and "0 < nfree pr" "length xs = nfree pr - 1" using c by auto
  show "freelist_offset pr < PAGE_SIZE"
    using pblocks_range [OF assms(2) x] sizes_facts(1) [OF assms(2)] s by (simp add: psize_def)
  show "w x \<noteq> 0 \<longleftrightarrow> xs \<noteq> []" using st(3) by (cases xs) auto
  show "PR_PAGEADDR pr \<le> w x \<and> w x < PR_PAGEADDR pr + PAGE_SIZE" if nz: "w x \<noteq> 0"
  proof -
    obtain y ys where "xs = y # ys" "w x = y" using st(3) nz by (cases xs) auto
    then have "w x \<in> pblocks pr" using c(2) by auto
    then show ?thesis using pblocks_range [OF assms(2)] sizes_facts(1) [OF assms(2)] by (force simp: psize_def)
  qed
qed

text \<open>The page reference after \<^verbatim>\<open>doalloc\<close> has taken \<open>x\<close>.\<close>

definition popped :: "(nat \<Rightarrow> nat) \<Rightarrow> pageref \<Rightarrow> nat \<Rightarrow> pageref" where
  "popped w pr x = pr\<lparr>nfree := nfree pr - 1,
     freelist_offset := (if w x \<noteq> 0 then w x - PR_PAGEADDR pr else INVALID_OFFSET)\<rparr>"

lemma popped_fields [simp]:
  "PR_PAGEADDR (popped w pr x) = PR_PAGEADDR pr" "PR_BLOCKTYPE (popped w pr x) = PR_BLOCKTYPE pr"
  "psize (popped w pr x) = psize pr" "pblocks (popped w pr x) = pblocks pr" "nfree (popped w pr x) = nfree pr - 1"
  "next_all (popped w pr x) = next_all pr" "next_samesize (popped w pr x) = next_samesize pr"
  by (simp_all add: popped_def PR_PAGEADDR_def PR_BLOCKTYPE_def psize_def pblocks_def)

lemma page_free_popped:
  assumes "page_free w pr (x # xs)" "PR_BLOCKTYPE pr < NSIZES"
  shows "page_free w (popped w pr x) xs"
proof -
  note p = page_free_pop [OF assms]
  have "fl_start (popped w pr x) = w x"
    using p(6) by (auto simp: fl_start_def popped_def PR_PAGEADDR_def INVALID_OFFSET_def PAGE_SIZE_def)
  then show ?thesis using assms(1) p(7) by (auto simp: page_free_def)
qed

lemma doalloc_pop:
  assumes "i < length (pagerefs h)" "page_free (words h) (pagerefs h ! i) (x # xs)" "PR_BLOCKTYPE (pagerefs h ! i) < NSIZES"
  shows "doalloc i h = Some (x, h\<lparr>pagerefs := (pagerefs h)[i := popped (words h) (pagerefs h ! i) x]\<rparr>)"
proof -
  note p = page_free_pop [OF assms(2,3)]
  have n: "nfree (pagerefs h ! i) - 1 = length xs" using p(7) by simp
  show ?thesis
  proof (cases "words h x = 0")
    case True
    then have "xs = []" using p(5) by simp
    then show ?thesis using True p n assms(1) by (simp add: doalloc_def popped_def Let_def)
  next
    case False
    then have "0 < length xs" using p(5) by simp
    moreover have "words h x - PR_PAGEADDR (pagerefs h ! i) < PAGE_SIZE" using p(6) [OF False] by linarith
    ultimately show ?thesis using False p n assms(1) by (simp add: doalloc_def popped_def Let_def)
  qed
qed

text \<open>Putting a block on the free list of its page.\<close>

definition pushed :: "pageref \<Rightarrow> nat \<Rightarrow> pageref" where
  "pushed pr a = pr\<lparr>freelist_offset := a - PR_PAGEADDR pr, nfree := nfree pr + 1\<rparr>"

lemma pushed_fields [simp]:
  "PR_PAGEADDR (pushed pr x) = PR_PAGEADDR pr" "PR_BLOCKTYPE (pushed pr x) = PR_BLOCKTYPE pr"
  "psize (pushed pr x) = psize pr" "pblocks (pushed pr x) = pblocks pr" "nfree (pushed pr x) = nfree pr + 1"
  "next_all (pushed pr x) = next_all pr" "next_samesize (pushed pr x) = next_samesize pr"
  by (simp_all add: pushed_def PR_PAGEADDR_def PR_BLOCKTYPE_def psize_def pblocks_def)

lemma page_free_pushed:
  assumes "page_free w pr xs" "PR_BLOCKTYPE pr < NSIZES" "0 < PR_PAGEADDR pr" "a \<in> pblocks pr" "a \<notin> set xs"
    and "w' a = fl_start pr" "\<And>x. x \<in> set xs \<Longrightarrow> w' x = w x"
  shows "page_free w' (pushed pr a) (a # xs)"
proof -
  have r: "PR_PAGEADDR pr \<le> a" "a < PR_PAGEADDR pr + PAGE_SIZE"
    using pblocks_range [OF assms(2,4)] sizes_facts(1) [OF assms(2)] by (auto simp: psize_def)
  then have "fl_start (pushed pr a) = a"
    by (auto simp: fl_start_def pushed_def PR_PAGEADDR_def INVALID_OFFSET_def PAGE_SIZE_def)
  moreover have "chain w' (w' a) xs" using assms(1,6,7) chain_cong [of w "fl_start pr" xs w'] by (simp add: page_free_def)
  ultimately show ?thesis using assms(1,3,4,5) r(1) by (auto simp: page_free_def)
qed

lemma fill_deadbeef_other: "\<not> (ptr \<le> x \<and> x < ptr + 4 * n) \<Longrightarrow> fill_deadbeef w ptr n x = w x"
  by (induction n) auto

text \<open>A page with a live block and no other live block has all its other blocks free.\<close>

lemma card_pblocks:
  assumes "PR_BLOCKTYPE pr < NSIZES"
  shows "finite (pblocks pr)" "card (pblocks pr) = PAGE_SIZE div psize pr"
proof -
  have "0 < psize pr" using sizes_facts(1) [OF assms] by (simp add: psize_def)
  then have "inj_on (\<lambda>k. PR_PAGEADDR pr + k * psize pr) {..<PAGE_SIZE div psize pr}" by (auto simp: inj_on_def)
  then show "card (pblocks pr) = PAGE_SIZE div psize pr" by (simp add: pblocks_def card_image)
  show "finite (pblocks pr)" by (simp add: pblocks_def)
qed

lemma page_free_bound:
  assumes "page_free w pr xs" "PR_BLOCKTYPE pr < NSIZES"
  shows "nfree pr \<le> PAGE_SIZE div psize pr" "nfree pr = PAGE_SIZE div psize pr \<longleftrightarrow> set xs = pblocks pr"
proof -
  have x: "set xs \<subseteq> pblocks pr" "card (set xs) = nfree pr" using assms(1) by (auto simp: page_free_def distinct_card)
  note c = card_pblocks [OF assms(2)]
  show "nfree pr \<le> PAGE_SIZE div psize pr" using x c card_mono [OF c(1) x(1)] by simp
  show "nfree pr = PAGE_SIZE div psize pr \<longleftrightarrow> set xs = pblocks pr" using x c card_subset_eq [OF c(1) x(1)] by auto
qed

section \<open>The whole heap\<close>

definition page_live :: "(nat \<Rightarrow> nat) \<Rightarrow> pageref \<Rightarrow> nat set" where
  "page_live w pr = {a \<in> pblocks pr. \<forall>xs. page_free w pr xs \<longrightarrow> a \<notin> set xs}"

lemma page_live_eq: "page_free w pr xs \<Longrightarrow> page_live w pr = pblocks pr - set xs"
  by (auto simp: page_live_def dest: page_free_unique)

lemma live_pages: "live h = (\<Union>i \<in> {i. used h i}. page_live (words h) (pagerefs h ! i) \<times> {psize (pagerefs h ! i)})"
  by (auto simp: live_def page_live_def)

lemma heap_invD:
  assumes "heap_inv X h"
  shows "lists_fit h" "used h i \<Longrightarrow> page_ok (words h) (pagerefs h ! i)"
    "used h i \<Longrightarrow> i \<notin> X \<Longrightarrow> nfree (pagerefs h ! i) < PAGE_SIZE div psize (pagerefs h ! i)"
    "used h i \<Longrightarrow> used h j \<Longrightarrow> PR_PAGEADDR (pagerefs h ! i) = PR_PAGEADDR (pagerefs h ! j) \<Longrightarrow> i = j"
  using assms by (auto simp: heap_inv_def)

lemma page_okD:
  assumes "page_ok w pr"
  obtains xs where "PR_BLOCKTYPE pr < NSIZES" "0 < PR_PAGEADDR pr" "page_free w pr xs"
  using assms by (auto simp: page_ok_def)

lemma lists_fit_upd:
  assumes "lists_fit h" "next_all pr = next_all (pagerefs h ! i)" "next_samesize pr = next_samesize (pagerefs h ! i)"
    "PR_BLOCKTYPE pr = PR_BLOCKTYPE (pagerefs h ! i)"
  shows "lists_fit (h\<lparr>words := w, pagerefs := (pagerefs h)[i := pr]\<rparr>)"
proof -
  let ?refs = "(pagerefs h)[i := pr]"
  have eq: "next_all (?refs ! k) = next_all (pagerefs h ! k) \<and> next_samesize (?refs ! k) = next_samesize (pagerefs h ! k) \<and>
    PR_BLOCKTYPE (?refs ! k) = PR_BLOCKTYPE (pagerefs h ! k)" for k
  proof (cases "k = i \<and> i < length (pagerefs h)")
    case True
    then show ?thesis using assms(2-) by simp
  next
    case False
    then have "?refs ! k = pagerefs h ! k" by (cases "k = i") (simp_all add: list_update_beyond)
    then show ?thesis by simp
  qed
  have p: "path next_all (pagerefs h) q xs \<Longrightarrow> path next_all ?refs q xs"
    "path next_samesize (pagerefs h) q xs \<Longrightarrow> path next_samesize ?refs q xs" for q xs
    using path_cong [of next_all "pagerefs h" q xs ?refs] path_cong [of next_samesize "pagerefs h" q xs ?refs] eq by simp_all
  have u: "used (h\<lparr>words := w, pagerefs := ?refs\<rparr>) k = used h k" for k by (simp add: used_def)
  show ?thesis unfolding lists_fit_def u
  proof (intro conjI allI impI, goal_cases)
    case 4
    then show ?case using assms(1) p(1) by (auto simp: lists_fit_def)
  next
    case (5 b)
    then obtain sl where "path next_samesize (pagerefs h) (sizebases h ! b) sl" "distinct sl"
      "set sl = {i. used h i \<and> PR_BLOCKTYPE (pagerefs h ! i) = b}" using assms(1) by (auto simp: lists_fit_def)
    then show ?case using p(2) eq by (intro exI [of _ sl]) simp
  qed (use assms(1) in \<open>simp_all add: lists_fit_def\<close>)
qed

lemma pblocks_in_page:
  "PR_BLOCKTYPE pr < NSIZES \<Longrightarrow> x \<in> pblocks pr \<Longrightarrow> PR_PAGEADDR pr \<le> x \<and> x < PR_PAGEADDR pr + PAGE_SIZE"
  using pblocks_range [of pr x] sizes_facts(1) [of "PR_BLOCKTYPE pr"] by (simp add: psize_def)

lemma pblocks_pages_disjoint:
  assumes "PR_BLOCKTYPE p < NSIZES" "PR_BLOCKTYPE q < NSIZES" "PR_PAGEADDR p \<noteq> PR_PAGEADDR q"
  shows "pblocks p \<inter> pblocks q = {}"
  using pages_disjoint [OF assms(3)] pblocks_in_page [OF assms(1)] pblocks_in_page [OF assms(2)] by blast

lemma page_free_elsewhere:
  assumes "PR_BLOCKTYPE q < NSIZES" "PR_PAGEADDR q \<noteq> PR_PAGEADDR pr"
    and w: "\<And>x. \<not> (PR_PAGEADDR pr \<le> x \<and> x < PR_PAGEADDR pr + PAGE_SIZE) \<Longrightarrow> w x = w0 x"
  shows "page_free w q ys \<longleftrightarrow> page_free w0 q ys"
proof -
  have eqw: "w x = w0 x" if "x \<in> pblocks q" for x
    using w pages_disjoint [OF assms(2)] pblocks_in_page [OF assms(1) that] by blast
  show ?thesis
  proof
    assume f: "page_free w q ys"
    then have "set ys \<subseteq> pblocks q" by (simp add: page_free_def)
    then show "page_free w0 q ys" by (intro page_free_cong [OF f] eqw [symmetric]) blast
  next
    assume f: "page_free w0 q ys"
    then have "set ys \<subseteq> pblocks q" by (simp add: page_free_def)
    then show "page_free w q ys" by (intro page_free_cong [OF f] eqw) blast
  qed
qed

text \<open>A change of one page: its reference \<open>pr\<close>, and words that no free list of another page uses.\<close>

lemma change_page:
  assumes inv: "heap_inv X h" and i: "used h i"
    and pr: "next_all pr = next_all (pagerefs h ! i)" "next_samesize pr = next_samesize (pagerefs h ! i)"
      "pageaddr_and_blocktype pr = pageaddr_and_blocktype (pagerefs h ! i)"
    and free: "page_free w pr xs" and n: "i \<notin> Y \<Longrightarrow> nfree pr < PAGE_SIZE div psize pr" and XY: "X \<subseteq> insert i Y"
    and w: "\<And>x. \<not> (PR_PAGEADDR pr \<le> x \<and> x < PR_PAGEADDR pr + PAGE_SIZE) \<Longrightarrow> w x = words h x"
  defines "h' \<equiv> h\<lparr>words := w, pagerefs := (pagerefs h)[i := pr]\<rparr>"
  shows "heap_inv Y h'"
    "live h' = live h - page_live (words h) (pagerefs h ! i) \<times> {psize pr} \<union> page_live w pr \<times> {psize pr}"
proof -
  let ?old = "pagerefs h ! i"
  have same: "PR_PAGEADDR pr = PR_PAGEADDR ?old" "PR_BLOCKTYPE pr = PR_BLOCKTYPE ?old" "psize pr = psize ?old" "pblocks pr = pblocks ?old"
    using pr(3) by (simp_all add: PR_PAGEADDR_def PR_BLOCKTYPE_def psize_def pblocks_def)
  have il: "i < length (pagerefs h)" using i heap_invD(1) [OF inv] by (simp add: used_def lists_fit_def)
  have u: "used h' k = used h k" for k by (simp add: h'_def used_def)
  have refs: "pagerefs h' ! k = (if k = i then pr else pagerefs h ! k)" for k using il by (simp add: h'_def nth_list_update)
  have other: "page_free w (pagerefs h ! k) ys \<longleftrightarrow> page_free (words h) (pagerefs h ! k) ys" if "used h k" "k \<noteq> i" for k ys
    using page_free_elsewhere [of "pagerefs h ! k" pr w "words h"] w heap_invD(2) [OF inv that(1)] heap_invD(4) [OF inv that(1) i] that(2) same(1)
    by (auto simp: page_ok_def)
  have ok: "page_ok w (pagerefs h' ! k)" if "used h k" for k
    using that heap_invD(2) [OF inv that] heap_invD(2) [OF inv i] free other [of k] refs same by (auto simp: page_ok_def)
  have "lists_fit h'" unfolding h'_def by (rule lists_fit_upd [OF heap_invD(1) [OF inv] pr(1,2) same(2)])
  moreover have "nfree (pagerefs h' ! k) < PAGE_SIZE div psize (pagerefs h' ! k)" if "used h k" "k \<notin> Y" for k
    using heap_invD(3) [OF inv that(1)] n XY that refs by auto
  moreover have "PR_PAGEADDR (pagerefs h' ! k) = PR_PAGEADDR (pagerefs h ! k)" for k using refs same by simp
  ultimately show "heap_inv Y h'" using ok heap_invD(4) [OF inv] unfolding heap_inv_def u by (simp add: h'_def)
  have pl: "page_live w (pagerefs h ! k) = page_live (words h) (pagerefs h ! k)" if "used h k" "k \<noteq> i" for k
    using other [OF that] by (simp add: page_live_def)
  have disj: "page_live (words h) (pagerefs h ! k) \<inter> page_live (words h) ?old = {}" if "used h k" "k \<noteq> i" for k
    using pblocks_pages_disjoint [of "pagerefs h ! k" ?old] heap_invD(2) [OF inv that(1)] heap_invD(2) [OF inv i]
      heap_invD(4) [OF inv that(1) i] that(2) by (auto simp: page_live_def page_ok_def)
  have "live h' = (\<Union>k \<in> {k. used h k} - {i}. page_live (words h) (pagerefs h ! k) \<times> {psize (pagerefs h ! k)}) \<union> page_live w pr \<times> {psize pr}"
  proof -
    have U: "{k. used h k} = insert i ({k. used h k} - {i})" using i by auto
    have wd: "words h' = w" by (simp add: h'_def)
    have "live h' = (\<Union>k \<in> {k. used h k}. page_live w (pagerefs h' ! k) \<times> {psize (pagerefs h' ! k)})"
      by (simp only: live_pages u wd)
    also have "\<dots> = (\<Union>k \<in> insert i ({k. used h k} - {i}). page_live w (pagerefs h' ! k) \<times> {psize (pagerefs h' ! k)})"
      by (rule SUP_cong [OF U refl])
    also have "\<dots> = page_live w pr \<times> {psize pr} \<union> (\<Union>k \<in> {k. used h k} - {i}. page_live w (pagerefs h' ! k) \<times> {psize (pagerefs h' ! k)})"
      by (simp only: UN_insert refs if_True simp_thms)
    also have "(\<Union>k \<in> {k. used h k} - {i}. page_live w (pagerefs h' ! k) \<times> {psize (pagerefs h' ! k)}) =
        (\<Union>k \<in> {k. used h k} - {i}. page_live (words h) (pagerefs h ! k) \<times> {psize (pagerefs h ! k)})"
      by (rule SUP_cong) (simp_all add: refs pl)
    finally show ?thesis by (simp add: Un_commute)
  qed
  also have "(\<Union>k \<in> {k. used h k} - {i}. page_live (words h) (pagerefs h ! k) \<times> {psize (pagerefs h ! k)}) =
      live h - page_live (words h) ?old \<times> {psize pr}"
    using i disj unfolding live_pages same(3) by auto
  finally show "live h' = live h - page_live (words h) ?old \<times> {psize pr} \<union> page_live w pr \<times> {psize pr}" .
qed

section \<open>Allocation\<close>

lemma doalloc_spec:
  assumes inv: "heap_inv {i} h" and i: "used h i" and n: "0 < nfree (pagerefs h ! i)"
  shows "\<exists>x h'. doalloc i h = Some (x, h') \<and> heap_ok h' \<and> x \<noteq> 0 \<and> (x, psize (pagerefs h ! i)) \<notin> live h \<and>
    live h' = insert (x, psize (pagerefs h ! i)) (live h) \<and> words h' = words h"
proof -
  let ?pr = "pagerefs h ! i"
  obtain ys where b: "PR_BLOCKTYPE ?pr < NSIZES" "page_free (words h) ?pr ys"
    using heap_invD(2) [OF inv i] by (auto elim: page_okD)
  then obtain x xs where xs: "ys = x # xs" using n by (cases ys) (auto simp: page_free_def)
  note f = b(2) [unfolded xs]
  let ?new = "popped (words h) ?pr x"
  have il: "i < length (pagerefs h)" using i heap_invD(1) [OF inv] by (simp add: used_def lists_fit_def)
  have f': "page_free (words h) ?new xs" by (rule page_free_popped [OF f b(1)])
  have nb: "nfree ?new < PAGE_SIZE div psize ?new" using page_free_bound(1) [OF f b(1)] n by simp
  have "words h = words h" ..
  note ch = change_page [where X = "{i}" and Y = "{}" and pr = ?new and w = "words h" and xs = xs, OF inv i]
  have h': "h\<lparr>words := words h, pagerefs := (pagerefs h)[i := ?new]\<rparr> = h\<lparr>pagerefs := (pagerefs h)[i := ?new]\<rparr>" by simp
  have pab: "pageaddr_and_blocktype ?new = pageaddr_and_blocktype ?pr" by (simp add: popped_def)
  have ok: "heap_ok (h\<lparr>pagerefs := (pagerefs h)[i := ?new]\<rparr>)"
    using ch(1) pab f' nb unfolding h' by simp
  have lv: "live (h\<lparr>pagerefs := (pagerefs h)[i := ?new]\<rparr>) =
      live h - page_live (words h) ?pr \<times> {psize ?new} \<union> page_live (words h) ?new \<times> {psize ?new}"
    using ch(2) pab f' nb unfolding h' by simp
  have x: "x \<noteq> 0" "x \<in> pblocks ?pr" "x \<notin> set xs" using f page_free_pop(4) [OF f b(1)] by (auto simp: page_free_def)
  have "page_live (words h) ?new = insert x (page_live (words h) ?pr)"
    using x page_live_eq [OF f] page_live_eq [OF f'] by auto
  moreover have sub: "page_live (words h) ?pr \<times> {psize ?pr} \<subseteq> live h" using i by (auto simp: live_pages)
  ultimately have "live (h\<lparr>pagerefs := (pagerefs h)[i := ?new]\<rparr>) = insert (x, psize ?pr) (live h)" unfolding lv by auto
  moreover have "(x, psize ?pr) \<notin> live h"
  proof
    assume "(x, psize ?pr) \<in> live h"
    then obtain j where j: "used h j" "x \<in> page_live (words h) (pagerefs h ! j)" by (auto simp: live_pages)
    then have "j \<noteq> i" using page_live_eq [OF f] by auto
    moreover have "PR_BLOCKTYPE (pagerefs h ! j) < NSIZES" using heap_invD(2) [OF inv j(1)] by (simp add: page_ok_def)
    ultimately show False
      using pblocks_pages_disjoint [of "pagerefs h ! j" ?pr] b(1) heap_invD(4) [OF inv j(1) i] x(2) j(2) by (auto simp: page_live_def)
  qed
  moreover have "words (h\<lparr>pagerefs := (pagerefs h)[i := ?new]\<rparr>) = words h" by simp
  ultimately show ?thesis using doalloc_pop [OF il f b(1)] ok x(1) by blast
qed

text \<open>A page that \<^verbatim>\<open>alloc_kpages\<close> may hand out: aligned and not in use here.\<close>

definition fresh_page :: "kheap \<Rightarrow> nat \<Rightarrow> bool" where
  "fresh_page h p \<longleftrightarrow> p \<noteq> 0 \<and> p mod PAGE_SIZE = 0 \<and> (\<forall>i. used h i \<longrightarrow> PR_PAGEADDR (pagerefs h ! i) \<noteq> p)"

lemma mkpab_fields:
  assumes "b < NSIZES" "p mod PAGE_SIZE = 0" "pageaddr_and_blocktype pr = MKPAB p b"
  shows "PR_PAGEADDR pr = p" "PR_BLOCKTYPE pr = b"
proof -
  have b: "b < PAGE_SIZE" using assms(1) by (simp add: NSIZES_def PAGE_SIZE_def)
  have p: "p div PAGE_SIZE * PAGE_SIZE = p" using assms(2) by auto
  then have "MKPAB p b = p + b" using b by (simp add: MKPAB_def)
  moreover have "(p + b) div PAGE_SIZE = p div PAGE_SIZE" using assms(2) b by (simp add: div_add1_eq)
  moreover have "(p + b) mod PAGE_SIZE = b" using assms(2) b by (simp add: mod_add_eq [symmetric])
  ultimately show "PR_PAGEADDR pr = p" "PR_BLOCKTYPE pr = b" using assms(3) p by (simp_all add: PR_PAGEADDR_def PR_BLOCKTYPE_def)
qed

lemma fresh_page_free:
  assumes b: "b < NSIZES" and p: "p \<noteq> 0" "p mod PAGE_SIZE = 0"
    and pr: "pageaddr_and_blocktype pr = MKPAB p b" "nfree pr = PAGE_SIZE div sizes ! b"
      "freelist_offset pr = (PAGE_SIZE div sizes ! b - 1) * sizes ! b"
  shows "\<exists>w'. fl_loop (w(p := 0)) p (sizes ! b) (PAGE_SIZE div sizes ! b - 1) = Some w' \<and>
    (\<exists>xs. page_free w' pr xs) \<and> (\<forall>x. \<not> (p \<le> x \<and> x < p + PAGE_SIZE) \<longrightarrow> w' x = w x)"
proof -
  let ?s = "sizes ! b" and ?n = "PAGE_SIZE div sizes ! b"
  note f = sizes_facts [OF b] and m = mkpab_fields [OF b p(2) pr(1)]
  define w' where "w' = (\<lambda>a. if \<exists>i. 1 \<le> i \<and> i \<le> ?n - 1 \<and> a = p + i * ?s then a - ?s else (w(p := 0)) a)"
  have s: "0 < ?s" using f(1) by simp
  have loop: "fl_loop (w(p := 0)) p ?s (?n - 1) = Some w'" unfolding w'_def by (rule fl_loop_spec [OF s])
  let ?xs = "map (\<lambda>i. p + i * ?s) (rev [0..<?n])"
  have n: "Suc (?n - 1) = ?n" using f(5) by simp
  have "chain w' (p + (?n - 1) * ?s) (map (\<lambda>i. p + i * ?s) (rev [0..<Suc (?n - 1)]))"
    by (rule chain_fresh) (use p s in \<open>auto simp: w'_def\<close>)
  moreover have "fl_start pr = p + (?n - 1) * ?s"
  proof -
    have "(?n - 1) * ?s < PAGE_SIZE" using f(3,1) n by (metis diff_less mult_less_cancel2 less_numeral_extra(1) zero_less_diff add_0 s f(5) less_le_trans zero_less_numeral)
    then show ?thesis using pr(3) m by (simp add: fl_start_def INVALID_OFFSET_def PAGE_SIZE_def)
  qed
  moreover have "distinct ?xs" using s by (auto simp: distinct_map inj_on_def)
  moreover have "set ?xs \<subseteq> pblocks pr" using m by (auto simp: pblocks_def psize_def)
  ultimately have "page_free w' pr ?xs" using pr(2) n by (simp add: page_free_def)
  moreover have "w' x = w x" if "\<not> (p \<le> x \<and> x < p + PAGE_SIZE)" for x
  proof -
    have none: "\<not> (\<exists>i. 1 \<le> i \<and> i \<le> ?n - 1 \<and> x = p + i * ?s)"
    proof
      assume "\<exists>i. 1 \<le> i \<and> i \<le> ?n - 1 \<and> x = p + i * ?s"
      then obtain i where "i \<le> ?n - 1" "x = p + i * ?s" by blast
      then have i: "i < ?n" "x = p + i * ?s" using n by linarith+
      then have "i * ?s < ?n * ?s" using s by simp
      then show False using i that f(3) by simp
    qed
    have "x \<noteq> p" using that by (auto simp: PAGE_SIZE_def)
    then show ?thesis unfolding w'_def if_not_P [OF none] by simp
  qed
  ultimately show ?thesis using loop by blast
qed

lemma path_other:
  assumes "path sel refs q xs" "j \<notin> set xs"
  shows "path sel (refs[j := pr]) q xs"
  by (rule path_cong [OF assms(1)]) (use assms(2) in \<open>auto intro!: arg_cong [of _ _ sel] nth_list_update_neq\<close>)

lemma lists_fit_push:
  assumes fit: "lists_fit h" and j: "j < NPAGEREFS" "\<not> used h j" and b: "b < NSIZES"
    and h1: "length inuse = INUSE_WORDS" "\<And>l. used (h\<lparr>pagerefs_inuse := inuse\<rparr>) l \<longleftrightarrow> used h l \<or> l = j"
    and pr: "next_all pr = allbase h" "next_samesize pr = sizebases h ! b" "PR_BLOCKTYPE pr = b"
    and h2_def: "h2 = h\<lparr>pagerefs_inuse := inuse, words := w, pagerefs := (pagerefs h)[j := pr], sizebases := (sizebases h)[b := Some j], allbase := Some j\<rparr>"
  shows "lists_fit h2"
proof -
  have len: "length (pagerefs h) = NPAGEREFS" "length (sizebases h) = NSIZES" using fit by (simp_all add: lists_fit_def)
  have u: "used h2 l \<longleftrightarrow> used h l \<or> l = j" for l using h1(2) [of l] by (simp add: h2_def used_def)
  obtain al where al: "path next_all (pagerefs h) (allbase h) al" "distinct al" "set al = {i. used h i}"
    using fit by (auto simp: lists_fit_def)
  have A: "path next_all (pagerefs h2) (allbase h2) (j # al)" "distinct (j # al)" "set (j # al) = {i. used h2 i}"
    using path_other [OF al(1), of j pr] al j len pr(1) u by (auto simp: h2_def)
  have S: "\<exists>sl. path next_samesize (pagerefs h2) (sizebases h2 ! c) sl \<and> distinct sl \<and>
      set sl = {i. used h2 i \<and> PR_BLOCKTYPE (pagerefs h2 ! i) = c}" if c: "c < NSIZES" for c
  proof -
    obtain sl where sl: "path next_samesize (pagerefs h) (sizebases h ! c) sl" "distinct sl"
      "set sl = {i. used h i \<and> PR_BLOCKTYPE (pagerefs h ! i) = c}" using fit c by (auto simp: lists_fit_def)
    have js: "j \<notin> set sl" using sl(3) j by simp
    have refs: "PR_BLOCKTYPE (pagerefs h2 ! i) = (if i = j then b else PR_BLOCKTYPE (pagerefs h ! i))" for i
      using j(1) len pr(3) by (auto simp: h2_def)
    have set2: "{i. used h2 i \<and> PR_BLOCKTYPE (pagerefs h2 ! i) = c} = (if c = b then {j} else {}) \<union> set sl"
      using j(2) sl(3) by (auto simp: u refs)
    show ?thesis
    proof (cases "c = b")
      case True
      then have "path next_samesize (pagerefs h2) (sizebases h2 ! c) (j # sl)"
        using path_other [OF sl(1) js, of pr] pr(2) len j b by (simp add: h2_def)
      then show ?thesis using js sl(2) set2 True by (intro exI [of _ "j # sl"]) simp
    next
      case False
      then have "path next_samesize (pagerefs h2) (sizebases h2 ! c) sl"
        using path_other [OF sl(1) js, of pr] by (simp add: h2_def)
      then show ?thesis using sl(2) set2 False by (intro exI [of _ sl]) simp
    qed
  qed
  have "length (pagerefs h2) = NPAGEREFS" "length (pagerefs_inuse h2) = INUSE_WORDS" "length (sizebases h2) = NSIZES"
    using len h1(1) by (simp_all add: h2_def)
  then show ?thesis unfolding lists_fit_def using A S by blast
qed

lemma new_page_spec:
  assumes inv: "heap_ok h" and j: "j < NPAGEREFS" "\<not> used h j" and b: "b < NSIZES"
    and h1: "length inuse = INUSE_WORDS" "\<And>l. used (h\<lparr>pagerefs_inuse := inuse\<rparr>) l \<longleftrightarrow> used h l \<or> l = j"
    and p: "fresh_page h p"
  shows "\<exists>h2. new_page j p b (h\<lparr>pagerefs_inuse := inuse\<rparr>) = Some h2 \<and> heap_inv {j} h2 \<and> used h2 j \<and>
    psize (pagerefs h2 ! j) = sizes ! b \<and> 0 < nfree (pagerefs h2 ! j) \<and> live h2 = live h \<and>
    (\<forall>x. \<not> (p \<le> x \<and> x < p + PAGE_SIZE) \<longrightarrow> words h2 x = words h x)"
proof -
  note f = sizes_facts [OF b]
  have fit: "lists_fit h" and len: "length (pagerefs h) = NPAGEREFS" "length (sizebases h) = NSIZES"
    using heap_invD(1) [OF inv] by (simp_all add: lists_fit_def)
  define pr where "pr = (pagerefs h ! j)\<lparr>pageaddr_and_blocktype := MKPAB p b, nfree := PAGE_SIZE div sizes ! b,
    freelist_offset := (PAGE_SIZE div sizes ! b - 1) * sizes ! b, next_samesize := sizebases h ! b, next_all := allbase h\<rparr>"
  have pp: "p \<noteq> 0" "p mod PAGE_SIZE = 0" "\<And>i. used h i \<Longrightarrow> PR_PAGEADDR (pagerefs h ! i) \<noteq> p" using p by (auto simp: fresh_page_def)
  have m: "PR_PAGEADDR pr = p" "PR_BLOCKTYPE pr = b" by (rule mkpab_fields [OF b pp(2)]; simp add: pr_def)+
  obtain w xs where w: "fl_loop ((words h)(p := 0)) p (sizes ! b) (PAGE_SIZE div sizes ! b - 1) = Some w" "page_free w pr xs"
    "\<And>x. \<not> (p \<le> x \<and> x < p + PAGE_SIZE) \<Longrightarrow> w x = words h x"
    using fresh_page_free [OF b pp(1,2), of pr "words h"] by (auto simp: pr_def)
  define h2 where "h2 = h\<lparr>pagerefs_inuse := inuse, words := w, pagerefs := (pagerefs h)[j := pr], sizebases := (sizebases h)[b := Some j], allbase := Some j\<rparr>"
  have np: "new_page j p b (h\<lparr>pagerefs_inuse := inuse\<rparr>) = Some h2"
    using j len f(7) b w(1) by (simp add: new_page_def h2_def pr_def Let_def)
  have u: "used h2 l \<longleftrightarrow> used h l \<or> l = j" for l using h1(2) [of l] by (simp add: h2_def used_def)
  have refs: "pagerefs h2 ! k = (if k = j then pr else pagerefs h ! k)" for k using j(1) len by (auto simp: h2_def)
  have other: "page_free w (pagerefs h ! k) ys \<longleftrightarrow> page_free (words h) (pagerefs h ! k) ys" if "used h k" for k ys
    using page_free_elsewhere [of "pagerefs h ! k" pr w "words h"] w(3) m pp(3) that heap_invD(2) [OF inv that] by (auto simp: page_ok_def)
  have "lists_fit h2"
    by (rule lists_fit_push [OF fit j b h1 _ _ m(2) h2_def]) (simp_all add: pr_def)
  moreover have "page_ok w (pagerefs h2 ! k)" if "used h2 k" for k
    using that u refs [of k] m b pp(1) w(2) heap_invD(2) [OF inv, of k] other [of k] by (auto simp: page_ok_def)
  moreover have "nfree (pagerefs h2 ! k) < PAGE_SIZE div psize (pagerefs h2 ! k)" if "used h2 k" "k \<notin> {j}" for k
    using that u refs heap_invD(3) [OF inv, of k] by auto
  moreover have "PR_PAGEADDR (pagerefs h2 ! k) = PR_PAGEADDR (pagerefs h2 ! l) \<Longrightarrow> k = l" if "used h2 k" "used h2 l" for k l
    using that u refs m(1) pp(3) [of k] pp(3) [of l] heap_invD(4) [OF inv, of k l] by (auto split: if_splits)
  ultimately have inv2: "heap_inv {j} h2" unfolding heap_inv_def by (simp add: h2_def)
  have nf: "nfree pr = PAGE_SIZE div psize pr" using m by (simp add: pr_def psize_def PR_BLOCKTYPE_def)
  then have "page_live w pr = {}" using page_live_eq [OF w(2)] page_free_bound(2) [OF w(2)] m b by simp
  moreover have "page_live w (pagerefs h ! k) = page_live (words h) (pagerefs h ! k)" if "used h k" for k
    using other [OF that] by (simp add: page_live_def)
  moreover have w2: "words h2 = w" by (simp add: h2_def)
  ultimately have lv: "live h2 = live h" using j(2) by (auto simp: live_pages refs u split: if_splits)
  have "0 < nfree pr" "psize pr = sizes ! b" using f(5) m(2) by (simp_all add: pr_def psize_def)
  then show ?thesis using np u [of j] refs [of j] inv2 lv w(3) w2 by (intro exI [of _ h2]) simp
qed

lemma freepageref_undo:
  assumes "h1 = h\<lparr>pagerefs_inuse := inuse\<rparr>" "length inuse = INUSE_WORDS" "length (pagerefs_inuse h) = INUSE_WORDS"
    "\<And>l. used h1 l \<longleftrightarrow> used h l \<or> l = j" "\<not> used h j"
  shows "\<exists>inuse'. freepageref j h1 = Some (h\<lparr>pagerefs_inuse := inuse'\<rparr>) \<and> length inuse' = INUSE_WORDS \<and>
    (\<forall>l. used (h\<lparr>pagerefs_inuse := inuse'\<rparr>) l \<longleftrightarrow> used h l)"
  using freepageref_spec [of h1 j] assms by auto

lemma heap_inv_inuse:
  assumes "heap_inv X h" "length inuse = INUSE_WORDS" "\<And>l. used (h\<lparr>pagerefs_inuse := inuse\<rparr>) l \<longleftrightarrow> used h l"
  shows "heap_inv X (h\<lparr>pagerefs_inuse := inuse\<rparr>)" "live (h\<lparr>pagerefs_inuse := inuse\<rparr>) = live h"
  using assms by (simp_all add: heap_inv_def lists_fit_def live_pages)

text \<open>The block \<open>a\<close> of size \<open>s\<close> is live: the page it is on, and that page's free list.\<close>

lemma live_page:
  assumes "heap_inv X h" "(a, s) \<in> live h"
  obtains i xs where "used h i" "s = psize (pagerefs h ! i)" "a \<in> pblocks (pagerefs h ! i)"
    "page_free (words h) (pagerefs h ! i) xs" "a \<notin> set xs" "PR_BLOCKTYPE (pagerefs h ! i) < NSIZES" "0 < PR_PAGEADDR (pagerefs h ! i)"
proof -
  obtain i where i: "used h i" "s = psize (pagerefs h ! i)" "a \<in> page_live (words h) (pagerefs h ! i)"
    using assms(2) by (auto simp: live_pages)
  obtain xs where "page_free (words h) (pagerefs h ! i) xs" "PR_BLOCKTYPE (pagerefs h ! i) < NSIZES" "0 < PR_PAGEADDR (pagerefs h ! i)"
    using heap_invD(2) [OF assms(1) i(1)] by (auto elim: page_okD)
  then show ?thesis using that [of i xs] i page_live_eq by auto
qed

lemma pages_apart:
  assumes "PR_PAGEADDR p \<noteq> PR_PAGEADDR q"
  shows "PR_PAGEADDR p + PAGE_SIZE \<le> PR_PAGEADDR q \<or> PR_PAGEADDR q + PAGE_SIZE \<le> PR_PAGEADDR p"
  using pages_disjoint [OF assms, of "PR_PAGEADDR q"] pages_disjoint [OF assms, of "PR_PAGEADDR p"] by (force simp: PAGE_SIZE_def)

text \<open>No live block reaches into a page that is not in use.\<close>

lemma live_off_page:
  assumes inv: "heap_inv X h" and b: "(b, t) \<in> live h" and p: "p mod PAGE_SIZE = 0" "\<And>i. used h i \<Longrightarrow> PR_PAGEADDR (pagerefs h ! i) \<noteq> p"
  shows "b + t \<le> p \<or> p + PAGE_SIZE \<le> b"
proof -
  obtain j where j: "used h j" "t = psize (pagerefs h ! j)" "b \<in> pblocks (pagerefs h ! j)" "PR_BLOCKTYPE (pagerefs h ! j) < NSIZES"
    using live_page [OF inv b] by metis
  define q where "q = (pagerefs h ! j)\<lparr>pageaddr_and_blocktype := MKPAB p 0\<rparr>"
  have q: "PR_PAGEADDR q = p" using mkpab_fields(1) [of 0 p q] p(1) by (simp add: q_def NSIZES_def)
  then have "PR_PAGEADDR (pagerefs h ! j) \<noteq> PR_PAGEADDR q" using p(2) [OF j(1)] by simp
  from pages_apart [OF this] show ?thesis using pblocks_range [OF j(4,3)] j(2) q by linarith
qed

lemma subpage_kmalloc_spec:
  assumes inv: "heap_ok h" and sz: "sz \<le> LARGEST_SUBPAGE_SIZE" and p: "page = 0 \<or> fresh_page h page"
  shows "\<exists>x h'. subpage_kmalloc page sz h = Some (x, h') \<and> heap_ok h' \<and>
    (if x = 0 then (page = 0 \<or> (\<forall>k < NPAGEREFS. used h k)) \<and> live h' = live h
     else \<exists>s. sz \<le> s \<and> (x, s) \<notin> live h \<and> live h' = insert (x, s) (live h)) \<and>
    (\<forall>(b, t) \<in> live h. \<forall>y. b \<le> y \<and> y < b + t \<longrightarrow> words h' y = words h y)"
proof -
  obtain b where b: "blocktype sz = Some b" "b < NSIZES" "sz \<le> sizes ! b" using blocktype_ok [OF sz] by blast
  have fit: "length (sizebases h) = NSIZES" "length (pagerefs_inuse h) = INUSE_WORDS" using heap_invD(1) [OF inv] by (simp_all add: lists_fit_def)
  obtain sl where sl: "path next_samesize (pagerefs h) (sizebases h ! b) sl"
    "set sl = {i. used h i \<and> PR_BLOCKTYPE (pagerefs h ! i) = b}" using heap_invD(1) [OF inv] b(2) by (auto simp: lists_fit_def)
  obtain r where r: "find_page h b (sizebases h ! b) = Some r"
    "case r of None \<Rightarrow> True | Some i \<Rightarrow> i \<in> set sl \<and> 0 < nfree (pagerefs h ! i)"
    using find_page_spec [OF sl(1), of b] sl(2) by auto
  have go: "subpage_kmalloc page sz h = (case r of Some i \<Rightarrow> doalloc i h | None \<Rightarrow> do {
      (r, h1) \<leftarrow> allocpageref h;
      case r of None \<Rightarrow> Some (0, h1)
      | Some j \<Rightarrow> if page = 0 then do { h2 \<leftarrow> freepageref j h1; Some (0, h2) }
          else do { h2 \<leftarrow> new_page j page b h1; doalloc j h2 } })"
    using b fit r(1) by (simp add: subpage_kmalloc_def)
  show ?thesis
  proof (cases r)
    case (Some i)
    then have i: "used h i" "0 < nfree (pagerefs h ! i)" "psize (pagerefs h ! i) = sizes ! b" using r(2) sl(2) by (auto simp: psize_def)
    have "heap_inv {i} h" using inv by (auto simp: heap_inv_def)
    from doalloc_spec [OF this i(1,2)] obtain x h' where d: "doalloc i h = Some (x, h')" "heap_ok h'" "x \<noteq> 0"
      "(x, sizes ! b) \<notin> live h" "live h' = insert (x, sizes ! b) (live h)" "words h' = words h" unfolding i(3) by blast
    then have "\<exists>s. sz \<le> s \<and> (x, s) \<notin> live h \<and> live h' = insert (x, s) (live h)" using b(3) by blast
    then show ?thesis using d(1-3,6) go Some by simp
  next
    case None
    obtain r' h1 where a: "allocpageref h = Some (r', h1)"
      "case r' of None \<Rightarrow> h1 = h \<and> (\<forall>k < NPAGEREFS. used h k)
       | Some k \<Rightarrow> k < NPAGEREFS \<and> \<not> used h k \<and> (\<exists>inuse. h1 = h\<lparr>pagerefs_inuse := inuse\<rparr> \<and> length inuse = INUSE_WORDS) \<and>
          (\<forall>l. used h1 l \<longleftrightarrow> used h l \<or> l = k)" using allocpageref_spec [OF fit(2)] by blast
    show ?thesis
    proof (cases r')
      case None
      then show ?thesis using a go \<open>r = None\<close> inv by simp
    next
      case (Some j)
      then obtain inuse where j: "j < NPAGEREFS" "\<not> used h j" "h1 = h\<lparr>pagerefs_inuse := inuse\<rparr>" "length inuse = INUSE_WORDS"
        "\<And>l. used h1 l \<longleftrightarrow> used h l \<or> l = j" using a(2) by auto
      show ?thesis
      proof (cases "page = 0")
        case True
        obtain inuse' where f: "freepageref j h1 = Some (h\<lparr>pagerefs_inuse := inuse'\<rparr>)" "length inuse' = INUSE_WORDS"
          "\<And>l. used (h\<lparr>pagerefs_inuse := inuse'\<rparr>) l \<longleftrightarrow> used h l" using freepageref_undo [OF j(3,4) fit(2) j(5,2)] by blast
        then show ?thesis using heap_inv_inuse [OF inv f(2,3)] go \<open>r = None\<close> a(1) Some True by simp
      next
        case False
        then obtain h2 where h2: "new_page j page b h1 = Some h2" "heap_inv {j} h2" "used h2 j"
          "psize (pagerefs h2 ! j) = sizes ! b" "0 < nfree (pagerefs h2 ! j)" "live h2 = live h"
          "\<forall>x. \<not> (page \<le> x \<and> x < page + PAGE_SIZE) \<longrightarrow> words h2 x = words h x"
          using new_page_spec [OF inv j(1,2) b(2) j(4) j(5) [unfolded j(3)], of page] p j(3) by blast
        obtain x h' where d: "doalloc j h2 = Some (x, h')" "heap_ok h'" "x \<noteq> 0"
          "(x, sizes ! b) \<notin> live h" "live h' = insert (x, sizes ! b) (live h)" "words h' = words h2"
          using doalloc_spec [OF h2(2,3,5)] unfolding h2(4,6) by blast
        then have "\<exists>s. sz \<le> s \<and> (x, s) \<notin> live h \<and> live h' = insert (x, s) (live h)" using b(3) by blast
        moreover have "words h' y = words h y" if "(c, t) \<in> live h" "c \<le> y" "y < c + t" for c t y
          using live_off_page [OF inv that(1), of page] p False h2(7) d(6) that(2,3) by (auto simp: fresh_page_def)
        ultimately show ?thesis using d(1-3) go \<open>r = None\<close> a(1) Some False h2(1) by auto
      qed
    qed
  qed
qed

section \<open>Release\<close>

lemma upd_other_field:
  "(\<And>r. g (f r) = g r) \<Longrightarrow> g (refs[c := f (refs ! c)] ! k) = g (refs ! k)"
  by (cases "c = k"; cases "c < length refs") (simp_all add: list_update_beyond)

lemma unlinked_same:
  assumes "refs' = refs \<or> (\<exists>c v. c \<in> set xs \<and> c \<noteq> i \<and> refs' = refs[c := upd v (refs ! c)])" "upd = set_samesize \<or> upd = set_all"
  shows "length refs' = length refs" "pageaddr_and_blocktype (refs' ! k) = pageaddr_and_blocktype (refs ! k)"
    "freelist_offset (refs' ! k) = freelist_offset (refs ! k)" "nfree (refs' ! k) = nfree (refs ! k)"
    "upd = set_samesize \<Longrightarrow> next_all (refs' ! k) = next_all (refs ! k)"
    "upd = set_all \<Longrightarrow> next_samesize (refs' ! k) = next_samesize (refs ! k)"
    "k \<notin> set xs \<Longrightarrow> refs' ! k = refs ! k"
proof -
  have f: "pageaddr_and_blocktype (upd v r) = pageaddr_and_blocktype r" "freelist_offset (upd v r) = freelist_offset r"
    "nfree (upd v r) = nfree r" "upd = set_samesize \<Longrightarrow> next_all (upd v r) = next_all r"
    "upd = set_all \<Longrightarrow> next_samesize (upd v r) = next_samesize r" for v r
    using assms(2) by (auto simp: set_samesize_def set_all_def)
  show "length refs' = length refs" using assms(1) by auto
  show "pageaddr_and_blocktype (refs' ! k) = pageaddr_and_blocktype (refs ! k)" "freelist_offset (refs' ! k) = freelist_offset (refs ! k)"
    "nfree (refs' ! k) = nfree (refs ! k)" using assms(1) f(1-3) by (auto simp: upd_other_field)
  show "next_all (refs' ! k) = next_all (refs ! k)" if "upd = set_samesize" using assms(1) f(4) [OF that] by (auto simp: upd_other_field)
  show "next_samesize (refs' ! k) = next_samesize (refs ! k)" if "upd = set_all" using assms(1) f(5) [OF that] by (auto simp: upd_other_field)
  show "refs' ! k = refs ! k" if "k \<notin> set xs"
    using assms(1) that by (auto intro!: nth_list_update_neq)
qed

text \<open>What \<^verbatim>\<open>remove_lists\<close> leaves: the lists without page reference \<open>i\<close>.\<close>

lemma remove_lists_spec:
  assumes inv: "heap_inv X h" and i: "used h i"
  shows "\<exists>bs al refs. remove_lists i (PR_BLOCKTYPE (pagerefs h ! i)) h = Some (h\<lparr>sizebases := bs, allbase := al, pagerefs := refs\<rparr>) \<and>
    length refs = NPAGEREFS \<and> length bs = NSIZES \<and> (\<forall>k. same_page (refs ! k) (pagerefs h ! k)) \<and>
    (\<exists>xs. path next_all refs al xs \<and> distinct xs \<and> set xs = {k. used h k} - {i}) \<and>
    (\<forall>c < NSIZES. \<exists>xs. path next_samesize refs (bs ! c) xs \<and> distinct xs \<and>
       set xs = {k. used h k \<and> PR_BLOCKTYPE (refs ! k) = c} - {i})"
proof -
  let ?b = "PR_BLOCKTYPE (pagerefs h ! i)"
  have b: "?b < NSIZES" using heap_invD(2) [OF inv i] by (simp add: page_ok_def)
  have len: "length (pagerefs h) = NPAGEREFS" "length (sizebases h) = NSIZES" using heap_invD(1) [OF inv] by (simp_all add: lists_fit_def)
  have L: "\<exists>sl. path next_samesize (pagerefs h) (sizebases h ! c) sl \<and> distinct sl \<and>
      set sl = {k. used h k \<and> PR_BLOCKTYPE (pagerefs h ! k) = c}" if "c < NSIZES" for c
    using heap_invD(1) [OF inv] that by (simp add: lists_fit_def)
  obtain sl where sl: "path next_samesize (pagerefs h) (sizebases h ! ?b) sl" "distinct sl"
    "set sl = {k. used h k \<and> PR_BLOCKTYPE (pagerefs h ! k) = ?b}" using L [OF b] by blast
  obtain al where al: "path next_all (pagerefs h) (allbase h) al" "distinct al" "set al = {k. used h k}"
    using heap_invD(1) [OF inv] by (auto simp: lists_fit_def)
  obtain b1 refs1 where r1: "unlink_loop next_samesize set_samesize i None (sizebases h ! ?b, pagerefs h) = Some (b1, refs1)"
    "path next_samesize refs1 b1 (remove1 i sl)"
    "refs1 = pagerefs h \<or> (\<exists>c v. c \<in> set sl \<and> c \<noteq> i \<and> refs1 = (pagerefs h)[c := set_samesize v (pagerefs h ! c)])"
    using unlink_spec [OF sl(1) _ sl(2), of i set_samesize] sl(3) i by (auto simp: set_samesize_def)
  note s1 = unlinked_same [OF r1(3) disjI1 [OF refl]]
  have "path next_all refs1 (allbase h) al" by (rule path_cong [OF al(1)]) (simp_all add: s1)
  then obtain a2 refs2 where r2: "unlink_loop next_all set_all i None (allbase h, refs1) = Some (a2, refs2)"
    "path next_all refs2 a2 (remove1 i al)"
    "refs2 = refs1 \<or> (\<exists>c v. c \<in> set al \<and> c \<noteq> i \<and> refs2 = refs1[c := set_all v (refs1 ! c)])"
    using unlink_spec [of next_all refs1 "allbase h" al i set_all] al i by (auto simp: set_all_def)
  note s2 = unlinked_same [OF r2(3) disjI2 [OF refl]]
  have same: "same_page (refs2 ! k) (pagerefs h ! k)" for k by (simp add: same_page_def s1 s2)
  have bt: "PR_BLOCKTYPE (refs2 ! k) = PR_BLOCKTYPE (pagerefs h ! k)" for k using same_page_eqs(2) [OF same] .
  have S: "\<exists>xs. path next_samesize refs2 ((sizebases h)[?b := b1] ! c) xs \<and> distinct xs \<and>
      set xs = {k. used h k \<and> PR_BLOCKTYPE (refs2 ! k) = c} - {i}" if c: "c < NSIZES" for c
  proof (cases "c = ?b")
    case True
    have "path next_samesize refs2 b1 (remove1 i sl)" by (rule path_cong [OF r1(2)]) (simp_all add: s2)
    then show ?thesis using True sl(2,3) b len bt by (intro exI [of _ "remove1 i sl"]) (simp add: set_remove1_eq)
  next
    case False
    obtain xs where xs: "path next_samesize (pagerefs h) (sizebases h ! c) xs" "distinct xs"
      "set xs = {k. used h k \<and> PR_BLOCKTYPE (pagerefs h ! k) = c}" using L [OF c] by blast
    have "path next_samesize refs2 (sizebases h ! c) xs"
      by (rule path_cong [OF xs(1)]) (use xs(3) sl(3) False in \<open>simp_all add: s2 s1(1,7)\<close>)
    then show ?thesis using xs False bt by (intro exI [of _ xs]) auto
  qed
  have "remove_lists i ?b h = Some (h\<lparr>sizebases := (sizebases h)[?b := b1], allbase := a2, pagerefs := refs2\<rparr>)"
    using b len r1(1) r2(1) by (simp add: remove_lists_def)
  moreover have "\<exists>xs. path next_all refs2 a2 xs \<and> distinct xs \<and> set xs = {k. used h k} - {i}"
    using r2(2) al(2,3) by (intro exI [of _ "remove1 i al"]) (simp add: set_remove1_eq)
  moreover have "length refs2 = NPAGEREFS" "length ((sizebases h)[?b := b1]) = NSIZES" using len s1(1) s2(1) by simp_all
  ultimately show ?thesis using S same by blast
qed

lemma drop_page_spec:
  assumes inv: "heap_inv {i} h" and i: "used h i" and e: "page_live (words h) (pagerefs h ! i) = {}"
  shows "\<exists>h2 h3. remove_lists i (PR_BLOCKTYPE (pagerefs h ! i)) h = Some h2 \<and> freepageref i h2 = Some h3 \<and> heap_ok h3 \<and> live h3 = live h \<and>
    words h3 = words h"
proof -
  obtain bs al refs where r: "remove_lists i (PR_BLOCKTYPE (pagerefs h ! i)) h = Some (h\<lparr>sizebases := bs, allbase := al, pagerefs := refs\<rparr>)"
    "length refs = NPAGEREFS" "length bs = NSIZES" "\<forall>k. same_page (refs ! k) (pagerefs h ! k)"
    "\<exists>xs. path next_all refs al xs \<and> distinct xs \<and> set xs = {k. used h k} - {i}"
    "\<forall>c < NSIZES. \<exists>xs. path next_samesize refs (bs ! c) xs \<and> distinct xs \<and>
       set xs = {k. used h k \<and> PR_BLOCKTYPE (refs ! k) = c} - {i}"
    using remove_lists_spec [OF inv i] by (elim exE conjE) (rule that; (assumption | blast))
  define h2 where "h2 = h\<lparr>sizebases := bs, allbase := al, pagerefs := refs\<rparr>"
  have u2: "used h2 k = used h k" for k by (simp add: h2_def used_def)
  have "length (pagerefs_inuse h2) = INUSE_WORDS" using heap_invD(1) [OF inv] by (simp add: h2_def lists_fit_def)
  then obtain inuse where f: "freepageref i h2 = Some (h2\<lparr>pagerefs_inuse := inuse\<rparr>)" "length inuse = INUSE_WORDS"
    "\<And>k. used (h2\<lparr>pagerefs_inuse := inuse\<rparr>) k \<longleftrightarrow> used h k \<and> k \<noteq> i"
    using freepageref_spec [of h2 i] i u2 by auto
  define h3 where "h3 = h2\<lparr>pagerefs_inuse := inuse\<rparr>"
  have u3: "used h3 k \<longleftrightarrow> used h k \<and> k \<noteq> i" for k using f(3) by (simp add: h3_def)
  have fields: "pagerefs h3 = refs" "words h3 = words h" "sizebases h3 = bs" "allbase h3 = al" "pagerefs_inuse h3 = inuse"
    by (simp_all add: h3_def h2_def)
  note eqs = same_page_eqs [OF spec [OF r(4)]]
  have sets: "{k. used h k} - {i} = {k. used h3 k}"
    "{k. used h k \<and> PR_BLOCKTYPE (refs ! k) = c} - {i} = {k. used h3 k \<and> PR_BLOCKTYPE (refs ! k) = c}" for c
    using u3 by auto
  have "lists_fit h3" using r(2,3,5,6) f(2) unfolding lists_fit_def fields sets by blast
  then have "heap_ok h3" using heap_invD(2-4) [OF inv] unfolding heap_inv_def fields u3 by (simp add: eqs)
  moreover have "page_live (words h) (refs ! k) = page_live (words h) (pagerefs h ! k)" for k by (simp add: page_live_def eqs)
  then have "live h3 = live h" using e unfolding live_pages fields u3 by (auto simp: eqs)
  ultimately show ?thesis using r(1) f(1) fields(2) unfolding h2_def [symmetric] h3_def [symmetric] by blast
qed

text \<open>Live blocks do not overlap.\<close>

lemma live_disjoint:
  assumes inv: "heap_inv X h" and a: "(a, s) \<in> live h" and b: "(b, t) \<in> live h" and ne: "(a, s) \<noteq> (b, t)"
  shows "a + s \<le> b \<or> b + t \<le> a"
proof -
  obtain i where i: "used h i" "s = psize (pagerefs h ! i)" "a \<in> pblocks (pagerefs h ! i)" "PR_BLOCKTYPE (pagerefs h ! i) < NSIZES"
    using live_page [OF inv a] by metis
  obtain j where j: "used h j" "t = psize (pagerefs h ! j)" "b \<in> pblocks (pagerefs h ! j)" "PR_BLOCKTYPE (pagerefs h ! j) < NSIZES"
    using live_page [OF inv b] by metis
  show ?thesis
  proof (cases "i = j")
    case True
    then show ?thesis using pblocks_disjoint [of a "pagerefs h ! i" b] pblocks_disjoint [of b "pagerefs h ! i" a] i j ne by force
  next
    case False
    then have ne: "PR_PAGEADDR (pagerefs h ! i) \<noteq> PR_PAGEADDR (pagerefs h ! j)" using heap_invD(4) [OF inv i(1) j(1)] by blast
    show ?thesis using pages_apart [OF ne] pblocks_range [OF i(4,3)] pblocks_range [OF j(4,3)] i(2) j(2) by linarith
  qed
qed

lemma find_owner_live:
  assumes inv: "heap_inv X h" and i: "used h i" "a \<in> pblocks (pagerefs h ! i)" "PR_BLOCKTYPE (pagerefs h ! i) < NSIZES"
  shows "find_owner h a (allbase h) = Some (Some i)"
proof -
  obtain al where al: "path next_all (pagerefs h) (allbase h) al" "set al = {k. used h k}"
    using heap_invD(1) [OF inv] by (auto simp: lists_fit_def)
  have "PR_BLOCKTYPE (pagerefs h ! k) < NSIZES" if "k \<in> set al" for k using that al(2) heap_invD(2) [OF inv, of k] by (simp add: page_ok_def)
  from find_owner_spec [OF al(1) this, of a] obtain r where r: "find_owner h a (allbase h) = Some r"
    "case r of None \<Rightarrow> \<forall>i \<in> set al. \<not> (PR_PAGEADDR (pagerefs h ! i) \<le> a \<and> a < PR_PAGEADDR (pagerefs h ! i) + PAGE_SIZE)
     | Some i \<Rightarrow> i \<in> set al \<and> PR_PAGEADDR (pagerefs h ! i) \<le> a \<and> a < PR_PAGEADDR (pagerefs h ! i) + PAGE_SIZE" by blast
  have in_page: "PR_PAGEADDR (pagerefs h ! i) \<le> a \<and> a < PR_PAGEADDR (pagerefs h ! i) + PAGE_SIZE" by (rule pblocks_in_page [OF i(3,2)])
  show ?thesis
  proof (cases r)
    case None
    then show ?thesis using r(2) in_page i(1) al(2) by auto
  next
    case (Some j)
    then have "PR_PAGEADDR (pagerefs h ! i) = PR_PAGEADDR (pagerefs h ! j)"
      using r(2) in_page pages_disjoint [of "pagerefs h ! i" "pagerefs h ! j" a] by auto
    then show ?thesis using heap_invD(4) [OF inv i(1), of j] Some r al(2) by auto
  qed
qed

lemma subpage_kfree_spec:
  assumes inv: "heap_ok h" and a: "(a, s) \<in> live h"
  shows "\<exists>pg h'. subpage_kfree a h = Some (0, pg, h') \<and> heap_ok h' \<and> live h' = live h - {(a, s)} \<and>
    (\<forall>p. pg = Some p \<longrightarrow> (\<forall>b t. (b, t) \<in> live h' \<longrightarrow> b + t \<le> p \<or> p + PAGE_SIZE \<le> b)) \<and>
    (\<forall>y. \<not> (a \<le> y \<and> y < a + s) \<longrightarrow> words h' y = words h y)"
proof -
  obtain i xs where i: "used h i" "s = psize (pagerefs h ! i)" "a \<in> pblocks (pagerefs h ! i)"
    "page_free (words h) (pagerefs h ! i) xs" "a \<notin> set xs" "PR_BLOCKTYPE (pagerefs h ! i) < NSIZES" "0 < PR_PAGEADDR (pagerefs h ! i)"
    by (rule live_page [OF inv a])
  let ?pr = "pagerefs h ! i"
  note f = sizes_facts [OF i(6)] and r = pblocks_range [OF i(6,3)]
  have il: "i < length (pagerefs h)" using i heap_invD(1) [OF inv] by (simp add: used_def lists_fit_def)
  define w where "w = (fill_deadbeef (words h) a (s div 4))(a := fl_start ?pr)"
  define h1 where "h1 = h\<lparr>words := w, pagerefs := (pagerefs h)[i := pushed ?pr a]\<rparr>"
  have out: "w x = words h x" if "\<not> (a \<le> x \<and> x < a + s)" for x
    using that fill_deadbeef_other [of a x "s div 4" "words h"] f(1,4) i(2) by (auto simp: w_def psize_def)
  have "w x = words h x" if "x \<in> set xs" for x
  proof -
    have "x \<in> pblocks ?pr" "x \<noteq> a" using i(4,5) that by (auto simp: page_free_def)
    then show ?thesis using out pblocks_disjoint [OF i(3), of x] i(2) by blast
  qed
  then have pf: "page_free w (pushed ?pr a) (a # xs)" by (intro page_free_pushed [OF i(4,6,7,3,5)]) (simp_all add: w_def)
  have w: "w x = words h x" if "\<not> (PR_PAGEADDR (pushed ?pr a) \<le> x \<and> x < PR_PAGEADDR (pushed ?pr a) + PAGE_SIZE)" for x
    by (rule out) (use that r i(2) in auto)
  have pab: "pageaddr_and_blocktype (pushed ?pr a) = pageaddr_and_blocktype ?pr" by (simp add: pushed_def)
  note ch = change_page [where pr = "pushed ?pr a" and w = w, OF inv i(1) _ _ pab pf _ _ w, folded h1_def, simplified]
  have lv: "live h1 = live h - {(a, s)}"
    using ch(2) [of "{i}"] page_live_eq [OF i(4)] page_live_eq [OF pf] i(1-5) unfolding live_pages by auto
  let ?n = "PAGE_SIZE div psize ?pr"
  have nf: "nfree ?pr < ?n" using heap_invD(3) [OF inv i(1)] by simp
  have nn: "(nfree ?pr + 1) mod 2 ^ 16 = nfree ?pr + 1" using nf f(6) by (simp add: psize_def)
  have go: "subpage_kfree a h = (if nfree ?pr + 1 = ?n then do {
      h2 \<leftarrow> remove_lists i (PR_BLOCKTYPE ?pr) h1; h3 \<leftarrow> freepageref i h2; Some (0, Some (PR_PAGEADDR ?pr), h3) } else Some (0, None, h1))"
    using find_owner_live [OF inv i(1,3,6)] il f(1,7) r nf i(2) nn unfolding subpage_kfree_def
    by (simp add: psize_def Let_def h1_def w_def pushed_def fl_start_def split del: if_split cong: if_cong)
  have refs1: "pagerefs h1 ! i = pushed ?pr a" "words h1 = w" "used h1 i" using il i(1) by (simp_all add: h1_def used_def)
  show ?thesis
  proof (cases "nfree ?pr + 1 = ?n")
    case False
    then have "heap_ok h1" using ch(1) [of "{}"] nf by simp
    then show ?thesis using go False lv out refs1(2) by auto
  next
    case True
    have e: "page_live (words h1) (pagerefs h1 ! i) = {}"
      using page_free_bound(2) [OF pf] True i(6) page_live_eq [OF pf] refs1 by simp
    obtain h2 h3 where d: "remove_lists i (PR_BLOCKTYPE ?pr) h1 = Some h2" "freepageref i h2 = Some h3" "heap_ok h3" "live h3 = live h1" "words h3 = words h1"
      using drop_page_spec [of i h1] ch(1) [of "{i}"] refs1 e by auto
    have "b + t \<le> PR_PAGEADDR ?pr \<or> PR_PAGEADDR ?pr + PAGE_SIZE \<le> b" if bt: "(b, t) \<in> live h1" for b t
    proof -
      have inv1: "heap_inv {i} h1" using ch(1) [of "{i}"] by simp
      obtain j ys where j: "used h1 j" "t = psize (pagerefs h1 ! j)" "b \<in> pblocks (pagerefs h1 ! j)"
        "page_free (words h1) (pagerefs h1 ! j) ys" "b \<notin> set ys" "PR_BLOCKTYPE (pagerefs h1 ! j) < NSIZES"
        by (rule live_page [OF inv1 bt])
      then have "i \<noteq> j" using e page_live_eq [OF j(4)] by auto
      then have "PR_PAGEADDR (pagerefs h1 ! j) \<noteq> PR_PAGEADDR ?pr" using heap_invD(4) [OF inv1 j(1) refs1(3)] refs1(1) by auto
      from pages_apart [OF this] show ?thesis using pblocks_range [OF j(6,3)] j(2) by linarith
    qed
    then show ?thesis using go True d lv out refs1(2) by auto
  qed
qed

lemma kfree_spec:
  assumes inv: "heap_ok h" and a: "(a, s) \<in> live h"
  shows "\<exists>pg h'. kfree a h = Some (pg, h') \<and> heap_ok h' \<and> live h' = live h - {(a, s)} \<and>
    (\<forall>p. pg = Some p \<longrightarrow> (\<forall>b t. (b, t) \<in> live h' \<longrightarrow> b + t \<le> p \<or> p + PAGE_SIZE \<le> b)) \<and>
    (\<forall>y. \<not> (a \<le> y \<and> y < a + s) \<longrightarrow> words h' y = words h y)"
proof -
  obtain i where "a \<in> pblocks (pagerefs h ! i)" "PR_BLOCKTYPE (pagerefs h ! i) < NSIZES" "0 < PR_PAGEADDR (pagerefs h ! i)"
    using live_page [OF inv a] by metis
  then have "a \<noteq> 0" using pblocks_range(1) by fastforce
  then show ?thesis using subpage_kfree_spec [OF inv a] by (auto simp: kfree_def)
qed

text \<open>A page given out whole is not on a page of small blocks, so its address finds no owner.\<close>

lemma kfree_large_spec:
  assumes inv: "heap_ok h" and a: "a \<noteq> 0" "a mod PAGE_SIZE = 0" "\<And>i. used h i \<Longrightarrow> PR_PAGEADDR (pagerefs h ! i) \<noteq> a"
  shows "kfree a h = Some (Some a, h)"
proof -
  obtain al where al: "path next_all (pagerefs h) (allbase h) al" "set al = {k. used h k}"
    using heap_invD(1) [OF inv] by (auto simp: lists_fit_def)
  have "PR_BLOCKTYPE (pagerefs h ! k) < NSIZES" if "k \<in> set al" for k using that al(2) heap_invD(2) [OF inv, of k] by (simp add: page_ok_def)
  from find_owner_spec [OF al(1) this, of a] obtain r where r: "find_owner h a (allbase h) = Some r"
    "case r of None \<Rightarrow> True
     | Some i \<Rightarrow> i \<in> set al \<and> PR_PAGEADDR (pagerefs h ! i) \<le> a \<and> a < PR_PAGEADDR (pagerefs h ! i) + PAGE_SIZE"
    by (auto split: option.splits)
  have "PR_PAGEADDR pr = a" if "PR_PAGEADDR pr \<le> a" "a < PR_PAGEADDR pr + PAGE_SIZE" for pr
  proof -
    have "a div PAGE_SIZE = pageaddr_and_blocktype pr div PAGE_SIZE"
      using that unfolding PR_PAGEADDR_def by (auto intro!: div_nat_eqI simp: mult.commute)
    moreover have "a div PAGE_SIZE * PAGE_SIZE = a" using a(2) by auto
    ultimately show ?thesis by (simp add: PR_PAGEADDR_def)
  qed
  then have "r = None" using r(2) a(3) al(2) by (cases r) auto
  then show ?thesis using r(1) a(1,2) by (simp add: kfree_def subpage_kfree_def)
qed

section \<open>Writes by the owners of blocks\<close>

definition write_word :: "nat \<Rightarrow> nat \<Rightarrow> kheap \<Rightarrow> kheap" where
  "write_word x v h = h\<lparr>words := (words h)(x := v)\<rparr>"

lemma write_word_spec:
  assumes inv: "heap_ok h" and x: "(a, s) \<in> live h" "a \<le> x" "x < a + s"
  shows "heap_ok (write_word x v h)" "live (write_word x v h) = live h"
proof -
  let ?h = "write_word x v h"
  have fields: "pagerefs ?h = pagerefs h" "words ?h = (words h)(x := v)" "used ?h = used h" "lists_fit ?h = lists_fit h"
    by (simp_all add: write_word_def used_def lists_fit_def fun_eq_iff)
  obtain i xs where i: "used h i" "s = psize (pagerefs h ! i)" "a \<in> pblocks (pagerefs h ! i)"
    "page_free (words h) (pagerefs h ! i) xs" "a \<notin> set xs" "PR_BLOCKTYPE (pagerefs h ! i) < NSIZES"
    by (rule live_page [OF inv x(1)])
  have pf: "page_free ((words h)(x := v)) (pagerefs h ! k) ys" if k: "used h k" "page_free (words h) (pagerefs h ! k) ys" for k ys
  proof (cases "k = i")
    case True
    then have "ys = xs" using page_free_unique k(2) i(4) by blast
    moreover have "x \<notin> set xs"
    proof
      assume "x \<in> set xs"
      then have "x \<in> pblocks (pagerefs h ! i)" using i(4) by (auto simp: page_free_def)
      then show False using pblocks_disjoint [OF i(3)] x i(2,5) \<open>x \<in> set xs\<close> by blast
    qed
    ultimately show ?thesis using True i(4) by (intro page_free_cong [OF k(2)]) auto
  next
    case False
    then have ne: "PR_PAGEADDR (pagerefs h ! k) \<noteq> PR_PAGEADDR (pagerefs h ! i)" using heap_invD(4) [OF inv k(1) i(1)] by blast
    have bk: "PR_BLOCKTYPE (pagerefs h ! k) < NSIZES" using heap_invD(2) [OF inv k(1)] by (simp add: page_ok_def)
    have "((words h)(x := v)) y = words h y"
      if "\<not> (PR_PAGEADDR (pagerefs h ! i) \<le> y \<and> y < PR_PAGEADDR (pagerefs h ! i) + PAGE_SIZE)" for y
      using that x pblocks_range [OF i(6,3)] i(2) by auto
    then have "page_free ((words h)(x := v)) (pagerefs h ! k) ys \<longleftrightarrow> page_free (words h) (pagerefs h ! k) ys"
      by (rule page_free_elsewhere [OF bk ne])
    then show ?thesis using k(2) by blast
  qed
  have pl: "page_live ((words h)(x := v)) (pagerefs h ! k) = page_live (words h) (pagerefs h ! k)" if k: "used h k" for k
  proof -
    obtain ys where "page_free (words h) (pagerefs h ! k) ys" using heap_invD(2) [OF inv k] by (auto simp: page_ok_def)
    then show ?thesis using page_live_eq pf [OF k] by metis
  qed
  then show "live ?h = live h" unfolding live_pages fields by auto
  show "heap_ok ?h" using inv pf unfolding heap_inv_def fields page_ok_def by blast
qed

section \<open>Runs of the heap\<close>

lemma used_boot: "\<not> used (kheap_boot w) i"
proof
  assume "used (kheap_boot w) i"
  then have "i < NPAGEREFS" "bit (replicate INUSE_WORDS (0 :: 32 word) ! (i div 32)) (i mod 32)" by (simp_all add: used_def kheap_boot_def)
  moreover from this(1) have "i div 32 < INUSE_WORDS" by (simp add: INUSE_WORDS_def NPAGEREFS_def PAGE_SIZE_def less_mult_imp_div_less)
  ultimately show False by simp
qed

lemma heap_ok_boot: "heap_ok (kheap_boot w)" "live (kheap_boot w) = {}"
proof -
  note u = used_boot
  have "\<forall>b < NSIZES. \<exists>sl. path next_samesize (pagerefs (kheap_boot w)) (sizebases (kheap_boot w) ! b) sl \<and> distinct sl \<and>
     set sl = {i. used (kheap_boot w) i \<and> PR_BLOCKTYPE (pagerefs (kheap_boot w) ! i) = b}"
    using u by (intro allI impI exI [of _ "[]"]) (simp add: kheap_boot_def)
  moreover have "\<exists>al. path next_all (pagerefs (kheap_boot w)) (allbase (kheap_boot w)) al \<and> distinct al \<and> set al = {i. used (kheap_boot w) i}"
    using u by (intro exI [of _ "[]"]) (simp add: kheap_boot_def)
  ultimately have "lists_fit (kheap_boot w)" by (simp add: lists_fit_def) (simp add: kheap_boot_def)
  then show "heap_ok (kheap_boot w)" using u by (simp add: heap_inv_def)
  show "live (kheap_boot w) = {}" using u by (simp add: live_pages)
qed

text \<open>
  A run: calls of \<^verbatim>\<open>kmalloc\<close> and \<^verbatim>\<open>kfree\<close> in any order, and writes of the owners into their blocks.  Pages
  come from \<^verbatim>\<open>alloc_kpages\<close>, which gives no page twice.  \<^verbatim>\<open>kfree\<close> is called with live blocks only.
\<close>

inductive heap_run :: "(nat \<Rightarrow> nat) \<Rightarrow> kheap \<Rightarrow> bool" for w where
  boot: "heap_run w (kheap_boot w)"
| malloc: "heap_run w h \<Longrightarrow> alloc 1 = 0 \<or> fresh_page h (alloc 1) \<Longrightarrow> kmalloc alloc evicted sz h = Some (x, h') \<Longrightarrow> heap_run w h'"
| free: "heap_run w h \<Longrightarrow> (a, s) \<in> live h \<Longrightarrow> kfree a h = Some (pg, h') \<Longrightarrow> heap_run w h'"
| free_large: "heap_run w h \<Longrightarrow> fresh_page h a \<Longrightarrow> kfree a h = Some (pg, h') \<Longrightarrow> heap_run w h'"
| store: "heap_run w h \<Longrightarrow> (a, s) \<in> live h \<Longrightarrow> a \<le> x \<Longrightarrow> x < a + s \<Longrightarrow> heap_run w (write_word x v h)"

lemma kmalloc_spec:
  assumes inv: "heap_ok h" and sz: "sz < LARGEST_SUBPAGE_SIZE" and p: "alloc 1 = 0 \<or> fresh_page h (alloc 1)"
  shows "\<exists>x h'. kmalloc alloc evicted sz h = Some (x, h') \<and> heap_ok h' \<and>
    (if x = 0 then (alloc 1 = 0 \<or> (\<forall>k < NPAGEREFS. used h k)) \<and> live h' = live h
     else \<exists>s. sz \<le> s \<and> (x, s) \<notin> live h \<and> live h' = insert (x, s) (live h)) \<and>
    (\<forall>(b, t) \<in> live h. \<forall>y. b \<le> y \<and> y < b + t \<longrightarrow> words h' y = words h y)"
  using subpage_kmalloc_spec [OF inv _ p, of sz] sz by (simp add: kmalloc_def)

lemma heap_run_ok: "heap_run w h \<Longrightarrow> heap_ok h"
proof (induction rule: heap_run.induct)
  case boot
  then show ?case by (rule heap_ok_boot)
next
  case (malloc h alloc evicted sz x h')
  then show ?case using kmalloc_spec [of h sz alloc evicted] by (cases "sz < LARGEST_SUBPAGE_SIZE") (auto simp: kmalloc_def Let_def)
next
  case (free h a s pg h')
  then show ?case using kfree_spec [of h a s] by auto
next
  case (free_large h a pg h')
  then show ?case using kfree_large_spec [of h a] by (auto simp: fresh_page_def)
next
  case (store h a s x v)
  then show ?case using write_word_spec(1) by blast
qed

end
