(* ===== verification/Kheap_Props.thy ===== *)
theory Kheap_Props
  imports Kheap_Inv
begin

text \<open>
  What users of \<^verbatim>\<open>kmalloc\<close> and \<^verbatim>\<open>kfree\<close> may rely on, in every run of the heap from boot.
\<close>

section \<open>A concrete run\<close>

text \<open>Two allocations of 1000 bytes from one fresh page, the page at address 4096.\<close>

lemma fl_loop_small:
  "fl_loop w p sz 3 = do { w2 \<leftarrow> fl_loop w p sz 2; kassert (p + 3 * sz \<noteq> p + 2 * sz); Some (w2(p + 3 * sz := p + 2 * sz)) }"
  "fl_loop w p sz 2 = do { w2 \<leftarrow> fl_loop w p sz 1; kassert (p + 2 * sz \<noteq> p + 1 * sz); Some (w2(p + 2 * sz := p + 1 * sz)) }"
  "fl_loop w p sz 1 = do { kassert (p + 1 * sz \<noteq> p); Some (w(p + 1 * sz := p)) }"
  by (simp_all add: eval_nat_numeral)

lemma blocktype_1000: "blocktype 1000 = Some 6"
  by (simp add: blocktype_def sizes_def NSIZES_def upt_conv_Cons)

lemma allocpageref_boot:
  "allocpageref (kheap_boot w) = Some (Some 0, (kheap_boot w)\<lparr>pagerefs_inuse := (replicate 8 0)[0 := 1]\<rparr>)"
  by (simp add: allocpageref_def kheap_boot_def INUSE_WORDS_def NPAGEREFS_def PAGE_SIZE_def upt_conv_Cons)

lemmas kheap_eval = kheap_boot_def NSIZES_def sizes_def NPAGEREFS_def PAGE_SIZE_def INUSE_WORDS_def fl_loop_small
  find_page.simps new_page_def doalloc_def Let_def MKPAB_def PR_PAGEADDR_def PR_BLOCKTYPE_def

lemma example_mallocs:
  "\<exists>h1 h2. kmalloc (\<lambda>_. 4096) 0 1000 (kheap_boot (\<lambda>_. 0)) = Some (7168, h1) \<and> kmalloc (\<lambda>_. 0) 0 1000 h1 = Some (6144, h2)"
  by (simp add: kmalloc_def LARGEST_SUBPAGE_SIZE_def subpage_kmalloc_def blocktype_1000 allocpageref_boot) (simp add: kheap_eval)

lemma fresh_at_boot: "p \<noteq> 0 \<Longrightarrow> p mod PAGE_SIZE = 0 \<Longrightarrow> fresh_page (kheap_boot w) p"
  using heap_ok_boot [of w] by (auto simp: fresh_page_def used_boot)

lemma example_heap:
  obtains h s t where "heap_run (\<lambda>_. 0) h" "(7168, s) \<in> live h" "(6144, t) \<in> live h"
proof -
  obtain h1 h2 where m: "kmalloc (\<lambda>_. 4096) 0 1000 (kheap_boot (\<lambda>_. 0)) = Some (7168, h1)" "kmalloc (\<lambda>_. 0) 0 1000 h1 = Some (6144, h2)"
    using example_mallocs by blast
  have f: "fresh_page (kheap_boot (\<lambda>_. 0)) 4096" by (rule fresh_at_boot) (simp_all add: PAGE_SIZE_def)
  have r1: "heap_run (\<lambda>_. 0) h1" by (rule heap_run.malloc [OF heap_run.boot _ m(1)]) (use f in simp)
  have r2: "heap_run (\<lambda>_. 0) h2" by (rule heap_run.malloc [OF r1 _ m(2)]) simp
  obtain s where s: "live h1 = insert (7168, s) {}"
    using kmalloc_spec [OF heap_ok_boot(1), of 1000 "\<lambda>_. 4096" "\<lambda>_. 0" 0] m(1) f by (auto simp: heap_ok_boot(2) LARGEST_SUBPAGE_SIZE_def)
  obtain t where "live h2 = insert (6144, t) (live h1)"
    using kmalloc_spec [OF heap_run_ok [OF r1], of 1000 "\<lambda>_. 0" 0] m(2) by (auto simp: LARGEST_SUBPAGE_SIZE_def)
  then show ?thesis using that [OF r2, of s t] s by simp
qed

section \<open>Properties\<close>



text \<open>
  C10. In every run of the heap a call of \<^verbatim>\<open>kmalloc\<close> for less than 2048 bytes returns, and none of its
  assertions fails.  It gives \<^verbatim>\<open>NULL\<close> only if \<^verbatim>\<open>alloc_kpages\<close> has no page or all page references are
  in use.  Otherwise it gives a block of at least the size asked for that was not allocated.  It changes
  no word of a block that is allocated.
\<close>

theorem kmalloc_fresh_block:
  assumes "heap_run w h" "sz < LARGEST_SUBPAGE_SIZE" "alloc 1 = 0 \<or> fresh_page h (alloc 1)"
  shows "\<exists>x h'. kmalloc alloc evicted sz h = Some (x, h') \<and>
    (if x = 0 then (alloc 1 = 0 \<or> (\<forall>k < NPAGEREFS. used h k)) \<and> live h' = live h
     else \<exists>s. sz \<le> s \<and> (x, s) \<notin> live h \<and> live h' = insert (x, s) (live h)) \<and>
    (\<forall>(b, t) \<in> live h. \<forall>y. b \<le> y \<and> y < b + t \<longrightarrow> words h' y = words h y)"
  using kmalloc_spec [where alloc = alloc, OF heap_run_ok [OF assms(1)] assms(2,3), of evicted] by blast

theorem kmalloc_fresh_block_witness:
  "\<exists>h'. kmalloc (\<lambda>_. 4096) 0 1000 (kheap_boot (\<lambda>_. 0)) = Some (7168, h') \<and> (\<exists>s. 1000 \<le> s \<and> live h' = {(7168, s)})"
proof -
  have "fresh_page (kheap_boot (\<lambda>_. 0)) 4096" by (rule fresh_at_boot) (simp_all add: PAGE_SIZE_def)
  then show ?thesis
    using kmalloc_fresh_block [OF heap_run.boot, of 1000 "\<lambda>_. 4096" "\<lambda>_. 0" 0] example_mallocs
    by (auto simp: heap_ok_boot(2) LARGEST_SUBPAGE_SIZE_def)
qed

text \<open>
  C30. In every run of the heap \<^verbatim>\<open>kfree\<close> of an allocated block returns and none of its assertions fails:
  that block, and no other, is no longer allocated.  No word outside it changes.  A page that is given back
  to \<^verbatim>\<open>free_kpages\<close> has no allocated block on it.
\<close>

theorem kfree_releases_block:
  assumes "heap_run w h" "(a, s) \<in> live h"
  shows "\<exists>pg h'. kfree a h = Some (pg, h') \<and> live h' = live h - {(a, s)} \<and>
    (\<forall>p. pg = Some p \<longrightarrow> (\<forall>b t. (b, t) \<in> live h' \<longrightarrow> b + t \<le> p \<or> p + PAGE_SIZE \<le> b)) \<and>
    (\<forall>y. \<not> (a \<le> y \<and> y < a + s) \<longrightarrow> words h' y = words h y)"
  using kfree_spec [OF heap_run_ok [OF assms(1)] assms(2)] by blast

theorem kfree_releases_block_witness:
  "\<exists>h s t pg h'. heap_run (\<lambda>_. 0) h \<and> (7168, s) \<in> live h \<and> (6144, t) \<in> live h \<and> kfree 7168 h = Some (pg, h') \<and>
    (7168, s) \<notin> live h' \<and> (6144, t) \<in> live h'"
proof -
  obtain h s t where h: "heap_run (\<lambda>_. 0) h" "(7168, s) \<in> live h" "(6144, t) \<in> live h" by (rule example_heap)
  from kfree_releases_block [OF h(1,2)] obtain pg h' where "kfree 7168 h = Some (pg, h')" "live h' = live h - {(7168, s)}" by blast
  then show ?thesis using h by (intro exI [of _ h] exI [of _ s] exI [of _ t] exI [of _ pg] exI [of _ h']) simp
qed

text \<open>
  C31. The loops over the lists of page references end and no assertion of the heap fails: at every heap of a
  run, \<^verbatim>\<open>kmalloc\<close> of any size returns, and so does \<^verbatim>\<open>kfree\<close> of an allocated block, of a page that was given
  out whole, and of \<^verbatim>\<open>NULL\<close>.
\<close>

theorem kheap_returns:
  assumes "heap_run w h" "alloc 1 = 0 \<or> fresh_page h (alloc 1)" "a = 0 \<or> (a, s) \<in> live h \<or> fresh_page h a"
  shows "(\<exists>x h'. kmalloc alloc evicted sz h = Some (x, h')) \<and> (\<exists>pg h'. kfree a h = Some (pg, h'))"
proof
  note ok = heap_run_ok [OF assms(1)]
  show "\<exists>x h'. kmalloc alloc evicted sz h = Some (x, h')"
    using kmalloc_spec [OF ok, of sz alloc evicted] assms(2) by (cases "sz < LARGEST_SUBPAGE_SIZE") (auto simp: kmalloc_def Let_def)
  show "\<exists>pg h'. kfree a h = Some (pg, h')"
    using assms(3) kfree_spec [OF ok, of a s] kfree_large_spec [OF ok, of a] by (auto simp: fresh_page_def kfree_def)
qed

theorem kheap_returns_witness:
  "\<exists>h s pg h'. heap_run (\<lambda>_. 0) h \<and> (7168, s) \<in> live h \<and> kfree 7168 h = Some (pg, h')"
proof -
  obtain h s t where h: "heap_run (\<lambda>_. 0) h" "(7168, s) \<in> live h" "(6144, t) \<in> live h" by (rule example_heap)
  show ?thesis using kheap_returns [OF h(1), of "\<lambda>_. 0" 7168 s] h(1,2) by auto
qed

end
