(* ===== verification/Uio.thy ===== *)
theory Uio
  imports Kernel_Prelude
begin

text \<open>
  Descriptions of data transfers (\<^verbatim>\<open>kern/include/uio.h\<close>, \<^verbatim>\<open>kern/userprog/uio.c\<close>).  A \<open>uio\<close> carries the
  memory its \<^verbatim>\<open>uio_iovec\<close> described when it was set up, \<open>uio_mem\<close>; the pointer \<^verbatim>\<open>iov_base\<close> is an index
  into it that the transfers advance.  A kernel buffer is a list of bytes and a pointer into it an
  index.  For a transfer to or from user space \<open>uio_access\<close> is the number of bytes of that memory that
  the program may access: a copy that goes past it ends with \<^verbatim>\<open>EFAULT\<close> after the bytes before.
\<close>

section \<open>Model\<close>

type_synonym byte = "8 word"

datatype uio_rw = UIO_READ | UIO_WRITE

datatype uio_seg = UIO_USERSPACE | UIO_SYSSPACE | UIO_USERISPACE

record uio =
  uio_mem :: "byte list"
  uio_access :: nat
  iov_base :: nat
  iov_len :: nat
  uio_offset :: int
  uio_resid :: nat
  uio_segflg :: uio_seg
  uio_rw :: uio_rw
  uio_space_ok :: bool

text \<open>\<^verbatim>\<open>memmove\<close> of \<open>n\<close> bytes between two objects; stuck outside one of them.\<close>

definition splice :: "'a list \<Rightarrow> nat \<Rightarrow> 'a list \<Rightarrow> 'a list" where
  "splice xs i ys = take i xs @ ys @ drop (i + length ys) xs"

definition move_bytes :: "byte list \<Rightarrow> nat \<Rightarrow> byte list \<Rightarrow> nat \<Rightarrow> nat \<Rightarrow> byte list outcome" where
  "move_bytes src s dst d n =
     (if s + n \<le> length src \<and> d + n \<le> length dst then Some (splice dst d (take n (drop s src))) else None)"

text \<open>One round of the loop: the copy, with the flag whether all of it succeeded.\<close>

definition uio_copy :: "uio \<Rightarrow> byte list \<Rightarrow> nat \<Rightarrow> nat \<Rightarrow> (bool \<times> byte list \<times> byte list) outcome" where
  "uio_copy u buf ptr sz =
     (let k = (case uio_segflg u of UIO_SYSSPACE \<Rightarrow> sz | _ \<Rightarrow> min sz (uio_access u - iov_base u)) in
      case uio_rw u of
        UIO_READ \<Rightarrow> do {
          mem \<leftarrow> move_bytes buf ptr (uio_mem u) (iov_base u) k;
          Some (k = sz, buf, mem)
        }
      | UIO_WRITE \<Rightarrow> do {
          buf1 \<leftarrow> move_bytes (uio_mem u) (iov_base u) buf ptr k;
          Some (k = sz, buf1, uio_mem u)
        })"

definition uio_advance :: "nat \<Rightarrow> uio \<Rightarrow> uio" where
  "uio_advance sz u = u\<lparr>iov_base := iov_base u + sz, iov_len := iov_len u - sz,
     uio_resid := (uio_resid u + (2 ^ 32 - sz)) mod 2 ^ 32, uio_offset := wrap32 (uio_offset u + int sz)\<rparr>"

text \<open>Nothing keeps \<^verbatim>\<open>size\<close> below \<^verbatim>\<open>uio_resid\<close>; the subtraction from it wraps around.\<close>

function uiomove_loop :: "byte list \<Rightarrow> nat \<Rightarrow> nat \<Rightarrow> uio \<Rightarrow> ((errno + unit) \<times> byte list \<times> uio) outcome" where
  "uiomove_loop buf ptr n u =
     (if 0 < n \<and> 0 < uio_resid u then
        let sz = min (iov_len u) n in
        if sz = 0 then None
        else (case uio_copy u buf ptr sz of
            None \<Rightarrow> None
          | Some (ok, buf1, mem) \<Rightarrow>
              if \<not> ok then Some (Inl EFAULT, buf1, u\<lparr>uio_mem := mem\<rparr>)
              else uiomove_loop buf1 (ptr + sz) (n - sz) (uio_advance sz (u\<lparr>uio_mem := mem\<rparr>)))
      else Some (Inr (), buf, u))"
  by pat_completeness auto
termination
  by (relation "measure (\<lambda>(buf, ptr, n, u). n)") auto

declare uiomove_loop.simps [simp del]

definition uiomove :: "byte list \<Rightarrow> nat \<Rightarrow> nat \<Rightarrow> uio \<Rightarrow> ((errno + unit) \<times> byte list \<times> uio) outcome" where
  "uiomove buf ptr n u = do {
     kassert (uio_space_ok u);
     uiomove_loop buf ptr n u
   }"

function uiomovezeros_loop :: "nat \<Rightarrow> uio \<Rightarrow> ((errno + unit) \<times> uio) outcome" where
  "uiomovezeros_loop n u =
     (if 0 < n then
        let amt = min 16 n in
        (case uiomove (replicate 16 0) 0 amt u of
            None \<Rightarrow> None
          | Some (Inl e, _, u1) \<Rightarrow> Some (Inl e, u1)
          | Some (Inr _, _, u1) \<Rightarrow> uiomovezeros_loop (n - amt) u1)
      else Some (Inr (), u))"
  by pat_completeness auto
termination
  by (relation "measure (\<lambda>(n, u). n)") auto

declare uiomovezeros_loop.simps [simp del]

definition uiomovezeros :: "nat \<Rightarrow> uio \<Rightarrow> ((errno + unit) \<times> uio) outcome" where
  "uiomovezeros n u = do {
     kassert (uio_rw u = UIO_READ);
     uiomovezeros_loop n u
   }"

definition mk_kuio :: "byte list \<Rightarrow> nat \<Rightarrow> int \<Rightarrow> uio_rw \<Rightarrow> uio" where
  "mk_kuio kbuf len pos rw = \<lparr>uio_mem = kbuf, uio_access = 0, iov_base = 0, iov_len = len, uio_offset = pos, uio_resid = len,
     uio_segflg = UIO_SYSSPACE, uio_rw = rw, uio_space_ok = True\<rparr>"

definition mk_kuio_pd :: "byte list \<Rightarrow> nat \<Rightarrow> nat \<Rightarrow> int \<Rightarrow> uio_rw \<Rightarrow> uio" where
  "mk_kuio_pd kbuf memsz filesz pos rw = \<lparr>uio_mem = kbuf, uio_access = 0, iov_base = 0, iov_len = memsz, uio_offset = pos, uio_resid = filesz,
     uio_segflg = UIO_SYSSPACE, uio_rw = rw, uio_space_ok = True\<rparr>"

section \<open>Splicing\<close>

lemma length_splice [simp]: "i + length ys \<le> length xs \<Longrightarrow> length (splice xs i ys) = length xs"
  by (simp add: splice_def)

lemma nth_splice:
  "i + length ys \<le> length xs \<Longrightarrow> k < length xs \<Longrightarrow>
    splice xs i ys ! k = (if i \<le> k \<and> k < i + length ys then ys ! (k - i) else xs ! k)"
  by (auto simp: splice_def nth_append min_def)

lemma splice_Nil [simp]: "splice xs i [] = xs"
  by (simp add: splice_def)

lemma splice_all: "length ys = length xs \<Longrightarrow> splice xs 0 ys = ys"
  by (simp add: splice_def)

lemma splice_splice:
  assumes "i + length ys \<le> length xs" "j = i + length ys" "j + length zs \<le> length xs"
  shows "splice (splice xs i ys) j zs = splice xs i (ys @ zs)"
  using assms by (intro nth_equalityI) (auto simp: nth_splice nth_append)

lemma take_splice: "i + length ys \<le> length xs \<Longrightarrow> take n (drop i (splice xs i ys)) = take n (ys @ drop (i + length ys) xs)"
  by (simp add: splice_def)

section \<open>Transfers that fit\<close>

text \<open>
  \<open>uio_fits n u\<close>: the next \<open>n\<close> bytes are there, accessible and within \<^verbatim>\<open>uio_resid\<close>, and offset and residue
  stay in their types.
\<close>

definition uio_fits :: "nat \<Rightarrow> uio \<Rightarrow> bool" where
  "uio_fits n u \<longleftrightarrow> uio_space_ok u \<and> n \<le> uio_resid u \<and> uio_resid u < 2 ^ 32 \<and> n \<le> iov_len u \<and>
     iov_base u + iov_len u \<le> length (uio_mem u) \<and>
     (uio_segflg u \<noteq> UIO_SYSSPACE \<longrightarrow> iov_base u + n \<le> uio_access u) \<and>
     0 \<le> uio_offset u \<and> uio_offset u + int n < 2 ^ 31"

text \<open>The state after a transfer of \<open>n\<close> bytes; \<open>xs\<close> are the bytes a read puts there.\<close>

definition uio_moved :: "nat \<Rightarrow> byte list \<Rightarrow> uio \<Rightarrow> uio" where
  "uio_moved n xs u = u\<lparr>uio_mem := (if uio_rw u = UIO_READ then splice (uio_mem u) (iov_base u) xs else uio_mem u),
     iov_base := iov_base u + n, iov_len := iov_len u - n, uio_resid := uio_resid u - n, uio_offset := uio_offset u + int n\<rparr>"

text \<open>The next \<open>n\<close> bytes of a write.\<close>

definition uio_next :: "nat \<Rightarrow> uio \<Rightarrow> byte list" where
  "uio_next n u = take n (drop (iov_base u) (uio_mem u))"

lemma uio_moved_simps [simp]:
  "iov_base (uio_moved n xs u) = iov_base u + n" "iov_len (uio_moved n xs u) = iov_len u - n"
  "uio_resid (uio_moved n xs u) = uio_resid u - n" "uio_offset (uio_moved n xs u) = uio_offset u + int n"
  "uio_segflg (uio_moved n xs u) = uio_segflg u" "uio_rw (uio_moved n xs u) = uio_rw u"
  "uio_access (uio_moved n xs u) = uio_access u" "uio_space_ok (uio_moved n xs u) = uio_space_ok u"
  by (simp_all add: uio_moved_def)

lemma uio_moved_0 [simp]: "uio_moved 0 [] u = u"
  by (simp add: uio_moved_def)

lemma length_uio_moved [simp]: "iov_base u + length xs \<le> length (uio_mem u) \<Longrightarrow> length (uio_mem (uio_moved n xs u)) = length (uio_mem u)"
  by (simp add: uio_moved_def)

lemma uio_advance_eq:
  assumes "uio_fits n u" shows "uio_advance n u = u\<lparr>iov_base := iov_base u + n, iov_len := iov_len u - n,
    uio_resid := uio_resid u - n, uio_offset := uio_offset u + int n\<rparr>"
proof -
  have "(uio_resid u + (2 ^ 32 - n)) mod 2 ^ 32 = uio_resid u - n"
  proof -
    have "uio_resid u + (2 ^ 32 - n) = (uio_resid u - n) + 2 ^ 32" using assms by (simp add: uio_fits_def)
    then have "(uio_resid u + (2 ^ 32 - n)) mod 2 ^ 32 = (uio_resid u - n) mod 2 ^ 32" by (simp only: mod_add_self2)
    then show ?thesis using assms by (simp add: uio_fits_def less_imp_diff_less)
  qed
  moreover have "wrap32 (uio_offset u + int n) = uio_offset u + int n" using assms by (intro wrap32_id) (auto simp: uio_fits_def)
  ultimately show ?thesis by (simp add: uio_advance_def)
qed

lemma uio_fits_mem: "length m = length (uio_mem u) \<Longrightarrow> uio_fits n (u\<lparr>uio_mem := m\<rparr>) = uio_fits n u"
  by (simp add: uio_fits_def)

lemma uio_copy_read:
  assumes "uio_fits n u" "uio_rw u = UIO_READ" "ptr + n \<le> length buf"
  shows "uio_copy u buf ptr n = Some (True, buf, splice (uio_mem u) (iov_base u) (take n (drop ptr buf)))"
proof -
  have "(case uio_segflg u of UIO_SYSSPACE \<Rightarrow> n | _ \<Rightarrow> min n (uio_access u - iov_base u)) = n"
    using assms(1) by (cases "uio_segflg u") (auto simp: uio_fits_def)
  then show ?thesis using assms unfolding uio_copy_def by (simp add: move_bytes_def uio_fits_def)
qed

lemma uio_copy_write:
  assumes "uio_fits n u" "uio_rw u = UIO_WRITE" "ptr + n \<le> length buf"
  shows "uio_copy u buf ptr n = Some (True, splice buf ptr (uio_next n u), uio_mem u)"
proof -
  have "(case uio_segflg u of UIO_SYSSPACE \<Rightarrow> n | _ \<Rightarrow> min n (uio_access u - iov_base u)) = n"
    using assms(1) by (cases "uio_segflg u") (auto simp: uio_fits_def)
  then show ?thesis using assms unfolding uio_copy_def by (simp add: move_bytes_def uio_fits_def uio_next_def)
qed

lemma uiomove_zero: "uio_space_ok u \<Longrightarrow> uiomove buf ptr 0 u = Some (Inr (), buf, u)"
  by (simp add: uiomove_def uiomove_loop.simps)

lemma uiomove_read:
  assumes fits: "uio_fits n u" and rw: "uio_rw u = UIO_READ" and p: "ptr + n \<le> length buf"
  shows "uiomove buf ptr n u = Some (Inr (), buf, uio_moved n (take n (drop ptr buf)) u)"
proof (cases "n = 0")
  case True
  then show ?thesis using fits by (simp add: uiomove_zero uio_fits_def)
next
  case False
  let ?m = "splice (uio_mem u) (iov_base u) (take n (drop ptr buf))"
  have f: "uio_fits n (u\<lparr>uio_mem := ?m\<rparr>)" using fits p by (subst uio_fits_mem) (auto simp: uio_fits_def)
  have "min (iov_len u) n = n" using fits by (simp add: uio_fits_def)
  then have "uiomove_loop buf ptr n u = uiomove_loop buf (ptr + n) 0 (uio_advance n (u\<lparr>uio_mem := ?m\<rparr>))"
    using False fits uio_copy_read [OF fits rw p] by (subst uiomove_loop.simps) (simp add: uio_fits_def)
  also have "\<dots> = Some (Inr (), buf, uio_moved n (take n (drop ptr buf)) u)"
    unfolding uio_advance_eq [OF f] by (simp add: uiomove_loop.simps uio_moved_def rw)
  finally show ?thesis using fits by (simp add: uiomove_def uio_fits_def)
qed

lemma uiomove_write:
  assumes fits: "uio_fits n u" and rw: "uio_rw u = UIO_WRITE" and p: "ptr + n \<le> length buf"
  shows "uiomove buf ptr n u = Some (Inr (), splice buf ptr (uio_next n u), uio_moved n [] u)"
proof (cases "n = 0")
  case True
  then show ?thesis using fits by (simp add: uiomove_zero uio_fits_def uio_next_def)
next
  case False
  have "min (iov_len u) n = n" using fits by (simp add: uio_fits_def)
  then have "uiomove_loop buf ptr n u = uiomove_loop (splice buf ptr (uio_next n u)) (ptr + n) 0 (uio_advance n u)"
    using False fits uio_copy_write [OF fits rw p] by (subst uiomove_loop.simps) (simp add: uio_fits_def)
  also have "\<dots> = Some (Inr (), splice buf ptr (uio_next n u), uio_moved n [] u)"
    unfolding uio_advance_eq [OF fits] by (simp add: uiomove_loop.simps uio_moved_def rw)
  finally show ?thesis using fits by (simp add: uiomove_def uio_fits_def)
qed

lemma uio_fits_moved:
  assumes "uio_fits (m + n) u" "uio_rw u = UIO_READ \<Longrightarrow> length xs = m"
  shows "uio_fits n (uio_moved m xs u)"
proof -
  have "length (uio_mem (uio_moved m xs u)) = length (uio_mem u)"
    using assms by (auto simp: uio_moved_def uio_fits_def)
  then show ?thesis using assms(1) by (auto simp: uio_fits_def)
qed

lemma uio_moved_moved:
  assumes "uio_fits (m + n) u" "uio_rw u = UIO_READ \<Longrightarrow> length xs = m \<and> length ys = n"
  shows "uio_moved n ys (uio_moved m xs u) = uio_moved (m + n) (xs @ ys) u"
proof -
  have "splice (splice (uio_mem u) (iov_base u) xs) (iov_base u + m) ys = splice (uio_mem u) (iov_base u) (xs @ ys)" if "uio_rw u = UIO_READ"
    using assms that by (intro splice_splice) (auto simp: uio_fits_def)
  then show ?thesis by (cases u) (auto simp: uio_moved_def)
qed

lemma uio_next_moved: "uio_rw u = UIO_WRITE \<Longrightarrow> uio_next n (uio_moved m [] u) = take n (drop m (uio_next (m + n) u))"
  by (simp add: uio_next_def uio_moved_def drop_take add.commute)

lemma length_uio_next: "uio_fits n u \<Longrightarrow> length (uio_next n u) = n"
  by (auto simp: uio_next_def uio_fits_def min_def)

lemma uiomovezeros_fits:
  assumes "uio_fits n u" "uio_rw u = UIO_READ"
  shows "uiomovezeros n u = Some (Inr (), uio_moved n (replicate n 0) u)"
proof -
  have "uiomovezeros_loop n u = Some (Inr (), uio_moved n (replicate n 0) u)" using assms
  proof (induction n arbitrary: u rule: less_induct)
    case (less n)
    show ?case
    proof (cases "n = 0")
      case True
      then show ?thesis by (simp add: uiomovezeros_loop.simps)
    next
      case False
      let ?a = "min 16 n"
      have a: "?a + (n - ?a) = n" "?a \<le> 16" by simp_all
      have f: "uio_fits (?a + (n - ?a)) u" using less.prems(1) a by simp
      have fa: "uio_fits ?a u" using less.prems(1) by (auto simp: uio_fits_def)
      have tk: "take ?a (drop 0 (replicate 16 (0 :: byte))) = replicate ?a 0" by (simp add: take_replicate)
      have mv: "uiomove (replicate 16 0) 0 ?a u = Some (Inr (), replicate 16 0, uio_moved ?a (replicate ?a 0) u)"
        using uiomove_read [OF fa less.prems(2), of 0 "replicate 16 0"] by (simp add: tk)
      have "uiomovezeros_loop n u = uiomovezeros_loop (n - ?a) (uio_moved ?a (replicate ?a 0) u)"
        using False mv by (subst uiomovezeros_loop.simps) (simp add: Let_def del: replicate.simps)
      also have "\<dots> = Some (Inr (), uio_moved (n - ?a) (replicate (n - ?a) 0) (uio_moved ?a (replicate ?a 0) u))"
        using False less.prems(2) by (intro less.IH uio_fits_moved [OF f]) auto
      also have "uio_moved (n - ?a) (replicate (n - ?a) 0) (uio_moved ?a (replicate ?a 0) u) = uio_moved n (replicate n 0) u"
        by (subst uio_moved_moved [OF f]) (simp_all only: length_replicate simp_thms a(1) replicate_add [symmetric])
      finally show ?thesis .
    qed
  qed
  then show ?thesis using assms(2) by (simp add: uiomovezeros_def)
qed

end
