(* ===== verification/Lhd.thy ===== *)
theory Lhd
  imports Uio "HOL-Library.Signed_Division"
begin

text \<open>
  The disk driver (\<^verbatim>\<open>kern/dev/lamebus/lhd.c\<close>).  A disk is its sectors and the status code with which each
  of the coming operations of the hardware ends (\<open>lh_codes k\<close> for the operation after \<open>k\<close> others).  An
  operation that ends with \<^verbatim>\<open>LHD_OK\<close> has copied the on-card buffer to the sector (write) or the sector to the
  buffer (read); one that fails has copied nothing.  Waiting for an interrupt that never signals completion
  is \<open>None\<close>.
\<close>

unbundle bit_operations_syntax

section \<open>Model\<close>

definition LHD_SECTSIZE :: nat where
  "LHD_SECTSIZE = 512"

definition LHD_OK :: nat where "LHD_OK = 4"
definition LHD_INVSECT :: nat where "LHD_INVSECT = 12"
definition LHD_MEDIA :: nat where "LHD_MEDIA = 20"
definition LHD_STATEMASK :: nat where "LHD_STATEMASK = 0x1d"

record lhd =
  d_blocks :: nat
  lh_sectors :: "byte list list"
  lh_codes :: "nat \<Rightarrow> nat"

definition lhd_code_to_errno :: "nat \<Rightarrow> errno + unit" where
  "lhd_code_to_errno code =
     (let st = code AND LHD_STATEMASK in
      if st = LHD_OK then Inr ()
      else if st = LHD_INVSECT then Inl EINVAL
      else if st = LHD_MEDIA then Inl EIO
      else Inl EAGAIN)"

text \<open>The interrupt handler: what \<^verbatim>\<open>lhd_iodone\<close> saves, if the status means that an operation finished.\<close>

definition lhd_irq :: "nat \<Rightarrow> (errno + unit) option" where
  "lhd_irq val =
     (let st = val AND LHD_STATEMASK in
      if st = LHD_OK \<or> st = LHD_INVSECT \<or> st = LHD_MEDIA then Some (lhd_code_to_errno val) else None)"

text \<open>The hardware: one operation on a sector with the on-card buffer \<open>buf\<close>.\<close>

definition hw_operation :: "uio_rw \<Rightarrow> nat \<Rightarrow> byte list \<Rightarrow> lhd \<Rightarrow> nat \<times> byte list \<times> lhd" where
  "hw_operation rw sector buf lh =
     (let code = (if sector < length (lh_sectors lh) then lh_codes lh 0 else LHD_INVSECT);
          lh1 = lh\<lparr>lh_codes := (\<lambda>k. lh_codes lh (Suc k))\<rparr> in
      if code AND LHD_STATEMASK \<noteq> LHD_OK then (code, buf, lh1)
      else case rw of
          UIO_WRITE \<Rightarrow> (code, buf, lh1\<lparr>lh_sectors := (lh_sectors lh)[sector := buf]\<rparr>)
        | UIO_READ \<Rightarrow> (code, lh_sectors lh ! sector, lh1))"

definition lhd_operation :: "uio_rw \<Rightarrow> nat \<Rightarrow> byte list \<Rightarrow> lhd \<Rightarrow> ((errno + unit) \<times> byte list \<times> lhd) outcome" where
  "lhd_operation rw sector buf lh =
     (let (code, buf1, lh1) = hw_operation rw sector buf lh in
      case lhd_irq code of None \<Rightarrow> None | Some result \<Rightarrow> Some (result, buf1, lh1))"

text \<open>The loop of \<^verbatim>\<open>lhd_io\<close>, for the last \<open>k\<close> sectors; \<open>sector\<close> is \<^verbatim>\<open>sector+i\<close>.\<close>

fun lhd_io_loop :: "nat \<Rightarrow> nat \<Rightarrow> uio \<Rightarrow> lhd \<Rightarrow> ((errno + unit) \<times> uio \<times> lhd) outcome" where
  "lhd_io_loop 0 sector u lh = Some (Inr (), u, lh)"
| "lhd_io_loop (Suc k) sector u lh =
     (case uio_rw u of
        UIO_WRITE \<Rightarrow>
          (case uiomove (replicate LHD_SECTSIZE 0) 0 LHD_SECTSIZE u of
             None \<Rightarrow> None
           | Some (Inl e, _, u1) \<Rightarrow> Some (Inl e, u1, lh)
           | Some (Inr _, buf, u1) \<Rightarrow>
               (case lhd_operation UIO_WRITE sector buf lh of
                  None \<Rightarrow> None
                | Some (Inl e, _, lh1) \<Rightarrow> Some (Inl e, u1, lh1)
                | Some (Inr _, _, lh1) \<Rightarrow> lhd_io_loop k ((sector + 1) mod 2 ^ 32) u1 lh1))
      | UIO_READ \<Rightarrow>
          (case lhd_operation UIO_READ sector (replicate LHD_SECTSIZE 0) lh of
             None \<Rightarrow> None
           | Some (Inl e, _, lh1) \<Rightarrow> Some (Inl e, u, lh1)
           | Some (Inr _, buf, lh1) \<Rightarrow>
               (case uiomove buf 0 LHD_SECTSIZE u of
                  None \<Rightarrow> None
                | Some (Inl e, _, u1) \<Rightarrow> Some (Inl e, u1, lh1)
                | Some (Inr _, _, u1) \<Rightarrow> lhd_io_loop k ((sector + 1) mod 2 ^ 32) u1 lh1)))"

definition lhd_io :: "uio \<Rightarrow> lhd \<Rightarrow> ((errno + unit) \<times> uio \<times> lhd) outcome" where
  "lhd_io u lh =
     (let sector = nat ((uio_offset u sdiv int LHD_SECTSIZE) mod 2 ^ 32);
          sectoff = nat ((uio_offset u smod int LHD_SECTSIZE) mod 2 ^ 32);
          len = uio_resid u div LHD_SECTSIZE;
          lenoff = uio_resid u mod LHD_SECTSIZE in
      if sectoff \<noteq> 0 \<or> lenoff \<noteq> 0 then Some (Inl EINVAL, u, lh)
      else if d_blocks lh < (sector + len) mod 2 ^ 32 then Some (Inl EINVAL, u, lh)
      else lhd_io_loop len sector u lh)"

section \<open>Single sectors\<close>

definition disk_ok :: "lhd \<Rightarrow> bool" where
  "disk_ok lh \<longleftrightarrow> length (lh_sectors lh) = d_blocks lh \<and> d_blocks lh < 2 ^ 22 \<and> (\<forall>x \<in> set (lh_sectors lh). length x = LHD_SECTSIZE)"

definition disk_good :: "lhd \<Rightarrow> bool" where
  "disk_good lh \<longleftrightarrow> disk_ok lh \<and> (\<forall>k. lh_codes lh k = LHD_OK)"

lemma disk_sector_length: "disk_ok lh \<Longrightarrow> b < d_blocks lh \<Longrightarrow> length (lh_sectors lh ! b) = LHD_SECTSIZE"
  by (auto simp: disk_ok_def)

lemma lhd_irq_eqs [simp]: "lhd_irq LHD_OK = Some (Inr ())" "lhd_irq LHD_MEDIA = Some (Inl EIO)" "lhd_irq LHD_INVSECT = Some (Inl EINVAL)"
  by (simp_all add: lhd_irq_def lhd_code_to_errno_def LHD_OK_def LHD_MEDIA_def LHD_INVSECT_def LHD_STATEMASK_def Let_def)

lemma lhd_operation_eqs:
  assumes "sector < length (lh_sectors lh)"
  shows "lh_codes lh 0 = LHD_OK \<Longrightarrow> lhd_operation UIO_WRITE sector buf lh =
      Some (Inr (), buf, lh\<lparr>lh_codes := (\<lambda>k. lh_codes lh (Suc k)), lh_sectors := (lh_sectors lh)[sector := buf]\<rparr>)"
    "lh_codes lh 0 = LHD_OK \<Longrightarrow> lhd_operation UIO_READ sector buf lh =
      Some (Inr (), lh_sectors lh ! sector, lh\<lparr>lh_codes := (\<lambda>k. lh_codes lh (Suc k))\<rparr>)"
    "lh_codes lh 0 = LHD_MEDIA \<Longrightarrow> lhd_operation rw sector buf lh = Some (Inl EIO, buf, lh\<lparr>lh_codes := (\<lambda>k. lh_codes lh (Suc k))\<rparr>)"
  using assms by (auto simp: lhd_operation_def hw_operation_def LHD_OK_def LHD_MEDIA_def LHD_STATEMASK_def Let_def lhd_irq_def lhd_code_to_errno_def LHD_INVSECT_def)

text \<open>A transfer of one sector reaches the hardware with its number.\<close>

lemma sector_of_offset:
  assumes "b < 2 ^ 22"
  shows "nat ((int b * 512 sdiv int LHD_SECTSIZE) mod 2 ^ 32) = b" "(int b * 512 smod int LHD_SECTSIZE) mod 2 ^ 32 = 0"
proof -
  have "int b * 512 sdiv 512 = int b" by (cases "b = 0") (simp_all add: signed_divide_int_def sgn_mult)
  moreover have "int b * 512 smod 512 = 0" by (simp add: signed_modulo_int_def)
  moreover have "int b mod 2 ^ 32 = int b" using assms by simp
  ultimately show "nat ((int b * 512 sdiv int LHD_SECTSIZE) mod 2 ^ 32) = b" "(int b * 512 smod int LHD_SECTSIZE) mod 2 ^ 32 = 0"
    by (simp_all add: LHD_SECTSIZE_def)
qed

lemma lhd_io_one:
  assumes "disk_ok lh" "b < d_blocks lh" "uio_offset u = int b * 512" "uio_resid u = LHD_SECTSIZE"
  shows "lhd_io u lh = lhd_io_loop 1 b u lh"
proof -
  have b: "b < 2 ^ 22" using assms(1,2) by (simp add: disk_ok_def)
  have "\<not> d_blocks lh < (b + 1) mod 2 ^ 32" using assms(2) b by simp
  then show ?thesis using sector_of_offset [OF b] assms(3,4) by (simp add: lhd_io_def Let_def) (simp add: LHD_SECTSIZE_def)
qed

lemma lhd_io_zero:
  assumes "disk_ok lh" "b \<le> d_blocks lh" "uio_offset u = int b * 512" "uio_resid u = 0"
  shows "lhd_io u lh = Some (Inr (), u, lh)"
proof -
  have b: "b < 2 ^ 22" using assms(1,2) by (simp add: disk_ok_def)
  then show ?thesis using sector_of_offset [OF b] assms by (simp add: lhd_io_def Let_def)
qed

lemma lhd_io_read:
  assumes d: "disk_ok lh" and b: "b < d_blocks lh" "uio_offset u = int b * 512"
    and u: "uio_resid u = LHD_SECTSIZE" "uio_rw u = UIO_READ" "uio_fits LHD_SECTSIZE u"
  shows "lh_codes lh 0 = LHD_OK \<Longrightarrow> lhd_io u lh = Some (Inr (), uio_moved LHD_SECTSIZE (lh_sectors lh ! b) u, lh\<lparr>lh_codes := (\<lambda>k. lh_codes lh (Suc k))\<rparr>)"
    "lh_codes lh 0 = LHD_MEDIA \<Longrightarrow> lhd_io u lh = Some (Inl EIO, u, lh\<lparr>lh_codes := (\<lambda>k. lh_codes lh (Suc k))\<rparr>)"
proof -
  have l: "b < length (lh_sectors lh)" "length (lh_sectors lh ! b) = LHD_SECTSIZE"
    using d b disk_sector_length [OF d b(1)] by (simp_all add: disk_ok_def)
  have mv: "uiomove (lh_sectors lh ! b) 0 LHD_SECTSIZE u = Some (Inr (), lh_sectors lh ! b, uio_moved LHD_SECTSIZE (lh_sectors lh ! b) u)"
    using uiomove_read [OF u(3,2), of 0 "lh_sectors lh ! b"] l by simp
  show "lhd_io u lh = Some (Inr (), uio_moved LHD_SECTSIZE (lh_sectors lh ! b) u, lh\<lparr>lh_codes := (\<lambda>k. lh_codes lh (Suc k))\<rparr>)" if "lh_codes lh 0 = LHD_OK"
    using that u mv lhd_operation_eqs(2) [OF l(1)] by (simp add: lhd_io_one [OF d b u(1)])
  show "lhd_io u lh = Some (Inl EIO, u, lh\<lparr>lh_codes := (\<lambda>k. lh_codes lh (Suc k))\<rparr>)" if "lh_codes lh 0 = LHD_MEDIA"
    using that u mv lhd_operation_eqs(3) [OF l(1)] by (simp add: lhd_io_one [OF d b u(1)])
qed

lemma lhd_io_write:
  assumes d: "disk_ok lh" and b: "b < d_blocks lh" "uio_offset u = int b * 512"
    and u: "uio_resid u = LHD_SECTSIZE" "uio_rw u = UIO_WRITE" "uio_fits LHD_SECTSIZE u"
  shows "lh_codes lh 0 = LHD_OK \<Longrightarrow> lhd_io u lh = Some (Inr (), uio_moved LHD_SECTSIZE [] u,
      lh\<lparr>lh_codes := (\<lambda>k. lh_codes lh (Suc k)), lh_sectors := (lh_sectors lh)[b := uio_next LHD_SECTSIZE u]\<rparr>)"
    "lh_codes lh 0 = LHD_MEDIA \<Longrightarrow> lhd_io u lh = Some (Inl EIO, uio_moved LHD_SECTSIZE [] u, lh\<lparr>lh_codes := (\<lambda>k. lh_codes lh (Suc k))\<rparr>)"
proof -
  have l: "b < length (lh_sectors lh)" using d b by (simp add: disk_ok_def)
  have sp: "splice (replicate LHD_SECTSIZE 0) 0 (uio_next LHD_SECTSIZE u) = uio_next LHD_SECTSIZE u"
    using length_uio_next [OF u(3)] by (intro splice_all) simp
  have mv: "uiomove (replicate LHD_SECTSIZE 0) 0 LHD_SECTSIZE u = Some (Inr (), uio_next LHD_SECTSIZE u, uio_moved LHD_SECTSIZE [] u)"
    using uiomove_write [OF u(3,2), of 0 "replicate LHD_SECTSIZE 0"] sp by simp
  show "lhd_io u lh = Some (Inr (), uio_moved LHD_SECTSIZE [] u,
      lh\<lparr>lh_codes := (\<lambda>k. lh_codes lh (Suc k)), lh_sectors := (lh_sectors lh)[b := uio_next LHD_SECTSIZE u]\<rparr>)" if "lh_codes lh 0 = LHD_OK"
    using that u mv lhd_operation_eqs(1) [OF l(1)] by (simp add: lhd_io_one [OF d b u(1)])
  show "lhd_io u lh = Some (Inl EIO, uio_moved LHD_SECTSIZE [] u, lh\<lparr>lh_codes := (\<lambda>k. lh_codes lh (Suc k))\<rparr>)" if "lh_codes lh 0 = LHD_MEDIA"
    using that u mv lhd_operation_eqs(3) [OF l(1)] by (simp add: lhd_io_one [OF d b u(1)])
qed

lemma disk_good_codes: "disk_good lh \<Longrightarrow> lh\<lparr>lh_codes := (\<lambda>k. lh_codes lh (Suc k))\<rparr> = lh"
  by (cases lh) (auto simp: disk_good_def)

end
