(* ===== verification/Sfs_Disk.thy ===== *)
theory Sfs_Disk
  imports Lhd
begin

text \<open>
  The structures that SFS keeps on disk (\<^verbatim>\<open>kern/include/kern/sfs.h\<close>) and its block transfers
  (\<^verbatim>\<open>kern/fs/sfs/sfs_io.c\<close>).  The kernel reads a sector straight into the structure, so the layout of a
  structure in memory is its layout on disk: the fields in order, each with its most significant byte
  first.  The fields are natural numbers.
\<close>

section \<open>Structures\<close>

definition SFS_MAGIC :: nat where "SFS_MAGIC = 0xabadf001"
definition SFS_BLOCKSIZE :: nat where "SFS_BLOCKSIZE = 512"
definition SFS_VOLNAME_SIZE :: nat where "SFS_VOLNAME_SIZE = 32"
definition SFS_NDIRECT :: nat where "SFS_NDIRECT = 15"
definition SFS_DBPERIDB :: nat where "SFS_DBPERIDB = 128"
definition SFS_NAMELEN :: nat where "SFS_NAMELEN = 60"
definition SFS_SB_LOCATION :: nat where "SFS_SB_LOCATION = 0"
definition SFS_ROOT_LOCATION :: nat where "SFS_ROOT_LOCATION = 1"
definition SFS_MAP_LOCATION :: nat where "SFS_MAP_LOCATION = 2"
definition SFS_NOINO :: nat where "SFS_NOINO = 0"
definition SFS_BLOCKBITS :: nat where "SFS_BLOCKBITS = 512 * 8"
definition SFS_TYPE_INVAL :: nat where "SFS_TYPE_INVAL = 0"
definition SFS_TYPE_FILE :: nat where "SFS_TYPE_FILE = 1"
definition SFS_TYPE_DIR :: nat where "SFS_TYPE_DIR = 2"

definition SFS_BITMAPSIZE :: "nat \<Rightarrow> nat" where
  "SFS_BITMAPSIZE nblocks = ((nblocks + SFS_BLOCKBITS - 1) mod 2 ^ 32) div SFS_BLOCKBITS * SFS_BLOCKBITS"

definition SFS_BITBLOCKS :: "nat \<Rightarrow> nat" where
  "SFS_BITBLOCKS nblocks = SFS_BITMAPSIZE nblocks div SFS_BLOCKBITS"

record sfs_super =
  sp_magic :: nat
  sp_nblocks :: nat
  sp_volname :: "byte list"
  sp_reserved :: "byte list"

record sfs_inode =
  sfi_size :: nat
  sfi_type :: nat
  sfi_linkcount :: nat
  sfi_direct :: "nat list"
  sfi_indirect :: nat
  sfi_waste :: "byte list"

record sfs_dir =
  sfd_ino :: nat
  sfd_name :: "byte list"

section \<open>Layout in memory\<close>

text \<open>An unsigned number in \<open>k\<close> bytes, most significant byte first.\<close>

primrec put_be :: "nat \<Rightarrow> nat \<Rightarrow> byte list" where
  "put_be 0 n = []"
| "put_be (Suc k) n = put_be k (n div 256) @ [of_nat (n mod 256)]"

definition get_be :: "byte list \<Rightarrow> nat" where
  "get_be bs = foldl (\<lambda>n b. n * 256 + unat b) 0 bs"

definition words_bytes :: "nat list \<Rightarrow> byte list" where
  "words_bytes ws = concat (map (put_be 4) ws)"

definition bytes_words :: "nat \<Rightarrow> byte list \<Rightarrow> nat list" where
  "bytes_words k bs = map (\<lambda>i. get_be (take 4 (drop (4 * i) bs))) [0..<k]"

definition super_bytes :: "sfs_super \<Rightarrow> byte list" where
  "super_bytes sp = put_be 4 (sp_magic sp) @ put_be 4 (sp_nblocks sp) @ sp_volname sp @ sp_reserved sp"

definition super_of :: "byte list \<Rightarrow> sfs_super" where
  "super_of bs = \<lparr>sp_magic = get_be (take 4 bs), sp_nblocks = get_be (take 4 (drop 4 bs)),
     sp_volname = take 32 (drop 8 bs), sp_reserved = take 472 (drop 40 bs)\<rparr>"

definition inode_bytes :: "sfs_inode \<Rightarrow> byte list" where
  "inode_bytes i = put_be 4 (sfi_size i) @ put_be 2 (sfi_type i) @ put_be 2 (sfi_linkcount i) @
     words_bytes (sfi_direct i) @ put_be 4 (sfi_indirect i) @ sfi_waste i"

definition inode_of :: "byte list \<Rightarrow> sfs_inode" where
  "inode_of bs = \<lparr>sfi_size = get_be (take 4 bs), sfi_type = get_be (take 2 (drop 4 bs)),
     sfi_linkcount = get_be (take 2 (drop 6 bs)), sfi_direct = bytes_words 15 (drop 8 bs),
     sfi_indirect = get_be (take 4 (drop 68 bs)), sfi_waste = take 440 (drop 72 bs)\<rparr>"

definition dir_bytes :: "sfs_dir \<Rightarrow> byte list" where
  "dir_bytes d = put_be 4 (sfd_ino d) @ sfd_name d"

definition dir_of :: "byte list \<Rightarrow> sfs_dir" where
  "dir_of bs = \<lparr>sfd_ino = get_be (take 4 bs), sfd_name = take 60 (drop 4 bs)\<rparr>"

section \<open>Block transfers\<close>

text \<open>
  The retries of \<^verbatim>\<open>sfs_rwblock\<close>: every attempt passes the same \<^verbatim>\<open>uio\<close> on, as the one before left it.
\<close>

function sfs_rwblock_from :: "nat \<Rightarrow> uio \<Rightarrow> lhd \<Rightarrow> ((errno + unit) \<times> uio \<times> lhd) outcome" where
  "sfs_rwblock_from tries u lh =
     (case lhd_io u lh of
        None \<Rightarrow> None
      | Some (result, u1, lh1) \<Rightarrow>
          if result = Inl EINVAL then None
          else if result = Inl EIO \<and> tries < 10 then sfs_rwblock_from (tries + 1) u1 lh1
          else Some (result, u1, lh1))"
  by pat_completeness auto
termination
  by (relation "measure (\<lambda>(tries, u, lh). 10 - tries)") auto

declare sfs_rwblock_from.simps [simp del]

definition sfs_rwblock :: "uio \<Rightarrow> lhd \<Rightarrow> ((errno + unit) \<times> uio \<times> lhd) outcome" where
  "sfs_rwblock u lh = sfs_rwblock_from 0 u lh"

text \<open>\<^verbatim>\<open>SFSUIO\<close>; the product of the block number is a signed one.\<close>

definition SFSUIO :: "byte list \<Rightarrow> nat \<Rightarrow> uio_rw \<Rightarrow> uio outcome" where
  "SFSUIO ptr block rw = do {
     kassert (int_ok (int block * int SFS_BLOCKSIZE));
     Some (mk_kuio ptr SFS_BLOCKSIZE (int block * int SFS_BLOCKSIZE) rw)
   }"

definition sfs_rblock :: "byte list \<Rightarrow> nat \<Rightarrow> lhd \<Rightarrow> ((errno + unit) \<times> byte list \<times> lhd) outcome" where
  "sfs_rblock data block lh = do {
     ku \<leftarrow> SFSUIO data block UIO_READ;
     (result, ku1, lh1) \<leftarrow> sfs_rwblock ku lh;
     Some (result, uio_mem ku1, lh1)
   }"

definition sfs_wblock :: "byte list \<Rightarrow> nat \<Rightarrow> lhd \<Rightarrow> ((errno + unit) \<times> lhd) outcome" where
  "sfs_wblock data block lh = do {
     ku \<leftarrow> SFSUIO data block UIO_WRITE;
     (result, ku1, lh1) \<leftarrow> sfs_rwblock ku lh;
     Some (result, lh1)
   }"

section \<open>Codecs\<close>

lemma length_put_be [simp]: "length (put_be k n) = k"
  by (induction k arbitrary: n) simp_all

lemma get_be_append: "get_be (bs @ [b]) = get_be bs * 256 + unat b"
  by (simp add: get_be_def)

lemma get_put_be [simp]: "get_be (put_be k n) = n mod 256 ^ k"
proof (induction k arbitrary: n)
  case 0
  then show ?case by (simp add: get_be_def)
next
  case (Suc k)
  have "unat (of_nat (n mod 256) :: byte) = n mod 256" by (simp add: unat_of_nat)
  then have "get_be (put_be (Suc k) n) = n div 256 mod 256 ^ k * 256 + n mod 256" using Suc by (simp add: get_be_append)
  also have "\<dots> = n mod 256 ^ Suc k" by (simp add: mod_mult2_eq mult.commute)
  finally show ?case .
qed

lemma get_be_less: "get_be bs < 256 ^ length bs"
proof (induction bs rule: rev_induct)
  case (snoc b bs)
  have "unat b < 256" using unsigned_less [of b] by simp
  then show ?case using snoc by (simp add: get_be_append)
qed (simp add: get_be_def)

lemma put_get_be: "length bs = k \<Longrightarrow> put_be k (get_be bs) = bs"
proof (induction bs arbitrary: k rule: rev_induct)
  case (snoc b bs)
  have "unat b < 256" using unsigned_less [of b] by simp
  then show ?case using snoc by (cases k) (auto simp: get_be_append)
qed simp

lemma length_words_bytes [simp]: "length (words_bytes ws) = 4 * length ws"
  by (induction ws) (simp_all add: words_bytes_def)

lemma length_bytes_words [simp]: "length (bytes_words k bs) = k"
  by (simp add: bytes_words_def)

lemma words_bytes_nth:
  "i < length ws \<Longrightarrow> take 4 (drop (4 * i) (words_bytes ws @ rest)) = put_be 4 (ws ! i)"
proof (induction ws arbitrary: i)
  case (Cons w ws)
  then show ?case by (cases i) (simp_all add: words_bytes_def)
qed simp

lemma words_of_bytes: "\<forall>w \<in> set ws. w < 2 ^ 32 \<Longrightarrow> length ws = k \<Longrightarrow> bytes_words k (words_bytes ws @ rest) = ws"
  by (intro nth_equalityI) (simp_all add: bytes_words_def words_bytes_nth [of _ ws "[]", simplified])

lemma words_bytes_append: "words_bytes (ws @ vs) = words_bytes ws @ words_bytes vs"
  by (simp add: words_bytes_def)

lemma bytes_of_words: "4 * k \<le> length bs \<Longrightarrow> words_bytes (bytes_words k bs) = take (4 * k) bs"
proof (induction k)
  case (Suc k)
  have "words_bytes (bytes_words (Suc k) bs) = words_bytes (bytes_words k bs) @ put_be 4 (get_be (take 4 (drop (4 * k) bs)))"
    by (simp add: bytes_words_def words_bytes_append) (simp add: words_bytes_def)
  also have "\<dots> = take (4 * k) bs @ take 4 (drop (4 * k) bs)" using Suc by (simp add: put_get_be)
  also have "\<dots> = take (4 * Suc k) bs" by (simp add: take_add [symmetric] add.commute)
  finally show ?case .
qed (simp add: words_bytes_def bytes_words_def)

lemma bytes_words_less: "w \<in> set (bytes_words k bs) \<Longrightarrow> w < 4294967296"
proof -
  assume "w \<in> set (bytes_words k bs)"
  then obtain i where "w = get_be (take 4 (drop (4 * i) bs))" by (auto simp: bytes_words_def)
  moreover have "256 ^ length (take 4 (drop (4 * i) bs)) \<le> (256 :: nat) ^ 4" by (intro power_increasing) auto
  ultimately show ?thesis using get_be_less [of "take 4 (drop (4 * i) bs)"] by simp
qed

text \<open>The values the fields of an inode and of a directory entry can hold.\<close>

definition inode_fits :: "sfs_inode \<Rightarrow> bool" where
  "inode_fits i \<longleftrightarrow> sfi_size i < 2 ^ 32 \<and> sfi_type i < 2 ^ 16 \<and> sfi_linkcount i < 2 ^ 16 \<and>
     length (sfi_direct i) = SFS_NDIRECT \<and> (\<forall>b \<in> set (sfi_direct i). b < 2 ^ 32) \<and> sfi_indirect i < 2 ^ 32 \<and>
     length (sfi_waste i) = 440"

definition dir_fits :: "sfs_dir \<Rightarrow> bool" where
  "dir_fits d \<longleftrightarrow> sfd_ino d < 2 ^ 32 \<and> length (sfd_name d) = SFS_NAMELEN"

lemma length_inode_bytes: "inode_fits i \<Longrightarrow> length (inode_bytes i) = SFS_BLOCKSIZE"
  by (simp add: inode_bytes_def inode_fits_def SFS_BLOCKSIZE_def SFS_NDIRECT_def)

lemma inode_of_bytes: "inode_fits i \<Longrightarrow> inode_of (inode_bytes i) = i"
  by (cases i) (simp add: inode_of_def inode_bytes_def inode_fits_def SFS_NDIRECT_def words_of_bytes)

lemma inode_of_fits: "length bs = SFS_BLOCKSIZE \<Longrightarrow> inode_fits (inode_of bs)"
  using get_be_less [of "take 4 bs"] get_be_less [of "take 2 (drop 4 bs)"] get_be_less [of "take 2 (drop 6 bs)"]
    get_be_less [of "take 4 (drop 68 bs)"]
  by (auto simp: inode_of_def inode_fits_def SFS_BLOCKSIZE_def SFS_NDIRECT_def bytes_words_less)

lemma length_dir_bytes: "dir_fits d \<Longrightarrow> length (dir_bytes d) = 64"
  by (simp add: dir_bytes_def dir_fits_def SFS_NAMELEN_def)

lemma dir_of_bytes: "dir_fits d \<Longrightarrow> dir_of (dir_bytes d) = d"
  by (cases d) (simp add: dir_of_def dir_bytes_def dir_fits_def SFS_NAMELEN_def)

lemma dir_of_fits: "length bs = 64 \<Longrightarrow> dir_fits (dir_of bs)"
  using get_be_less [of "take 4 bs"] by (simp add: dir_of_def dir_fits_def SFS_NAMELEN_def)

section \<open>Transfers\<close>

lemma mk_kuio_fits: "length ptr = SFS_BLOCKSIZE \<Longrightarrow> b < 2 ^ 22 - 1 \<Longrightarrow> uio_fits LHD_SECTSIZE (mk_kuio ptr SFS_BLOCKSIZE (int b * 512) rw)"
  by (simp add: uio_fits_def mk_kuio_def LHD_SECTSIZE_def SFS_BLOCKSIZE_def)

lemma SFSUIO_eq: "b < 2 ^ 22 - 1 \<Longrightarrow> SFSUIO ptr b rw = Some (mk_kuio ptr SFS_BLOCKSIZE (int b * 512) rw)"
  by (simp add: SFSUIO_def int_ok_def SFS_BLOCKSIZE_def)

lemma mk_kuio_simps [simp]:
  "uio_offset (mk_kuio ptr n p rw) = p" "uio_resid (mk_kuio ptr n p rw) = n" "uio_rw (mk_kuio ptr n p rw) = rw"
  "uio_mem (mk_kuio ptr n p rw) = ptr" "iov_base (mk_kuio ptr n p rw) = 0" "iov_len (mk_kuio ptr n p rw) = n"
  "uio_segflg (mk_kuio ptr n p rw) = UIO_SYSSPACE" "uio_space_ok (mk_kuio ptr n p rw)"
  by (simp_all add: mk_kuio_def)

lemma sfs_rblock_eq:
  assumes "disk_ok lh" "block < d_blocks lh" "d_blocks lh < 2 ^ 22" "length data = SFS_BLOCKSIZE"
  shows "sfs_rblock data block lh = do {
      (result, ku1, lh1) \<leftarrow> sfs_rwblock_from 0 (mk_kuio data SFS_BLOCKSIZE (int block * 512) UIO_READ) lh;
      Some (result, uio_mem ku1, lh1) }"
  using assms SFSUIO_eq [of block data UIO_READ] by (simp add: sfs_rblock_def sfs_rwblock_def)

text \<open>A disk without errors: a read gives the sector, a write replaces it.\<close>

lemma sfs_rblock_good:
  assumes g: "disk_good lh" and b: "block < d_blocks lh" and l: "length data = SFS_BLOCKSIZE"
  shows "sfs_rblock data block lh = Some (Inr (), lh_sectors lh ! block, lh)"
proof -
  have d: "disk_ok lh" "lh_codes lh 0 = LHD_OK" "d_blocks lh < 2 ^ 22" using g by (simp_all add: disk_good_def disk_ok_def)
  let ?u = "mk_kuio data SFS_BLOCKSIZE (int block * 512) UIO_READ"
  have f: "uio_fits LHD_SECTSIZE ?u" using b d(3) by (intro mk_kuio_fits [OF l]) simp
  have "uio_mem (uio_moved LHD_SECTSIZE (lh_sectors lh ! block) ?u) = lh_sectors lh ! block"
    using disk_sector_length [OF d(1) b] l by (simp add: uio_moved_def splice_all LHD_SECTSIZE_def SFS_BLOCKSIZE_def)
  moreover have "lhd_io ?u lh = Some (Inr (), uio_moved LHD_SECTSIZE (lh_sectors lh ! block) ?u, lh)"
    using lhd_io_read(1) [OF d(1) b, of ?u] f d(2) disk_good_codes [OF g] by (simp add: LHD_SECTSIZE_def SFS_BLOCKSIZE_def)
  ultimately show ?thesis using sfs_rblock_eq [OF d(1) b d(3) l] by (simp add: sfs_rwblock_from.simps)
qed

lemma sfs_wblock_good:
  assumes g: "disk_good lh" and b: "block < d_blocks lh" and l: "length data = SFS_BLOCKSIZE"
  shows "sfs_wblock data block lh = Some (Inr (), lh\<lparr>lh_sectors := (lh_sectors lh)[block := data]\<rparr>)"
proof -
  have d: "disk_ok lh" "lh_codes lh 0 = LHD_OK" "d_blocks lh < 2 ^ 22" using g by (simp_all add: disk_good_def disk_ok_def)
  let ?u = "mk_kuio data SFS_BLOCKSIZE (int block * 512) UIO_WRITE"
  have f: "uio_fits LHD_SECTSIZE ?u" using b d(3) by (intro mk_kuio_fits [OF l]) simp
  have "uio_next LHD_SECTSIZE ?u = data" using l by (simp add: uio_next_def LHD_SECTSIZE_def SFS_BLOCKSIZE_def)
  moreover have "lh\<lparr>lh_codes := (\<lambda>k. lh_codes lh (Suc k)), lh_sectors := x\<rparr> = lh\<lparr>lh_sectors := x\<rparr>" for x
    using disk_good_codes [OF g] by (metis lhd.surjective lhd.update_convs(2,3))
  ultimately have "lhd_io ?u lh = Some (Inr (), uio_moved LHD_SECTSIZE [] ?u, lh\<lparr>lh_sectors := (lh_sectors lh)[block := data]\<rparr>)"
    using lhd_io_write(1) [OF d(1) b, of ?u] f d(2) by (simp add: LHD_SECTSIZE_def SFS_BLOCKSIZE_def)
  then show ?thesis using SFSUIO_eq [of block data UIO_WRITE] b d(3) by (simp add: sfs_wblock_def sfs_rwblock_def sfs_rwblock_from.simps)
qed

text \<open>
  After a media error the driver has already taken the data from the \<^verbatim>\<open>uio\<close>, and the retry transfers
  nothing: it succeeds, and the sector keeps its old contents.
\<close>

lemma sfs_wblock_media:
  assumes d: "disk_ok lh" and b: "block < d_blocks lh" and l: "length data = SFS_BLOCKSIZE" and m: "lh_codes lh 0 = LHD_MEDIA"
  shows "sfs_wblock data block lh = Some (Inr (), lh\<lparr>lh_codes := (\<lambda>k. lh_codes lh (Suc k))\<rparr>)"
proof -
  have db: "d_blocks lh < 2 ^ 22" using d by (simp add: disk_ok_def)
  let ?u = "mk_kuio data SFS_BLOCKSIZE (int block * 512) UIO_WRITE" and ?lh = "lh\<lparr>lh_codes := (\<lambda>k. lh_codes lh (Suc k))\<rparr>"
  have f: "uio_fits LHD_SECTSIZE ?u" using b db by (intro mk_kuio_fits [OF l]) simp
  have first: "lhd_io ?u lh = Some (Inl EIO, uio_moved LHD_SECTSIZE [] ?u, ?lh)"
    using lhd_io_write(2) [OF d b, of ?u] f m by (simp add: LHD_SECTSIZE_def SFS_BLOCKSIZE_def)
  have "lhd_io (uio_moved LHD_SECTSIZE [] ?u) ?lh = Some (Inr (), uio_moved LHD_SECTSIZE [] ?u, ?lh)"
    using d b by (intro lhd_io_zero [of _ "Suc block"]) (simp_all add: disk_ok_def LHD_SECTSIZE_def SFS_BLOCKSIZE_def)
  then show ?thesis using first SFSUIO_eq [of block data UIO_WRITE] b db
    by (simp add: sfs_wblock_def sfs_rwblock_def sfs_rwblock_from.simps)
qed

lemma disk_good_write: "disk_good lh \<Longrightarrow> length data = SFS_BLOCKSIZE \<Longrightarrow> disk_good (lh\<lparr>lh_sectors := (lh_sectors lh)[b := data]\<rparr>)"
  using set_update_subset_insert [of "lh_sectors lh" b data]
  by (auto simp: disk_good_def disk_ok_def SFS_BLOCKSIZE_def LHD_SECTSIZE_def)

end
