(* ===== verification/Vnode.thy ===== *)
theory Vnode
  imports Kernel_Prelude
begin

text \<open>
  Counting references to files (\<^verbatim>\<open>kern/fs/vfs/vnode.c\<close>).  A \<open>vnode\<close> has its reference and open counts and
  the operations table \<^verbatim>\<open>vn_ops\<close>, which is what a file system puts there; file systems extend the record.
  The count lock protects single updates of the counts; calls are modelled one at a time.  Whether
  \<^verbatim>\<open>lock_create\<close> has memory is an argument.  The calls that go back to the file system when the last
  reference or the last opening goes are made by the caller of the model, with the flag returned here.
\<close>

section \<open>Model\<close>

record 'o vnode =
  vn_refcount :: int
  vn_opencount :: int
  vn_ops :: 'o

definition vnode_init :: "bool \<Rightarrow> 'o \<Rightarrow> (errno + 'o vnode)" where
  "vnode_init lock_ok ops = (if lock_ok then Inr \<lparr>vn_refcount = 1, vn_opencount = 0, vn_ops = ops\<rparr> else Inl ENOMEM)"

definition vnode_kill :: "('o, 'b) vnode_scheme \<Rightarrow> unit outcome" where
  "vnode_kill vn = do {
     kassert (vn_refcount vn = 1);
     kassert (vn_opencount vn = 0)
   }"

definition vnode_incref :: "('o, 'b) vnode_scheme \<Rightarrow> ('o, 'b) vnode_scheme" where
  "vnode_incref vn = vn\<lparr>vn_refcount := vn_refcount vn + 1\<rparr>"

text \<open>The flag is \<^verbatim>\<open>actually_do_it\<close>: \<^verbatim>\<open>VOP_RECLAIM\<close> follows.\<close>

definition vnode_decref :: "('o, 'b) vnode_scheme \<Rightarrow> (bool \<times> ('o, 'b) vnode_scheme) outcome" where
  "vnode_decref vn = do {
     kassert (vn_refcount vn > 0);
     Some (if vn_refcount vn > 1 then (False, vn\<lparr>vn_refcount := vn_refcount vn - 1\<rparr>) else (True, vn))
   }"

definition vnode_incopen :: "('o, 'b) vnode_scheme \<Rightarrow> ('o, 'b) vnode_scheme" where
  "vnode_incopen vn = vn\<lparr>vn_opencount := vn_opencount vn + 1\<rparr>"

text \<open>The flag says that \<^verbatim>\<open>VOP_CLOSE\<close> follows.\<close>

definition vnode_decopen :: "('o, 'b) vnode_scheme \<Rightarrow> (bool \<times> ('o, 'b) vnode_scheme) outcome" where
  "vnode_decopen vn = do {
     kassert (vn_opencount vn > 0);
     let opencount = vn_opencount vn - 1;
     Some (\<not> opencount > 0, vn\<lparr>vn_opencount := opencount\<rparr>)
   }"

definition vnode_check :: "string \<Rightarrow> ('o, 'b) vnode_scheme \<Rightarrow> unit outcome" where
  "vnode_check opstr vn = do {
     kassert (\<not> vn_refcount vn < 0);
     kassert (\<not> (vn_refcount vn = 0 \<and> opstr \<noteq> ''reclaim''));
     kassert (\<not> vn_opencount vn < 0)
   }"

section \<open>Counting\<close>

text \<open>A vnode that somebody holds.\<close>

definition vnode_ok :: "('o, 'b) vnode_scheme \<Rightarrow> bool" where
  "vnode_ok vn \<longleftrightarrow> 0 < vn_refcount vn \<and> 0 \<le> vn_opencount vn"

lemma vnode_check_ok: "vnode_ok vn \<Longrightarrow> vnode_check op vn = Some ()"
  by (simp add: vnode_check_def vnode_ok_def)

lemma vnode_init_ok: "vnode_init lock_ok ops = Inr vn \<Longrightarrow> vnode_ok vn"
  by (auto simp: vnode_init_def vnode_ok_def split: if_splits)

lemma vnode_incref_ok: "vnode_ok vn \<Longrightarrow> vnode_ok (vnode_incref vn)"
  by (simp add: vnode_ok_def vnode_incref_def)

lemma vnode_decref_incref: "vnode_ok vn \<Longrightarrow> vnode_decref (vnode_incref vn) = Some (False, vn)"
  by (simp add: vnode_decref_def vnode_incref_def vnode_ok_def)

lemma vnode_decopen_incopen: "vnode_ok vn \<Longrightarrow> vnode_decopen (vnode_incopen vn) = Some (vn_opencount vn = 0, vn)"
  by (auto simp: vnode_decopen_def vnode_incopen_def vnode_ok_def)

lemma vnode_decref_ok: "vnode_decref vn = Some (doit, vn') \<Longrightarrow> 0 \<le> vn_opencount vn \<Longrightarrow> vnode_ok vn'"
  by (auto simp: vnode_decref_def vnode_ok_def split: if_splits)

end
