(* ===== verification/Sfs.thy ===== *)
theory Sfs
  imports Sfs_Disk Vnode KBitmap KArray
begin

text \<open>
  The file system SFS (\<^verbatim>\<open>kern/fs/sfs/sfs_vnode.c\<close>, \<^verbatim>\<open>kern/fs/sfs/sfs_fs.c\<close>) on a disk.  The state \<open>sfs\<close> is
  \<^verbatim>\<open>struct sfs_fs\<close> with the disk it is mounted on and the vnodes it has in memory, by their addresses.  The
  static buffers of the source hold nothing from one call to the next and are local here.  Names are lists
  of bytes without the final 0.  Numbers of 32 bits are natural numbers, file offsets integers.  Calls run
  one at a time.  The results of \<^verbatim>\<open>kmalloc\<close> and the memory for locks and arrays are arguments.
\<close>

section \<open>State\<close>

datatype vops = sfs_fileops | sfs_dirops

record sfs_vnode = "vops vnode" +
  sv_i :: sfs_inode
  sv_ino :: nat
  sv_dirty :: bool

record sfs =
  sfs_superblk :: sfs_super
  sfs_superdirty :: bool
  sfs_device :: lhd
  sfs_vnodes :: "nat karray"
  sfs_freemap :: bitmap
  sfs_freemapdirty :: bool
  svs :: "nat \<rightharpoonup> sfs_vnode"

type_synonym 'a sfs_op = "sfs \<Rightarrow> ((errno + 'a) \<times> sfs) outcome"

definition set_sv :: "nat \<Rightarrow> sfs_vnode \<Rightarrow> sfs \<Rightarrow> sfs" where
  "set_sv p sv s = s\<lparr>svs := (svs s)(p \<mapsto> sv)\<rparr>"

text \<open>A change of an inode in memory marks it dirty.\<close>

definition set_inode :: "nat \<Rightarrow> sfs_inode \<Rightarrow> sfs \<Rightarrow> sfs outcome" where
  "set_inode p i s = do {
     sv \<leftarrow> svs s p;
     Some (set_sv p (sv\<lparr>sv_i := i, sv_dirty := True\<rparr>) s)
   }"

definition rblock :: "nat \<Rightarrow> byte list sfs_op" where
  "rblock block s = do {
     (result, data, lh) \<leftarrow> sfs_rblock (replicate SFS_BLOCKSIZE 0) block (sfs_device s);
     Some (case result of Inl e \<Rightarrow> Inl e | Inr _ \<Rightarrow> Inr data, s\<lparr>sfs_device := lh\<rparr>)
   }"

definition wblock :: "byte list \<Rightarrow> nat \<Rightarrow> unit sfs_op" where
  "wblock data block s = do {
     (result, lh) \<leftarrow> sfs_wblock data block (sfs_device s);
     Some (result, s\<lparr>sfs_device := lh\<rparr>)
   }"

section \<open>Blocks and inodes\<close>

definition sfs_clearblock :: "nat \<Rightarrow> unit sfs_op" where
  "sfs_clearblock block s = wblock (replicate SFS_BLOCKSIZE 0) block s"

definition sfs_sync_inode :: "nat \<Rightarrow> unit sfs_op" where
  "sfs_sync_inode p s = do {
     sv \<leftarrow> svs s p;
     if sv_dirty sv then
       try_ok (wblock (inode_bytes (sv_i sv)) (sv_ino sv) s) (\<lambda>_ s1.
         Some (Inr (), set_sv p (sv\<lparr>sv_dirty := False\<rparr>) s1))
     else Some (Inr (), s)
   }"

definition sfs_balloc :: "nat sfs_op" where
  "sfs_balloc s = do {
     (result, bm) \<leftarrow> bitmap_alloc (sfs_freemap s);
     case result of
       Inl e \<Rightarrow> Some (Inl e, s\<lparr>sfs_freemap := bm\<rparr>)
     | Inr diskblock \<Rightarrow> do {
         kassert (diskblock < sp_nblocks (sfs_superblk s));
         try_ok (sfs_clearblock diskblock (s\<lparr>sfs_freemap := bm, sfs_freemapdirty := True\<rparr>))
           (\<lambda>_ s1. Some (Inr diskblock, s1))
       }
   }"

definition sfs_bfree :: "nat \<Rightarrow> sfs \<Rightarrow> sfs outcome" where
  "sfs_bfree diskblock s = do {
     bm \<leftarrow> bitmap_unmark (sfs_freemap s) diskblock;
     Some (s\<lparr>sfs_freemap := bm, sfs_freemapdirty := True\<rparr>)
   }"

definition sfs_bused :: "nat \<Rightarrow> sfs \<Rightarrow> bool outcome" where
  "sfs_bused diskblock s = do {
     kassert (diskblock < sp_nblocks (sfs_superblk s));
     w \<leftarrow> bitmap_isset (sfs_freemap s) diskblock;
     Some (w \<noteq> 0)
   }"

text \<open>The check with which \<^verbatim>\<open>sfs_bmap\<close> hands a block back.\<close>

definition hand_back :: "nat \<Rightarrow> nat sfs_op" where
  "hand_back block s = do {
     used \<leftarrow> (if block = 0 then Some True else sfs_bused block s);
     kassert used;
     Some (Inr block, s)
   }"

definition sfs_bmap_direct :: "nat \<Rightarrow> nat \<Rightarrow> bool \<Rightarrow> nat sfs_op" where
  "sfs_bmap_direct p fileblock doalloc s = do {
     sv \<leftarrow> svs s p;
     block \<leftarrow> load_cell (sfi_direct (sv_i sv)) fileblock;
     if block = 0 \<and> doalloc then
       try_ok (sfs_balloc s) (\<lambda>block s1. do {
         s2 \<leftarrow> set_inode p ((sv_i sv)\<lparr>sfi_direct := (sfi_direct (sv_i sv))[fileblock := block]\<rparr>) s1;
         hand_back block s2
       })
     else hand_back block s
   }"

text \<open>From the point where the indirect block number \<open>idblock\<close> and its contents \<open>idbuf\<close> are known.\<close>

definition sfs_bmap_entry :: "nat \<Rightarrow> nat \<Rightarrow> byte list \<Rightarrow> bool \<Rightarrow> nat sfs_op" where
  "sfs_bmap_entry idblock idoff idbytes doalloc s = do {
     let idbuf = bytes_words SFS_DBPERIDB idbytes;
     block \<leftarrow> load_cell idbuf idoff;
     if block = 0 \<and> doalloc then
       try_ok (sfs_balloc s) (\<lambda>block s1.
         try_ok (wblock (words_bytes (idbuf[idoff := block])) idblock s1) (\<lambda>_ s2.
           hand_back block s2))
     else hand_back block s
   }"

definition sfs_bmap :: "nat \<Rightarrow> nat \<Rightarrow> bool \<Rightarrow> nat sfs_op" where
  "sfs_bmap p fileblock doalloc s =
     (if fileblock < SFS_NDIRECT then sfs_bmap_direct p fileblock doalloc s
      else do {
        sv \<leftarrow> svs s p;
        let fb = fileblock - SFS_NDIRECT;
        let idnum = fb div SFS_DBPERIDB;
        let idoff = fb mod SFS_DBPERIDB;
        if idnum > 0 then Some (Inl EINVAL, s)
        else
          let idblock = sfi_indirect (sv_i sv) in
          if idblock = 0 \<and> \<not> doalloc then Some (Inr 0, s)
          else if idblock = 0 then
            try_ok (sfs_balloc s) (\<lambda>idblock s1. do {
              s2 \<leftarrow> set_inode p ((sv_i sv)\<lparr>sfi_indirect := idblock\<rparr>) s1;
              sfs_bmap_entry idblock idoff (replicate SFS_BLOCKSIZE 0) doalloc s2
            })
          else
            try_ok (rblock idblock s) (\<lambda>idbytes s1. sfs_bmap_entry idblock idoff idbytes doalloc s1)
      })"

section \<open>File input and output\<close>

text \<open>From here on the state includes the \<^verbatim>\<open>uio\<close>.\<close>

type_synonym 'a sfs_uio_op = "uio \<times> sfs \<Rightarrow> ((errno + 'a) \<times> uio \<times> sfs) outcome"

definition with_uio :: "uio \<Rightarrow> ((errno + 'a) \<times> sfs) outcome \<Rightarrow> ((errno + 'a) \<times> uio \<times> sfs) outcome" where
  "with_uio u r = (case r of None \<Rightarrow> None | Some (x, s) \<Rightarrow> Some (x, u, s))"

definition fileblock_of :: "uio \<Rightarrow> nat" where
  "fileblock_of u = nat ((uio_offset u sdiv int SFS_BLOCKSIZE) mod 2 ^ 32)"

definition sfs_partialio :: "nat \<Rightarrow> nat \<Rightarrow> nat \<Rightarrow> unit sfs_uio_op" where
  "sfs_partialio p skipstart len us = (case us of (u, s) \<Rightarrow> do {
     let doalloc = (uio_rw u = UIO_WRITE);
     kassert ((skipstart + len) mod 2 ^ 32 \<le> SFS_BLOCKSIZE);
     try_ok (with_uio u (sfs_bmap p (fileblock_of u) doalloc s)) (\<lambda>diskblock (u, s). 
       try_ok (if diskblock = 0 then do {
                 kassert (uio_rw u = UIO_READ);
                 Some (Inr (replicate SFS_BLOCKSIZE 0), u, s)
               }
               else with_uio u (rblock diskblock s)) (\<lambda>iobuf (u, s).
         try_ok (case uiomove iobuf skipstart len u of
                   None \<Rightarrow> None
                 | Some (Inl e, _, u1) \<Rightarrow> Some (Inl e, u1, s)
                 | Some (Inr _, iobuf1, u1) \<Rightarrow> Some (Inr iobuf1, u1, s)) (\<lambda>iobuf (u, s).
           if uio_rw u = UIO_WRITE then with_uio u (wblock iobuf diskblock s) else Some (Inr (), u, s))))
   })"

definition sfs_blockio :: "nat \<Rightarrow> unit sfs_uio_op" where
  "sfs_blockio p us = (case us of (u, s) \<Rightarrow>
     let doalloc = (uio_rw u = UIO_WRITE) in
     try_ok (with_uio u (sfs_bmap p (fileblock_of u) doalloc s)) (\<lambda>diskblock (u, s).
       if diskblock = 0 then do {
         kassert (uio_rw u = UIO_READ);
         (result, u1) \<leftarrow> uiomovezeros SFS_BLOCKSIZE u;
         Some (result, u1, s)
       }
       else do {
         let saveoff = uio_offset u;
         let diskoff = wrap32 (int (diskblock * SFS_BLOCKSIZE));
         kassert (SFS_BLOCKSIZE \<le> uio_resid u);
         let saveres = uio_resid u;
         let diskres = SFS_BLOCKSIZE;
         (result, u1, lh) \<leftarrow> sfs_rwblock (u\<lparr>uio_offset := diskoff, uio_resid := diskres\<rparr>) (sfs_device s);
         Some (result,
           u1\<lparr>uio_offset := wrap32 ((uio_offset u1 - diskoff) + saveoff),
              uio_resid := nat ((int (uio_resid u1) - int diskres + int saveres) mod 2 ^ 32)\<rparr>,
           s\<lparr>sfs_device := lh\<rparr>)
       }))"

fun sfs_io_blocks :: "nat \<Rightarrow> nat \<Rightarrow> unit sfs_uio_op" where
  "sfs_io_blocks 0 p us = Some (Inr (), us)"
| "sfs_io_blocks (Suc n) p us = try_ok (sfs_blockio p us) (\<lambda>_ us1. sfs_io_blocks n p us1)"

text \<open>The part of \<^verbatim>\<open>sfs_io\<close> up to the label \<^verbatim>\<open>out\<close>, from its end: the last partial block, the whole blocks, the start.\<close>

definition sfs_io_last :: "nat \<Rightarrow> unit sfs_uio_op" where
  "sfs_io_last p us = (case us of (u, s) \<Rightarrow> do {
     kassert (uio_resid u < SFS_BLOCKSIZE);
     if uio_resid u > 0 then sfs_partialio p 0 (uio_resid u) (u, s) else Some (Inr (), u, s)
   })"

definition sfs_io_aligned :: "nat \<Rightarrow> unit sfs_uio_op" where
  "sfs_io_aligned p us = (case us of (u, s) \<Rightarrow>
     if uio_resid u = 0 then Some (Inr (), u, s)
     else do {
       kassert (uio_offset u smod int SFS_BLOCKSIZE = 0);
       let nblocks = uio_resid u div SFS_BLOCKSIZE;
       try_ok (sfs_io_blocks nblocks p (u, s)) (\<lambda>_ us1. sfs_io_last p us1)
     })"

definition sfs_io_body :: "nat \<Rightarrow> unit sfs_uio_op" where
  "sfs_io_body p us = (case us of (u, s) \<Rightarrow>
     let blkoff = nat ((uio_offset u smod int SFS_BLOCKSIZE) mod 2 ^ 32) in
     try_ok (if blkoff \<noteq> 0 then
               (let len0 = nat ((int SFS_BLOCKSIZE - int blkoff) mod 2 ^ 32);
                    len = (if len0 > uio_resid u then uio_resid u else len0)
                in sfs_partialio p blkoff len (u, s))
             else Some (Inr (), u, s)) (\<lambda>_ us1. sfs_io_aligned p us1))"

text \<open>From the label \<^verbatim>\<open>out\<close> on, with the result so far.\<close>

definition sfs_io_out :: "nat \<Rightarrow> nat \<Rightarrow> ((errno + unit) \<times> uio \<times> sfs) \<Rightarrow> ((errno + unit) \<times> uio \<times> sfs) outcome" where
  "sfs_io_out p extraresid r = (case r of (result, u, s) \<Rightarrow> do {
     sv \<leftarrow> svs s p;
     s1 \<leftarrow> (if uio_rw u = UIO_WRITE \<and> uio_offset u > wrap32 (int (sfi_size (sv_i sv)))
            then set_inode p ((sv_i sv)\<lparr>sfi_size := nat (uio_offset u mod 2 ^ 32)\<rparr>) s
            else Some s);
     Some (result, u\<lparr>uio_resid := (uio_resid u + extraresid) mod 2 ^ 32\<rparr>, s1)
   })"

definition sfs_io :: "nat \<Rightarrow> unit sfs_uio_op" where
  "sfs_io p us = (case us of (u, s) \<Rightarrow> do {
     sv \<leftarrow> svs s p;
     let size = wrap32 (int (sfi_size (sv_i sv)));
     let endpos = wrap32 (uio_offset u + int (uio_resid u));
     if uio_rw u = UIO_READ \<and> uio_offset u \<ge> size then Some (Inr (), u, s)
     else do {
       let extraresid = (if uio_rw u = UIO_READ \<and> endpos > size then nat (endpos - size) else 0);
       kassert (extraresid = 0 \<or> uio_resid u > extraresid);
       r \<leftarrow> sfs_io_body p (u\<lparr>uio_resid := uio_resid u - extraresid\<rparr>, s);
       sfs_io_out p extraresid r
     }
   })"

section \<open>Directories\<close>

definition sfs_readdir :: "nat \<Rightarrow> nat \<Rightarrow> sfs_dir sfs_op" where
  "sfs_readdir p slot s =
     (case sfs_io p (mk_kuio (replicate 64 0) 64 (wrap32 (int (slot * 64))) UIO_READ, s) of
        None \<Rightarrow> None
      | Some (Inl e, _, s1) \<Rightarrow> Some (Inl e, s1)
      | Some (Inr _, ku, s1) \<Rightarrow> if uio_resid ku > 0 then None else Some (Inr (dir_of (uio_mem ku)), s1))"

definition sfs_writedir :: "nat \<Rightarrow> sfs_dir \<Rightarrow> nat \<Rightarrow> unit sfs_op" where
  "sfs_writedir p sd slot s =
     (case sfs_io p (mk_kuio (dir_bytes sd) 64 (wrap32 (int (slot * 64))) UIO_WRITE, s) of
        None \<Rightarrow> None
      | Some (Inl e, _, s1) \<Rightarrow> Some (Inl e, s1)
      | Some (Inr _, ku, s1) \<Rightarrow> if uio_resid ku > 0 then None else Some (Inr (), s1))"

definition sfs_dir_nentries :: "nat \<Rightarrow> sfs \<Rightarrow> nat outcome" where
  "sfs_dir_nentries p s = do {
     sv \<leftarrow> svs s p;
     kassert (sfi_type (sv_i sv) = SFS_TYPE_DIR);
     kassert (sfi_size (sv_i sv) mod 64 = 0);
     Some (sfi_size (sv_i sv) div 64)
   }"

text \<open>The name in an entry, cut off at the end of the field.\<close>

definition entry_name :: "sfs_dir \<Rightarrow> byte list" where
  "entry_name sd = takeWhile (\<lambda>b. b \<noteq> 0) ((sfd_name sd)[SFS_NAMELEN - 1 := 0])"

text \<open>
  The loop of \<^verbatim>\<open>sfs_dir_findname\<close>: the inode number and slot of the name if it was found, and the last empty
  slot that was seen, for \<open>n\<close> more slots from slot \<open>i\<close> on.
\<close>

fun findname_loop :: "nat \<Rightarrow> nat \<Rightarrow> nat \<Rightarrow> byte list \<Rightarrow> (nat \<times> nat) option \<Rightarrow> nat option \<Rightarrow> ((nat \<times> nat) option \<times> nat option) sfs_op" where
  "findname_loop 0 i p name found emptyslot s = Some (Inr (found, emptyslot), s)"
| "findname_loop (Suc n) i p name found emptyslot s =
     try_ok (sfs_readdir p i s) (\<lambda>tsd s1.
       if sfd_ino tsd = SFS_NOINO then findname_loop n (Suc i) p name found (Some i) s1
       else if entry_name tsd = name then do {
         kassert (found = None);
         findname_loop n (Suc i) p name (Some (sfd_ino tsd, i)) emptyslot s1
       }
       else findname_loop n (Suc i) p name found emptyslot s1)"

text \<open>The first component is \<open>None\<close> where the source returns \<^verbatim>\<open>ENOENT\<close>.\<close>

definition sfs_dir_findname :: "nat \<Rightarrow> byte list \<Rightarrow> ((nat \<times> nat) option \<times> nat option) sfs_op" where
  "sfs_dir_findname p name s = do {
     nentries \<leftarrow> sfs_dir_nentries p s;
     findname_loop nentries 0 p name None None s
   }"

definition sfs_dir_link :: "nat \<Rightarrow> byte list \<Rightarrow> nat \<Rightarrow> nat sfs_op" where
  "sfs_dir_link p name ino s =
     try_ok (sfs_dir_findname p name s) (\<lambda>(found, emptyslot) s1.
       if found \<noteq> None then Some (Inl EEXIST, s1)
       else if length name + 1 > SFS_NAMELEN then Some (Inl ENAMETOOLONG, s1)
       else do {
         slot \<leftarrow> (case emptyslot of None \<Rightarrow> sfs_dir_nentries p s1 | Some e \<Rightarrow> Some e);
         let sd = \<lparr>sfd_ino = ino, sfd_name = name @ replicate (SFS_NAMELEN - length name) 0\<rparr>;
         try_ok (sfs_writedir p sd slot s1) (\<lambda>_ s2. Some (Inr slot, s2))
       })"

definition sfs_dir_unlink :: "nat \<Rightarrow> nat \<Rightarrow> unit sfs_op" where
  "sfs_dir_unlink p slot s =
     sfs_writedir p \<lparr>sfd_ino = SFS_NOINO, sfd_name = replicate SFS_NAMELEN 0\<rparr> slot s"

section \<open>Loading vnodes\<close>

text \<open>
  The memory that \<^verbatim>\<open>sfs_loadvnode\<close> asks for: the new vnode (its address, if there is memory), its lock,
  and a place in the table.
\<close>

record vmem =
  vm_new :: "nat option"
  vm_lock :: bool
  vm_array :: bool

fun loadvnode_search :: "nat \<Rightarrow> int \<Rightarrow> nat \<Rightarrow> sfs \<Rightarrow> nat option outcome" where
  "loadvnode_search 0 i ino s = Some None"
| "loadvnode_search (Suc n) i ino s = do {
     p \<leftarrow> array_getguy (sfs_vnodes s) i;
     sv \<leftarrow> svs s p;
     used \<leftarrow> sfs_bused (sv_ino sv) s;
     kassert used;
     if sv_ino sv = ino then Some (Some p) else loadvnode_search n (i + 1) ino s
   }"

definition VOP_INCREF :: "nat \<Rightarrow> sfs \<Rightarrow> sfs outcome" where
  "VOP_INCREF p s = do {
     sv \<leftarrow> svs s p;
     Some (set_sv p (vnode_incref sv) s)
   }"

definition choose_ops :: "nat \<Rightarrow> vops outcome" where
  "choose_ops ty = (if ty = SFS_TYPE_FILE then Some sfs_fileops else if ty = SFS_TYPE_DIR then Some sfs_dirops else None)"

definition sfs_loadvnode :: "vmem \<Rightarrow> nat \<Rightarrow> nat \<Rightarrow> nat sfs_op" where
  "sfs_loadvnode m ino forcetype s = do {
     found \<leftarrow> loadvnode_search (nat (array_getnum (sfs_vnodes s))) 0 ino s;
     case found of
       Some p \<Rightarrow> do {
         kassert (forcetype = SFS_TYPE_INVAL);
         s1 \<leftarrow> VOP_INCREF p s;
         Some (Inr p, s1)
       }
     | None \<Rightarrow>
         (case vm_new m of
            None \<Rightarrow> Some (Inl ENOMEM, s)
          | Some p \<Rightarrow> do {
              used \<leftarrow> sfs_bused ino s;
              kassert used;
              try_ok (rblock ino s) (\<lambda>bytes s1. do {
                let i = inode_of bytes;
                kassert (forcetype = SFS_TYPE_INVAL \<or> sfi_type i = SFS_TYPE_INVAL);
                let i1 = (if forcetype \<noteq> SFS_TYPE_INVAL then i\<lparr>sfi_type := forcetype\<rparr> else i);
                ops \<leftarrow> choose_ops (sfi_type i1);
                case vnode_init (vm_lock m) ops of
                  Inl e \<Rightarrow> Some (Inl e, s1)
                | Inr v \<Rightarrow> do {
                    (result, arr) \<leftarrow> array_add (vm_array m) (sfs_vnodes s1) p;
                    case result of
                      Inl e \<Rightarrow> Some (Inl e, s1\<lparr>sfs_vnodes := arr\<rparr>)
                    | Inr _ \<Rightarrow> Some (Inr p, set_sv p (vnode.extend v
                        \<lparr>sv_i = i1, sv_ino = ino, sv_dirty = (forcetype \<noteq> SFS_TYPE_INVAL)\<rparr>)
                        (s1\<lparr>sfs_vnodes := arr\<rparr>))
                  }
              })
            })
   }"

definition sfs_lookonce :: "vmem \<Rightarrow> nat \<Rightarrow> byte list \<Rightarrow> (nat \<times> nat) sfs_op" where
  "sfs_lookonce m p name s =
     try_ok (sfs_dir_findname p name s) (\<lambda>(found, _) s1.
       case found of
         None \<Rightarrow> Some (Inl ENOENT, s1)
       | Some (ino, slot) \<Rightarrow>
           try_ok (sfs_loadvnode m ino SFS_TYPE_INVAL s1) (\<lambda>q s2. do {
             sv \<leftarrow> svs s2 q;
             kassert (sfi_linkcount (sv_i sv) \<noteq> 0);
             Some (Inr (q, slot), s2)
           }))"

definition sfs_makeobj :: "vmem \<Rightarrow> nat \<Rightarrow> nat sfs_op" where
  "sfs_makeobj m ty s = try_ok (sfs_balloc s) (\<lambda>ino s1. sfs_loadvnode m ino ty s1)"

section \<open>Vnode operations\<close>

definition O_ACCMODE :: int where "O_ACCMODE = 3"
definition O_RDONLY :: int where "O_RDONLY = 0"
definition O_APPEND :: int where "O_APPEND = 32"

unbundle bit_operations_syntax

definition sfs_open :: "int \<Rightarrow> errno + unit" where
  "sfs_open openflags = (if openflags AND O_APPEND \<noteq> 0 then Inl EUNIMP else Inr ())"

definition sfs_opendir :: "int \<Rightarrow> errno + unit" where
  "sfs_opendir openflags =
     (if openflags AND O_ACCMODE \<noteq> O_RDONLY then Inl EISDIR
      else if openflags AND O_APPEND \<noteq> 0 then Inl EISDIR
      else Inr ())"

definition sfs_fsync :: "nat \<Rightarrow> unit sfs_op" where
  "sfs_fsync p s = sfs_sync_inode p s"

text \<open>The two tables of operations: the entries that are only an error.\<close>

definition sfs_notdir :: errno where "sfs_notdir = ENOTDIR"
definition sfs_isdir :: errno where "sfs_isdir = EISDIR"
definition sfs_unimp :: errno where "sfs_unimp = EUNIMP"

definition fileops_stub :: "string \<Rightarrow> errno option" where
  "fileops_stub opstr =
     (if opstr \<in> {''readlink'', ''getdirentry'', ''namefile'', ''creat'', ''symlink'', ''mkdir'', ''link'', ''remove'', ''rmdir'',
        ''rename'', ''lookup'', ''lookparent''} then Some sfs_notdir
      else None)"

definition dirops_stub :: "string \<Rightarrow> errno option" where
  "dirops_stub opstr =
     (if opstr \<in> {''read'', ''readlink'', ''write'', ''mmap'', ''truncate''} then Some sfs_isdir
      else if opstr \<in> {''getdirentry'', ''tryseek'', ''symlink'', ''mkdir'', ''rmdir''} then Some sfs_unimp
      else None)"

definition vop_stub :: "vops \<Rightarrow> string \<Rightarrow> errno option" where
  "vop_stub ops opstr = (case ops of sfs_fileops \<Rightarrow> fileops_stub opstr | sfs_dirops \<Rightarrow> dirops_stub opstr)"

text \<open>A call through the table, with the operation that both tables have, or that the one without a stub has.\<close>

definition VOP :: "string \<Rightarrow> nat \<Rightarrow> 'a sfs_op \<Rightarrow> 'a sfs_op" where
  "VOP opstr p f s = do {
     sv \<leftarrow> svs s p;
     vnode_check opstr sv;
     case vop_stub (vn_ops sv) opstr of None \<Rightarrow> f s | Some e \<Rightarrow> Some (Inl e, s)
   }"

definition VOP_FSYNC :: "nat \<Rightarrow> unit sfs_op" where
  "VOP_FSYNC p = VOP ''fsync'' p (sfs_fsync p)"

definition sfs_close :: "nat \<Rightarrow> unit sfs_op" where
  "sfs_close p s = VOP_FSYNC p s"

text \<open>The loops of \<^verbatim>\<open>sfs_truncate\<close>: over the direct blocks, and over the entries of the indirect block.\<close>

fun truncate_direct :: "nat \<Rightarrow> nat \<Rightarrow> nat \<Rightarrow> nat \<Rightarrow> sfs \<Rightarrow> sfs outcome" where
  "truncate_direct 0 i p blocklen s = Some s"
| "truncate_direct (Suc n) i p blocklen s = do {
     sv \<leftarrow> svs s p;
     block \<leftarrow> load_cell (sfi_direct (sv_i sv)) i;
     if i \<ge> blocklen \<and> block \<noteq> 0 then do {
       s1 \<leftarrow> sfs_bfree block s;
       s2 \<leftarrow> set_inode p ((sv_i sv)\<lparr>sfi_direct := (sfi_direct (sv_i sv))[i := 0]\<rparr>) s1;
       truncate_direct n (Suc i) p blocklen s2
     }
     else truncate_direct n (Suc i) p blocklen s
   }"

text \<open>The result has the buffer, \<^verbatim>\<open>hasnonzero\<close> and \<^verbatim>\<open>iddirty\<close>.\<close>

fun truncate_indirect :: "nat \<Rightarrow> nat \<Rightarrow> nat \<Rightarrow> nat list \<Rightarrow> bool \<Rightarrow> bool \<Rightarrow> sfs \<Rightarrow> (nat list \<times> bool \<times> bool \<times> sfs) outcome" where
  "truncate_indirect 0 j blocklen idbuf hasnonzero iddirty s = Some (idbuf, hasnonzero, iddirty, s)"
| "truncate_indirect (Suc n) j blocklen idbuf hasnonzero iddirty s = do {
     b \<leftarrow> load_cell idbuf j;
     if blocklen < SFS_NDIRECT + j \<and> b \<noteq> 0 then do {
       s1 \<leftarrow> sfs_bfree b s;
       truncate_indirect n (Suc j) blocklen (idbuf[j := 0]) hasnonzero True s1
     }
     else truncate_indirect n (Suc j) blocklen idbuf (hasnonzero \<or> b \<noteq> 0) iddirty s
   }"

definition sfs_truncate :: "nat \<Rightarrow> nat \<Rightarrow> unit sfs_op" where
  "sfs_truncate p len s = do {
     let blocklen = divroundup len SFS_BLOCKSIZE;
     s1 \<leftarrow> truncate_direct SFS_NDIRECT 0 p blocklen s;
     sv \<leftarrow> svs s1 p;
     let idblock = sfi_indirect (sv_i sv);
     let highblock = SFS_NDIRECT + SFS_DBPERIDB - 1;
     try_ok (if blocklen < highblock \<and> idblock \<noteq> 0 then
               try_ok (rblock idblock s1) (\<lambda>idbytes s2. do {
                 (idbuf, hasnonzero, iddirty, s3) \<leftarrow>
                   truncate_indirect SFS_DBPERIDB 0 blocklen (bytes_words SFS_DBPERIDB idbytes) False False s2;
                 if \<not> hasnonzero then do {
                   s4 \<leftarrow> sfs_bfree idblock s3;
                   s5 \<leftarrow> set_inode p ((sv_i sv)\<lparr>sfi_indirect := 0\<rparr>) s4;
                   Some (Inr (), s5)
                 }
                 else if iddirty then wblock (words_bytes idbuf) idblock s3
                 else Some (Inr (), s3)
               })
             else Some (Inr (), s1)) (\<lambda>_ s6. do {
       sv6 \<leftarrow> svs s6 p;
       s7 \<leftarrow> set_inode p ((sv_i sv6)\<lparr>sfi_size := len\<rparr>) s6;
       Some (Inr (), s7)
     })
   }"

definition VOP_TRUNCATE :: "nat \<Rightarrow> nat \<Rightarrow> unit sfs_op" where
  "VOP_TRUNCATE p len = VOP ''truncate'' p (sfs_truncate p len)"

fun vnode_index :: "nat \<Rightarrow> int \<Rightarrow> nat \<Rightarrow> nat karray \<Rightarrow> int outcome" where
  "vnode_index 0 i p a = None"
| "vnode_index (Suc n) i p a = do {
     q \<leftarrow> array_getguy a i;
     if q = p then Some i else vnode_index n (i + 1) p a
   }"

definition sfs_reclaim :: "nat \<Rightarrow> unit sfs_op" where
  "sfs_reclaim p s = do {
     v \<leftarrow> svs s p;
     if vn_refcount v \<noteq> 1 then do {
       kassert (vn_refcount v > 1);
       Some (Inl EBUSY, set_sv p (v\<lparr>vn_refcount := vn_refcount v - 1\<rparr>) s)
     }
     else
       try_ok (if sfi_linkcount (sv_i v) = 0 then VOP_TRUNCATE p 0 s else Some (Inr (), s)) (\<lambda>_ s1.
         try_ok (sfs_sync_inode p s1) (\<lambda>_ s2. do {
           v2 \<leftarrow> svs s2 p;
           s3 \<leftarrow> (if sfi_linkcount (sv_i v2) = 0 then sfs_bfree (sv_ino v2) s2 else Some s2);
           ix \<leftarrow> vnode_index (nat (array_getnum (sfs_vnodes s3))) 0 p (sfs_vnodes s3);
           arr \<leftarrow> array_remove (sfs_vnodes s3) ix;
           v3 \<leftarrow> svs s3 p;
           vnode_kill v3;
           Some (Inr (), s3\<lparr>sfs_vnodes := arr, svs := (svs s3)(p := None)\<rparr>)
         }))
   }"

text \<open>\<^verbatim>\<open>VOP_RECLAIM\<close> is \<^verbatim>\<open>sfs_reclaim\<close> in both tables; its error is only printed.\<close>

definition VOP_DECREF :: "nat \<Rightarrow> sfs \<Rightarrow> sfs outcome" where
  "VOP_DECREF p s = do {
     v \<leftarrow> svs s p;
     (actually_do_it, v1) \<leftarrow> vnode_decref v;
     if actually_do_it then do {
       vnode_check ''reclaim'' v1;
       (result, s1) \<leftarrow> sfs_reclaim p (set_sv p v1 s);
       Some s1
     }
     else Some (set_sv p v1 s)
   }"

definition sfs_read :: "nat \<Rightarrow> unit sfs_uio_op" where
  "sfs_read p us = do {
     kassert (uio_rw (fst us) = UIO_READ);
     sfs_io p us
   }"

definition sfs_write :: "nat \<Rightarrow> unit sfs_uio_op" where
  "sfs_write p us = do {
     kassert (uio_rw (fst us) = UIO_WRITE);
     sfs_io p us
   }"

definition sfs_ioctl :: "errno + unit" where
  "sfs_ioctl = Inl EINVAL"

definition S_IFREG :: nat where "S_IFREG = 4096"
definition S_IFDIR :: nat where "S_IFDIR = 8192"

definition sfs_gettype :: "nat \<Rightarrow> sfs \<Rightarrow> nat outcome" where
  "sfs_gettype p s = do {
     sv \<leftarrow> svs s p;
     if sfi_type (sv_i sv) = SFS_TYPE_FILE then Some S_IFREG
     else if sfi_type (sv_i sv) = SFS_TYPE_DIR then Some S_IFDIR
     else None
   }"

record sfs_statbuf =
  st_mode :: nat
  st_nlink :: nat
  st_size :: int
  st_blocks :: nat

definition sfs_stat :: "nat \<Rightarrow> sfs \<Rightarrow> sfs_statbuf outcome" where
  "sfs_stat p s = do {
     sv \<leftarrow> svs s p;
     vnode_check ''gettype'' sv;
     mode \<leftarrow> sfs_gettype p s;
     Some \<lparr>st_mode = mode, st_nlink = 0, st_size = wrap32 (int (sfi_size (sv_i sv))), st_blocks = 0\<rparr>
   }"

definition sfs_tryseek :: "int \<Rightarrow> errno + unit" where
  "sfs_tryseek pos = (if pos < 0 then Inl EINVAL else Inr ())"

definition sfs_mmap :: "errno + unit" where
  "sfs_mmap = Inl EUNIMP"

definition sfs_namefile :: "nat \<Rightarrow> sfs \<Rightarrow> unit outcome" where
  "sfs_namefile p s = do {
     sv \<leftarrow> svs s p;
     kassert (sv_ino sv = SFS_ROOT_LOCATION)
   }"

definition sfs_creat :: "vmem \<Rightarrow> nat \<Rightarrow> byte list \<Rightarrow> bool \<Rightarrow> nat sfs_op" where
  "sfs_creat m p name excl s =
     try_ok (sfs_dir_findname p name s) (\<lambda>(found, _) s1.
       case found of
         Some (ino, _) \<Rightarrow>
           if excl then Some (Inl EEXIST, s1) else sfs_loadvnode m ino SFS_TYPE_INVAL s1
       | None \<Rightarrow>
           try_ok (sfs_makeobj m SFS_TYPE_FILE s1) (\<lambda>newguy s2. do {
             nv \<leftarrow> svs s2 newguy;
             (result, s3) \<leftarrow> sfs_dir_link p name (sv_ino nv) s2;
             case result of
               Inl e \<Rightarrow> do {
                 s4 \<leftarrow> VOP_DECREF newguy s3;
                 Some (Inl e, s4)
               }
             | Inr _ \<Rightarrow> do {
                 nv3 \<leftarrow> svs s3 newguy;
                 s4 \<leftarrow> set_inode newguy ((sv_i nv3)\<lparr>sfi_linkcount := (sfi_linkcount (sv_i nv3) + 1) mod 2 ^ 16\<rparr>) s3;
                 Some (Inr newguy, s4)
               }
           }))"

definition sfs_link :: "nat \<Rightarrow> byte list \<Rightarrow> nat \<Rightarrow> unit sfs_op" where
  "sfs_link dir name file s = do {
     f \<leftarrow> svs s file;
     try_ok (sfs_dir_link dir name (sv_ino f) s) (\<lambda>_ s1. do {
       f1 \<leftarrow> svs s1 file;
       s2 \<leftarrow> set_inode file ((sv_i f1)\<lparr>sfi_linkcount := (sfi_linkcount (sv_i f1) + 1) mod 2 ^ 16\<rparr>) s1;
       Some (Inr (), s2)
     })
   }"

text \<open>Dropping a link: \<^verbatim>\<open>assert(linkcount > 0); linkcount--; sv_dirty = 1\<close>.\<close>

definition drop_link :: "nat \<Rightarrow> sfs \<Rightarrow> sfs outcome" where
  "drop_link q s = do {
     v \<leftarrow> svs s q;
     kassert (sfi_linkcount (sv_i v) > 0);
     set_inode q ((sv_i v)\<lparr>sfi_linkcount := sfi_linkcount (sv_i v) - 1\<rparr>) s
   }"

definition sfs_remove :: "vmem \<Rightarrow> nat \<Rightarrow> byte list \<Rightarrow> unit sfs_op" where
  "sfs_remove m dir name s =
     try_ok (sfs_lookonce m dir name s) (\<lambda>(victim, slot) s1. do {
       (result, s2) \<leftarrow> sfs_dir_unlink dir slot s1;
       s3 \<leftarrow> (case result of Inl _ \<Rightarrow> Some s2 | Inr _ \<Rightarrow> drop_link victim s2);
       s4 \<leftarrow> VOP_DECREF victim s3;
       Some (result, s4)
     })"

text \<open>The recovery from the label \<^verbatim>\<open>puke_harder\<close> on; the decrement there does not mark the inode dirty.\<close>

definition rename_recover :: "nat \<Rightarrow> nat \<Rightarrow> nat \<Rightarrow> errno \<Rightarrow> unit sfs_op" where
  "rename_recover d g1 slot2 e s = do {
     (result2, s1) \<leftarrow> sfs_dir_unlink d slot2 s;
     case result2 of
       Inl _ \<Rightarrow> None
     | Inr _ \<Rightarrow> do {
         v \<leftarrow> svs s1 g1;
         let s2 = set_sv g1 (v\<lparr>sv_i := (sv_i v)\<lparr>sfi_linkcount := nat ((int (sfi_linkcount (sv_i v)) - 1) mod 2 ^ 16)\<rparr>\<rparr>) s1;
         s3 \<leftarrow> VOP_DECREF g1 s2;
         Some (Inl e, s3)
       }
   }"

definition sfs_rename :: "vmem \<Rightarrow> nat \<Rightarrow> byte list \<Rightarrow> nat \<Rightarrow> byte list \<Rightarrow> unit sfs_op" where
  "sfs_rename m d1 n1 d2 n2 s = do {
     kassert (d1 = d2);
     sv \<leftarrow> svs s d1;
     kassert (sv_ino sv = SFS_ROOT_LOCATION);
     try_ok (sfs_lookonce m d1 n1 s) (\<lambda>(g1, slot1) s1. do {
       v \<leftarrow> svs s1 g1;
       kassert (sfi_type (sv_i v) = SFS_TYPE_FILE);
       (result, s2) \<leftarrow> sfs_dir_link d1 n2 (sv_ino v) s1;
       case result of
         Inl e \<Rightarrow> do {
           s3 \<leftarrow> VOP_DECREF g1 s2;
           Some (Inl e, s3)
         }
       | Inr slot2 \<Rightarrow> do {
           v2 \<leftarrow> svs s2 g1;
           s3 \<leftarrow> set_inode g1 ((sv_i v2)\<lparr>sfi_linkcount := (sfi_linkcount (sv_i v2) + 1) mod 2 ^ 16\<rparr>) s2;
           (result, s4) \<leftarrow> sfs_dir_unlink d1 slot1 s3;
           case result of
             Inl e \<Rightarrow> rename_recover d1 g1 slot2 e s4
           | Inr _ \<Rightarrow> do {
               s5 \<leftarrow> drop_link g1 s4;
               s6 \<leftarrow> VOP_DECREF g1 s5;
               Some (Inr (), s6)
             }
         }
     })
   }"

definition sfs_lookparent :: "nat \<Rightarrow> byte list \<Rightarrow> nat \<Rightarrow> (nat \<times> byte list) sfs_op" where
  "sfs_lookparent p path buflen s = do {
     sv \<leftarrow> svs s p;
     if sfi_type (sv_i sv) \<noteq> SFS_TYPE_DIR then Some (Inl ENOTDIR, s)
     else if length path + 1 > buflen then Some (Inl ENAMETOOLONG, s)
     else do {
       s1 \<leftarrow> VOP_INCREF p s;
       Some (Inr (p, path), s1)
     }
   }"

definition sfs_lookup :: "vmem \<Rightarrow> nat \<Rightarrow> byte list \<Rightarrow> nat sfs_op" where
  "sfs_lookup m p path s = do {
     sv \<leftarrow> svs s p;
     if sfi_type (sv_i sv) \<noteq> SFS_TYPE_DIR then Some (Inl ENOTDIR, s)
     else try_ok (sfs_lookonce m p path s) (\<lambda>(final, _) s1. Some (Inr final, s1))
   }"

text \<open>The calls that the layer above makes.\<close>

definition VOP_READ :: "nat \<Rightarrow> unit sfs_uio_op" where
  "VOP_READ p us = (case us of (u, s) \<Rightarrow> do {
     sv \<leftarrow> svs s p;
     vnode_check ''read'' sv;
     case vop_stub (vn_ops sv) ''read'' of None \<Rightarrow> sfs_read p (u, s) | Some e \<Rightarrow> Some (Inl e, u, s)
   })"

definition VOP_WRITE :: "nat \<Rightarrow> unit sfs_uio_op" where
  "VOP_WRITE p us = (case us of (u, s) \<Rightarrow> do {
     sv \<leftarrow> svs s p;
     vnode_check ''write'' sv;
     case vop_stub (vn_ops sv) ''write'' of None \<Rightarrow> sfs_write p (u, s) | Some e \<Rightarrow> Some (Inl e, u, s)
   })"

definition VOP_CREAT :: "vmem \<Rightarrow> nat \<Rightarrow> byte list \<Rightarrow> bool \<Rightarrow> nat sfs_op" where
  "VOP_CREAT m p name excl = VOP ''creat'' p (sfs_creat m p name excl)"

definition VOP_LINK :: "nat \<Rightarrow> byte list \<Rightarrow> nat \<Rightarrow> unit sfs_op" where
  "VOP_LINK p name f = VOP ''link'' p (sfs_link p name f)"

definition VOP_REMOVE :: "vmem \<Rightarrow> nat \<Rightarrow> byte list \<Rightarrow> unit sfs_op" where
  "VOP_REMOVE m p name = VOP ''remove'' p (sfs_remove m p name)"

definition VOP_LOOKUP :: "vmem \<Rightarrow> nat \<Rightarrow> byte list \<Rightarrow> nat sfs_op" where
  "VOP_LOOKUP m p path = VOP ''lookup'' p (sfs_lookup m p path)"

definition sfs_getroot :: "vmem \<Rightarrow> sfs \<Rightarrow> (nat \<times> sfs) outcome" where
  "sfs_getroot m s =
     (case sfs_loadvnode m SFS_ROOT_LOCATION SFS_TYPE_INVAL s of
        Some (Inr p, s1) \<Rightarrow> Some (p, s1)
      | _ \<Rightarrow> None)"

section \<open>The whole file system\<close>

text \<open>\<^verbatim>\<open>sfs_mapio\<close>: the bitmap from and to its blocks, for \<open>n\<close> more blocks from block \<open>j\<close> of it on.\<close>

fun mapio_read :: "nat \<Rightarrow> nat \<Rightarrow> unit sfs_op" where
  "mapio_read 0 j s = Some (Inr (), s)"
| "mapio_read (Suc n) j s =
     try_ok (rblock (SFS_MAP_LOCATION + j) s) (\<lambda>data s1. do {
       v \<leftarrow> move_bytes data 0 (bm_v (sfs_freemap s1)) (j * SFS_BLOCKSIZE) SFS_BLOCKSIZE;
       mapio_read n (Suc j) (s1\<lparr>sfs_freemap := (sfs_freemap s1)\<lparr>bm_v := v\<rparr>\<rparr>)
     })"

fun mapio_write :: "nat \<Rightarrow> nat \<Rightarrow> unit sfs_op" where
  "mapio_write 0 j s = Some (Inr (), s)"
| "mapio_write (Suc n) j s = do {
     let bits = bitmap_getdata (sfs_freemap s);
     kassert (j * SFS_BLOCKSIZE + SFS_BLOCKSIZE \<le> length bits);
     try_ok (wblock (take SFS_BLOCKSIZE (drop (j * SFS_BLOCKSIZE) bits)) (SFS_MAP_LOCATION + j) s)
       (\<lambda>_ s1. mapio_write n (Suc j) s1)
   }"

definition sfs_mapio :: "uio_rw \<Rightarrow> unit sfs_op" where
  "sfs_mapio rw s =
     (let mapsize = SFS_BITBLOCKS (sp_nblocks (sfs_superblk s)) in
      case rw of UIO_READ \<Rightarrow> mapio_read mapsize 0 s | UIO_WRITE \<Rightarrow> mapio_write mapsize 0 s)"

text \<open>The result of \<^verbatim>\<open>VOP_FSYNC\<close> is not looked at.\<close>

fun sync_vnodes :: "nat \<Rightarrow> int \<Rightarrow> sfs \<Rightarrow> sfs outcome" where
  "sync_vnodes 0 i s = Some s"
| "sync_vnodes (Suc n) i s = do {
     p \<leftarrow> array_getguy (sfs_vnodes s) i;
     (_, s1) \<leftarrow> VOP_FSYNC p s;
     sync_vnodes n (i + 1) s1
   }"

definition sfs_sync :: "unit sfs_op" where
  "sfs_sync s = do {
     s1 \<leftarrow> sync_vnodes (nat (array_getnum (sfs_vnodes s))) 0 s;
     try_ok (if sfs_freemapdirty s1 then
               try_ok (sfs_mapio UIO_WRITE s1) (\<lambda>_ s2. Some (Inr (), s2\<lparr>sfs_freemapdirty := False\<rparr>))
             else Some (Inr (), s1)) (\<lambda>_ s3.
       if sfs_superdirty s3 then
         try_ok (wblock (super_bytes (sfs_superblk s3)) SFS_SB_LOCATION s3) (\<lambda>_ s4.
           Some (Inr (), s4\<lparr>sfs_superdirty := False\<rparr>))
       else Some (Inr (), s3))
   }"

definition sfs_getvolname :: "sfs \<Rightarrow> byte list" where
  "sfs_getvolname s = takeWhile (\<lambda>b. b \<noteq> 0) (sp_volname (sfs_superblk s))"

text \<open>The result is the disk, which goes on existing.\<close>

definition sfs_unmount :: "sfs \<Rightarrow> (errno + lhd) outcome" where
  "sfs_unmount s =
     (if array_getnum (sfs_vnodes s) > 0 then Some (Inl EBUSY)
      else do {
        kassert (\<not> sfs_superdirty s);
        kassert (\<not> sfs_freemapdirty s);
        Some (Inr (sfs_device s))
      })"

text \<open>
  \<^verbatim>\<open>sfs_domount\<close> on a disk, with the memory for the structure, the table, and the two parts of the bitmap.
  The result has the disk also where the mount fails.
\<close>

definition sfs_domount :: "bool \<Rightarrow> bool \<Rightarrow> bool \<Rightarrow> bool \<Rightarrow> lhd \<Rightarrow> ((errno + sfs) \<times> lhd) outcome" where
  "sfs_domount fs_ok arr_ok bm_ok words_ok lh =
     (if LHD_SECTSIZE \<noteq> SFS_BLOCKSIZE then Some (Inl ENXIO, lh)
      else if \<not> fs_ok then Some (Inl ENOMEM, lh)
      else case array_create arr_ok of
          None \<Rightarrow> Some (Inl ENOMEM, lh)
        | Some arr \<Rightarrow> do {
            (result, data, lh1) \<leftarrow> sfs_rblock (replicate SFS_BLOCKSIZE 0) SFS_SB_LOCATION lh;
            case result of
              Inl e \<Rightarrow> Some (Inl e, lh1)
            | Inr _ \<Rightarrow>
                let sp = super_of data in
                if sp_magic sp \<noteq> SFS_MAGIC then Some (Inl EINVAL, lh1)
                else do {
                  let sp1 = sp\<lparr>sp_volname := (sp_volname sp)[SFS_VOLNAME_SIZE - 1 := 0]\<rparr>;
                  bm \<leftarrow> bitmap_create bm_ok words_ok (SFS_BITMAPSIZE (sp_nblocks sp1));
                  case bm of
                    None \<Rightarrow> Some (Inl ENOMEM, lh1)
                  | Some b \<Rightarrow> do {
                      (result, s) \<leftarrow> sfs_mapio UIO_READ \<lparr>sfs_superblk = sp1, sfs_superdirty = False, sfs_device = lh1,
                        sfs_vnodes = arr, sfs_freemap = b, sfs_freemapdirty = False, svs = Map.empty\<rparr>;
                      case result of
                        Inl e \<Rightarrow> Some (Inl e, sfs_device s)
                      | Inr _ \<Rightarrow> Some (Inr s, sfs_device s)
                    }
                }
          })"

end
