(* ===== verification/Sfs_Inv.thy ===== *)
theory Sfs_Inv
  imports Sfs
begin

text \<open>
  What the operations of SFS do to the contents of files, on a disk without errors.  The abstraction of an
  inode is its block map \<open>bmap\<close> and the bytes \<open>fbyte\<close> behind it.  The relation \<open>wrote\<close> says that a file got
  new contents while every block in use that is not its own, and every other vnode in memory, stayed as it
  was.
\<close>

section \<open>Abstraction\<close>

definition blk :: "sfs \<Rightarrow> nat \<Rightarrow> byte list" where
  "blk s b = lh_sectors (sfs_device s) ! b"

definition usd :: "sfs \<Rightarrow> nat set" where
  "usd s = bitmap_used (sfs_freemap s)"

abbreviation nblks :: "sfs \<Rightarrow> nat" where
  "nblks s \<equiv> sp_nblocks (sfs_superblk s)"

definition sfs_ok :: "sfs \<Rightarrow> bool" where
  "sfs_ok s \<longleftrightarrow> disk_good (sfs_device s) \<and> bitmap_ok (sfs_freemap s) \<and> nblks s \<le> nbits (sfs_freemap s) \<and>
     nblks s \<le> d_blocks (sfs_device s) \<and> {nblks s..<nbits (sfs_freemap s)} \<subseteq> usd s \<and> 0 \<in> usd s"

definition SFS_MAXBLOCK :: nat where
  "SFS_MAXBLOCK = SFS_NDIRECT + SFS_DBPERIDB"

definition id_words :: "sfs \<Rightarrow> sfs_inode \<Rightarrow> nat list" where
  "id_words s i = (if sfi_indirect i = 0 then replicate SFS_DBPERIDB 0 else bytes_words SFS_DBPERIDB (blk s (sfi_indirect i)))"

definition bmap :: "sfs \<Rightarrow> sfs_inode \<Rightarrow> nat \<Rightarrow> nat" where
  "bmap s i fb = (if fb < SFS_NDIRECT then sfi_direct i ! fb else id_words s i ! (fb - SFS_NDIRECT))"

definition fbyte :: "sfs \<Rightarrow> sfs_inode \<Rightarrow> nat \<Rightarrow> byte" where
  "fbyte s i k = (let b = bmap s i (k div 512) in if b = 0 then 0 else blk s b ! (k mod 512))"

definition inode_blocks :: "sfs \<Rightarrow> sfs_inode \<Rightarrow> nat set" where
  "inode_blocks s i = ({sfi_indirect i} \<union> bmap s i ` {..<SFS_MAXBLOCK}) - {0}"

text \<open>The blocks of an inode are in use, and no two of its pointers are the same block.\<close>

definition inode_ok :: "sfs \<Rightarrow> sfs_inode \<Rightarrow> bool" where
  "inode_ok s i \<longleftrightarrow> inode_fits i \<and> inode_blocks s i \<subseteq> usd s \<inter> {..<nblks s} \<and>
     (\<forall>j < SFS_MAXBLOCK. bmap s i j \<noteq> 0 \<longrightarrow> bmap s i j \<noteq> sfi_indirect i) \<and>
     (\<forall>j < SFS_MAXBLOCK. \<forall>k < SFS_MAXBLOCK. bmap s i j \<noteq> 0 \<longrightarrow> bmap s i j = bmap s i k \<longrightarrow> j = k)"

lemmas sfs_sizes = SFS_NDIRECT_def SFS_DBPERIDB_def SFS_MAXBLOCK_def SFS_BLOCKSIZE_def

lemma length_id_words [simp]: "length (id_words s i) = SFS_DBPERIDB"
  by (simp add: id_words_def)

lemma sfs_okD:
  assumes "sfs_ok s"
  shows "disk_good (sfs_device s)" "bitmap_ok (sfs_freemap s)" "b < nblks s \<Longrightarrow> b < nbits (sfs_freemap s)"
    "b < nblks s \<Longrightarrow> b < d_blocks (sfs_device s)" "0 \<in> usd s" "b < nbits (sfs_freemap s) \<Longrightarrow> b \<notin> usd s \<Longrightarrow> b < nblks s"
proof -
  show "b < nblks s" if "b < nbits (sfs_freemap s)" "b \<notin> usd s"
  proof (rule ccontr)
    assume "\<not> b < nblks s"
    then have "b \<in> {nblks s..<nbits (sfs_freemap s)}" using that by simp
    moreover have "{nblks s..<nbits (sfs_freemap s)} \<subseteq> usd s" using assms by (simp add: sfs_ok_def)
    ultimately show False using that by blast
  qed
qed (use assms in \<open>simp_all add: sfs_ok_def\<close>)

lemma length_blk: "sfs_ok s \<Longrightarrow> b < nblks s \<Longrightarrow> length (blk s b) = SFS_BLOCKSIZE"
  using disk_sector_length [of "sfs_device s" b] sfs_okD(1,4) [of s] by (simp add: blk_def disk_good_def LHD_SECTSIZE_def SFS_BLOCKSIZE_def)

lemma inode_okD:
  assumes "inode_ok s i"
  shows "inode_fits i" "b \<in> inode_blocks s i \<Longrightarrow> b \<in> usd s \<and> b < nblks s"
    "j < SFS_MAXBLOCK \<Longrightarrow> bmap s i j \<noteq> 0 \<Longrightarrow> bmap s i j \<in> inode_blocks s i"
    "sfi_indirect i \<noteq> 0 \<Longrightarrow> sfi_indirect i \<in> inode_blocks s i"
    "j < SFS_MAXBLOCK \<Longrightarrow> bmap s i j \<noteq> 0 \<Longrightarrow> bmap s i j \<noteq> sfi_indirect i"
    "j < SFS_MAXBLOCK \<Longrightarrow> k < SFS_MAXBLOCK \<Longrightarrow> bmap s i j \<noteq> 0 \<Longrightarrow> bmap s i j = bmap s i k \<Longrightarrow> j = k"
proof -
  show "inode_fits i" using assms by (simp add: inode_ok_def)
  show "b \<in> usd s \<and> b < nblks s" if "b \<in> inode_blocks s i" using assms that unfolding inode_ok_def by blast
  show "bmap s i j \<in> inode_blocks s i" if "j < SFS_MAXBLOCK" "bmap s i j \<noteq> 0" using that by (simp add: inode_blocks_def)
  show "sfi_indirect i \<in> inode_blocks s i" if "sfi_indirect i \<noteq> 0" using that by (simp add: inode_blocks_def)
  show "bmap s i j \<noteq> sfi_indirect i" if "j < SFS_MAXBLOCK" "bmap s i j \<noteq> 0" using assms that unfolding inode_ok_def by blast
  show "j = k" if "j < SFS_MAXBLOCK" "k < SFS_MAXBLOCK" "bmap s i j \<noteq> 0" "bmap s i j = bmap s i k"
    using assms that unfolding inode_ok_def by blast
qed

section \<open>Blocks\<close>

text \<open>Replacing a block of the disk.\<close>

definition set_blk :: "nat \<Rightarrow> byte list \<Rightarrow> sfs \<Rightarrow> sfs" where
  "set_blk b data s = s\<lparr>sfs_device := (sfs_device s)\<lparr>lh_sectors := (lh_sectors (sfs_device s))[b := data]\<rparr>\<rparr>"

lemma set_blk_simps [simp]:
  "usd (set_blk b data s) = usd s" "svs (set_blk b data s) = svs s" "sfs_superblk (set_blk b data s) = sfs_superblk s"
  "sfs_vnodes (set_blk b data s) = sfs_vnodes s" "sfs_freemap (set_blk b data s) = sfs_freemap s"
  "d_blocks (sfs_device (set_blk b data s)) = d_blocks (sfs_device s)"
  by (simp_all add: set_blk_def usd_def)

lemma blk_set_blk: "sfs_ok s \<Longrightarrow> b < nblks s \<Longrightarrow> blk (set_blk b data s) c = (if c = b then data else blk s c)"
  using sfs_okD(1,4) [of s] by (auto simp: blk_def set_blk_def disk_good_def disk_ok_def)

lemma sfs_ok_set_blk: "sfs_ok s \<Longrightarrow> length data = SFS_BLOCKSIZE \<Longrightarrow> sfs_ok (set_blk b data s)"
  using disk_good_write [of "sfs_device s" data b] by (simp add: sfs_ok_def usd_def) (simp add: set_blk_def)

lemma rblock_good: "sfs_ok s \<Longrightarrow> b < nblks s \<Longrightarrow> rblock b s = Some (Inr (blk s b), s)"
  using sfs_rblock_good [of "sfs_device s" b "replicate SFS_BLOCKSIZE 0"] sfs_okD(1,4) [of s] by (simp add: rblock_def blk_def)

lemma wblock_good: "sfs_ok s \<Longrightarrow> b < nblks s \<Longrightarrow> length data = SFS_BLOCKSIZE \<Longrightarrow> wblock data b s = Some (Inr (), set_blk b data s)"
  using sfs_wblock_good [of "sfs_device s" b data] sfs_okD(1,4) [of s] by (simp add: wblock_def set_blk_def)

lemma sfs_bused_eq: "sfs_ok s \<Longrightarrow> b < nblks s \<Longrightarrow> sfs_bused b s = Some (b \<in> usd s)"
  using bitmap_isset_eq [of "sfs_freemap s" b] sfs_okD(2,3) [of s] by (auto simp: sfs_bused_def usd_def)

lemma hand_back_eq: "sfs_ok s \<Longrightarrow> b = 0 \<or> b \<in> usd s \<and> b < nblks s \<Longrightarrow> hand_back b s = Some (Inr b, s)"
  by (auto simp: hand_back_def sfs_bused_eq)

lemma sfs_balloc_spec:
  assumes ok: "sfs_ok s"
  shows "(sfs_balloc s = Some (Inl ENOSPC, s) \<and> {..<nblks s} \<subseteq> usd s) \<or>
    (\<exists>b bm. let s1 = s\<lparr>sfs_freemap := bm, sfs_freemapdirty := True\<rparr>; s2 = set_blk b (replicate SFS_BLOCKSIZE 0) s1 in
       sfs_balloc s = Some (Inr b, s2) \<and> 0 < b \<and> b < nblks s \<and> b \<notin> usd s \<and> sfs_ok s1 \<and> sfs_ok s2 \<and> usd s2 = insert b (usd s))"
  using bitmap_alloc_spec [OF sfs_okD(2) [OF ok]]
proof (elim disjE exE conjE)
  assume "bitmap_alloc (sfs_freemap s) = Some (Inl ENOSPC, sfs_freemap s)" "bitmap_used (sfs_freemap s) = {..<nbits (sfs_freemap s)}"
  then show ?thesis using ok by (auto simp: sfs_balloc_def usd_def sfs_ok_def)
next
  fix b bm
  assume a: "bitmap_alloc (sfs_freemap s) = Some (Inr b, bm)" "bitmap_ok bm" "nbits bm = nbits (sfs_freemap s)" "b < nbits (sfs_freemap s)"
    "b \<notin> bitmap_used (sfs_freemap s)" "bitmap_used bm = insert b (bitmap_used (sfs_freemap s))"
  let ?s = "s\<lparr>sfs_freemap := bm, sfs_freemapdirty := True\<rparr>"
  have b: "b < nblks s" "b \<notin> usd s" "0 < b" using a(4,5) sfs_okD(5,6) [OF ok] unfolding usd_def by (blast, blast, metis neq0_conv)
  have ok1: "sfs_ok ?s" using ok a by (auto simp: sfs_ok_def usd_def)
  have "sfs_balloc s = Some (Inr b, set_blk b (replicate SFS_BLOCKSIZE 0) ?s)"
    using a(1) b(1) wblock_good [OF ok1, of b "replicate SFS_BLOCKSIZE 0"] by (simp add: sfs_balloc_def sfs_clearblock_def)
  moreover have "usd (set_blk b (replicate SFS_BLOCKSIZE 0) ?s) = insert b (usd s)" using a(6) by (simp add: usd_def set_blk_def)
  ultimately show ?thesis using b ok1 sfs_ok_set_blk [OF ok1, of "replicate SFS_BLOCKSIZE 0" b] unfolding Let_def
    by (intro disjI2 exI [of _ b] exI [of _ bm] conjI) (simp_all only: length_replicate simp_thms)
qed

section \<open>Reading a block map\<close>

lemma sfs_bmap_read:
  assumes ok: "sfs_ok s" and sv: "svs s p = Some sv" and i: "inode_ok s (sv_i sv)" and fb: "fb < SFS_MAXBLOCK"
  shows "sfs_bmap p fb False s = Some (Inr (bmap s (sv_i sv) fb), s)"
proof -
  let ?i = "sv_i sv" and ?b = "bmap s (sv_i sv) fb"
  note iD = inode_okD [OF i]
  have hb: "hand_back ?b s = Some (Inr ?b, s)" using iD(2) [of ?b] iD(3) [OF fb] by (intro hand_back_eq [OF ok]) auto
  show ?thesis
  proof (cases "fb < SFS_NDIRECT")
    case True
    then have "load_cell (sfi_direct ?i) fb = Some ?b" using iD(1) by (simp add: inode_fits_def bmap_def)
    then show ?thesis using True sv hb by (simp add: sfs_bmap_def sfs_bmap_direct_def)
  next
    case False
    then have idx: "fb - SFS_NDIRECT < SFS_DBPERIDB" "(fb - SFS_NDIRECT) div SFS_DBPERIDB = 0" "(fb - SFS_NDIRECT) mod SFS_DBPERIDB = fb - SFS_NDIRECT"
      using fb by (simp_all add: sfs_sizes)
    show ?thesis
    proof (cases "sfi_indirect ?i = 0")
      case True
      then have "?b = 0" using False idx(1) by (simp add: bmap_def id_words_def)
      then show ?thesis using False sv idx True by (simp add: sfs_bmap_def)
    next
      case ne: False
      have "sfi_indirect ?i < nblks s" using iD(2,4) ne by blast
      moreover have "load_cell (bytes_words SFS_DBPERIDB (blk s (sfi_indirect ?i))) (fb - SFS_NDIRECT) = Some ?b"
        using False ne idx(1) by (simp add: bmap_def id_words_def)
      ultimately show ?thesis using False ne sv idx hb by (simp add: sfs_bmap_def rblock_good [OF ok] sfs_bmap_entry_def)
    qed
  qed
qed

section \<open>Changing a file\<close>

lemma bytes_words_zero: "bytes_words SFS_DBPERIDB (replicate SFS_BLOCKSIZE 0) = replicate SFS_DBPERIDB 0"
proof -
  have z: "get_be (replicate n 0) = 0" for n
    by (induction n) (simp_all add: get_be_def foldl_conv_fold)
  have "take 4 (drop (4 * i) (replicate SFS_BLOCKSIZE (0 :: byte))) = replicate 4 0" if "i < SFS_DBPERIDB" for i
    using that by (simp add: sfs_sizes)
  then show ?thesis by (intro nth_equalityI) (simp_all add: bytes_words_def z)
qed

text \<open>What a change of the file \<open>p\<close> leaves of the vnode, apart from its blocks and its dirty mark.\<close>

definition same_meta :: "sfs_vnode \<Rightarrow> sfs_vnode \<Rightarrow> bool" where
  "same_meta v w \<longleftrightarrow> sv_ino w = sv_ino v \<and> vn_refcount w = vn_refcount v \<and> vn_opencount w = vn_opencount v \<and> vn_ops w = vn_ops v \<and>
     sfi_size (sv_i w) = sfi_size (sv_i v) \<and> sfi_type (sv_i w) = sfi_type (sv_i v) \<and> sfi_linkcount (sv_i w) = sfi_linkcount (sv_i v)"

definition wrote :: "nat \<Rightarrow> sfs \<Rightarrow> sfs \<Rightarrow> (nat \<Rightarrow> byte) \<Rightarrow> bool" where
  "wrote p s s' F \<longleftrightarrow> sfs_ok s' \<and> (\<exists>v w. svs s p = Some v \<and> svs s' p = Some w \<and> same_meta v w \<and> inode_ok s' (sv_i w) \<and>
     (\<forall>k < SFS_MAXBLOCK * 512. fbyte s' (sv_i w) k = F k) \<and>
     inode_blocks s (sv_i v) \<subseteq> inode_blocks s' (sv_i w) \<and> usd s' = usd s \<union> inode_blocks s' (sv_i w) \<and>
     (inode_blocks s' (sv_i w) - inode_blocks s (sv_i v)) \<inter> usd s = {} \<and>
     (\<forall>b \<in> usd s - inode_blocks s (sv_i v). blk s' b = blk s b)) \<and>
     (\<forall>q. q \<noteq> p \<longrightarrow> svs s' q = svs s q) \<and> sfs_superblk s' = sfs_superblk s \<and> sfs_vnodes s' = sfs_vnodes s"

lemma wroteI:
  assumes "sfs_ok s'" "svs s p = Some v" "svs s' p = Some w" "same_meta v w" "inode_ok s' (sv_i w)"
    "\<And>k. k < SFS_MAXBLOCK * 512 \<Longrightarrow> fbyte s' (sv_i w) k = F k"
    "inode_blocks s (sv_i v) \<subseteq> inode_blocks s' (sv_i w)" "usd s' = usd s \<union> inode_blocks s' (sv_i w)"
    "(inode_blocks s' (sv_i w) - inode_blocks s (sv_i v)) \<inter> usd s = {}"
    "\<And>b. b \<in> usd s \<Longrightarrow> b \<notin> inode_blocks s (sv_i v) \<Longrightarrow> blk s' b = blk s b"
    "\<And>q. q \<noteq> p \<Longrightarrow> svs s' q = svs s q" "sfs_superblk s' = sfs_superblk s" "sfs_vnodes s' = sfs_vnodes s"
  shows "wrote p s s' F"
  unfolding wrote_def using assms by blast

lemma wroteD:
  assumes "wrote p s s' F"
  obtains v w where "svs s p = Some v" "svs s' p = Some w" "same_meta v w" "inode_ok s' (sv_i w)"
    "\<And>k. k < SFS_MAXBLOCK * 512 \<Longrightarrow> fbyte s' (sv_i w) k = F k" "sfs_ok s'"
    "inode_blocks s (sv_i v) \<subseteq> inode_blocks s' (sv_i w)" "usd s' = usd s \<union> inode_blocks s' (sv_i w)"
    "(inode_blocks s' (sv_i w) - inode_blocks s (sv_i v)) \<inter> usd s = {}"
    "\<And>b. b \<in> usd s \<Longrightarrow> b \<notin> inode_blocks s (sv_i v) \<Longrightarrow> blk s' b = blk s b"
    "\<And>q. q \<noteq> p \<Longrightarrow> svs s' q = svs s q" "sfs_superblk s' = sfs_superblk s" "sfs_vnodes s' = sfs_vnodes s"
  using assms unfolding wrote_def by (elim conjE exE) (rule that; (assumption | blast))

lemma wrote_refl:
  assumes "sfs_ok s" "svs s p = Some v" "inode_ok s (sv_i v)"
  shows "wrote p s s (fbyte s (sv_i v))"
  using assms inode_okD(2) [OF assms(3)] unfolding wrote_def same_meta_def by auto

lemma wrote_cong: "wrote p s s' F \<Longrightarrow> (\<And>k. k < SFS_MAXBLOCK * 512 \<Longrightarrow> F k = G k) \<Longrightarrow> wrote p s s' G"
  unfolding wrote_def by auto

lemma wrote_trans:
  assumes "wrote p s s1 F" "wrote p s1 s2 G"
  shows "wrote p s s2 G"
proof -
  obtain v w where a: "svs s p = Some v" "svs s1 p = Some w" "same_meta v w" "inode_blocks s (sv_i v) \<subseteq> inode_blocks s1 (sv_i w)"
    "usd s1 = usd s \<union> inode_blocks s1 (sv_i w)" "(inode_blocks s1 (sv_i w) - inode_blocks s (sv_i v)) \<inter> usd s = {}"
    "\<And>b. b \<in> usd s \<Longrightarrow> b \<notin> inode_blocks s (sv_i v) \<Longrightarrow> blk s1 b = blk s b"
    "\<And>q. q \<noteq> p \<Longrightarrow> svs s1 q = svs s q" "sfs_superblk s1 = sfs_superblk s" "sfs_vnodes s1 = sfs_vnodes s"
    by (rule wroteD [OF assms(1)]) blast
  obtain w' x where b: "svs s1 p = Some w'" "svs s2 p = Some x" "same_meta w' x" "inode_ok s2 (sv_i x)"
    "\<And>k. k < SFS_MAXBLOCK * 512 \<Longrightarrow> fbyte s2 (sv_i x) k = G k" "sfs_ok s2"
    "inode_blocks s1 (sv_i w') \<subseteq> inode_blocks s2 (sv_i x)" "usd s2 = usd s1 \<union> inode_blocks s2 (sv_i x)"
    "(inode_blocks s2 (sv_i x) - inode_blocks s1 (sv_i w')) \<inter> usd s1 = {}"
    "\<And>b. b \<in> usd s1 \<Longrightarrow> b \<notin> inode_blocks s1 (sv_i w') \<Longrightarrow> blk s2 b = blk s1 b"
    "\<And>q. q \<noteq> p \<Longrightarrow> svs s2 q = svs s1 q" "sfs_superblk s2 = sfs_superblk s1" "sfs_vnodes s2 = sfs_vnodes s1"
    by (rule wroteD [OF assms(2)]) blast
  have w: "w' = w" using a(2) b(1) by simp
  have "blk s2 c = blk s c" if "c \<in> usd s" "c \<notin> inode_blocks s (sv_i v)" for c
  proof -
    have "c \<in> usd s1" "c \<notin> inode_blocks s1 (sv_i w)" using a(5,6) that by blast+
    then show ?thesis using a(7) [OF that] b(10) w by simp
  qed
  moreover have "same_meta v x" using a(3) b(3) w by (simp add: same_meta_def)
  moreover have "usd s2 = usd s \<union> inode_blocks s2 (sv_i x)" using a(5) b(7,8) w by blast
  moreover have "(inode_blocks s2 (sv_i x) - inode_blocks s (sv_i v)) \<inter> usd s = {}" using a(4,5,6) b(9) w by blast
  moreover have "inode_blocks s (sv_i v) \<subseteq> inode_blocks s2 (sv_i x)" using a(4) b(7) w by blast
  ultimately show ?thesis unfolding wrote_def using a b by simp
qed

text \<open>The file after a change, for the next step.\<close>

lemma wrote_file:
  assumes "wrote p s s' F"
  obtains w where "svs s' p = Some w" "sfs_ok s'" "inode_ok s' (sv_i w)" "\<And>k. k < SFS_MAXBLOCK * 512 \<Longrightarrow> fbyte s' (sv_i w) k = F k"
  by (rule wroteD [OF assms]) blast

lemma wrote_at:
  assumes "wrote p s s' F" "svs s' p = Some w"
  shows "sfs_ok s'" "inode_ok s' (sv_i w)" "k < SFS_MAXBLOCK * 512 \<Longrightarrow> fbyte s' (sv_i w) k = F k"
  using assms by (auto simp: wrote_def)

lemma image_fill:
  fixes f g :: "nat \<Rightarrow> nat"
  assumes "\<And>j. j \<in> A \<Longrightarrow> f j = (if j = x then b else g j)" "x \<in> A" "g x = 0" "b \<noteq> 0"
  shows "f ` A - {0} = insert b (g ` A - {0})"
proof -
  have "f ` A = (\<lambda>j. if j = x then b else g j) ` A" by (rule image_cong [OF refl assms(1)])
  also have "\<dots> - {0} = insert b (g ` A - {0})" using assms(2-) by auto
  finally show ?thesis .
qed

text \<open>Adding block \<open>b\<close>, which was free, to the map of the file.\<close>

lemma map_entry_added:
  assumes ok': "sfs_ok s'" and sv: "svs s p = Some v" "svs s' p = Some w" "same_meta v w" and io: "inode_ok s (sv_i v)"
    and fb: "fb < SFS_MAXBLOCK" "bmap s (sv_i v) fb = 0" and b: "b \<notin> usd s" "0 < b" "b < nblks s" "usd s' = insert b (usd s)"
    and ind: "sfi_indirect (sv_i w) = sfi_indirect (sv_i v)" and ifit: "inode_fits (sv_i w)"
    and bm: "\<And>j. j < SFS_MAXBLOCK \<Longrightarrow> bmap s' (sv_i w) j = (if j = fb then b else bmap s (sv_i v) j)"
    and bk: "\<And>c. c \<in> usd s \<Longrightarrow> c = 0 \<or> c \<noteq> sfi_indirect (sv_i v) \<Longrightarrow> blk s' c = blk s c" "blk s' b = replicate SFS_BLOCKSIZE 0"
    and fr: "\<And>q. q \<noteq> p \<Longrightarrow> svs s' q = svs s q" "sfs_superblk s' = sfs_superblk s" "sfs_vnodes s' = sfs_vnodes s"
    and zero: "0 \<in> usd s"
  shows "wrote p s s' (fbyte s (sv_i v))"
proof -
  let ?i = "sv_i v" and ?j = "sv_i w"
  note iD = inode_okD [OF io]
  have blocks: "inode_blocks s' ?j = insert b (inode_blocks s ?i)"
  proof -
    have "bmap s' ?j ` {..<SFS_MAXBLOCK} - {0} = insert b (bmap s ?i ` {..<SFS_MAXBLOCK} - {0})"
      by (rule image_fill [where x = fb]) (use fb b(2) in \<open>simp_all add: bm\<close>)
    then show ?thesis unfolding inode_blocks_def Un_Diff ind by simp
  qed
  have usd_i: "bmap s ?i j \<in> usd s" if "j < SFS_MAXBLOCK" for j 
  proof (cases "bmap s ?i j = 0")
    case False
    then show ?thesis using iD(2) [OF iD(3) [OF that]] by blast
  qed (simp add: zero)
  have ind_i: "sfi_indirect ?i \<in> usd s" using iD(2,4) zero by (cases "sfi_indirect ?i = 0") auto
  have "inode_ok s' ?j"
    unfolding inode_ok_def blocks ind
  proof (intro conjI allI impI ifit)
    show "insert b (inode_blocks s ?i) \<subseteq> usd s' \<inter> {..<nblks s'}" using iD(2) b fr(2) by auto
    show "bmap s' ?j j \<noteq> sfi_indirect ?i" if "j < SFS_MAXBLOCK" "bmap s' ?j j \<noteq> 0" for j
      using that bm [OF that(1)] iD(5) [OF that(1)] ind_i b(1) by (auto split: if_splits)
    show "j = k" if "j < SFS_MAXBLOCK" "k < SFS_MAXBLOCK" "bmap s' ?j j \<noteq> 0" "bmap s' ?j j = bmap s' ?j k" for j k
      using that bm [OF that(1)] bm [OF that(2)] iD(6) [OF that(1,2)] usd_i [OF that(1)] usd_i [OF that(2)] b(1) by (auto split: if_splits)
  qed
  moreover have "fbyte s' ?j k = fbyte s ?i k" if k: "k < SFS_MAXBLOCK * 512" for k
  proof (cases "k div 512 = fb")
    case True
    then show ?thesis using fb bm [OF fb(1)] bk(2) b(2) by (simp add: fbyte_def Let_def SFS_BLOCKSIZE_def)
  next
    case False
    have j: "k div 512 < SFS_MAXBLOCK" using k by (simp add: less_mult_imp_div_less)
    show ?thesis
    proof (cases "bmap s ?i (k div 512) = 0")
      case False
      then have "blk s' (bmap s ?i (k div 512)) = blk s (bmap s ?i (k div 512))" using bk(1) usd_i [OF j] iD(5) [OF j] by blast
      then show ?thesis using \<open>k div 512 \<noteq> fb\<close> bm [OF j] by (simp add: fbyte_def Let_def)
    qed (use False bm [OF j] in \<open>simp add: fbyte_def\<close>)
  qed
  moreover have "blk s' c = blk s c" if "c \<in> usd s" "c \<notin> inode_blocks s ?i" for c
    using bk(1) [OF that(1)] iD(4) that(2) by (cases "c = 0") auto
  ultimately show ?thesis using blocks b iD(2) fr by (intro wroteI [OF ok' sv]) auto
qed

text \<open>Replacing the contents of a block of the file.\<close>

lemma wrote_block:
  assumes ok: "sfs_ok s" and sv: "svs s p = Some v" and io: "inode_ok s (sv_i v)"
    and fb: "fb < SFS_MAXBLOCK" "bmap s (sv_i v) fb \<noteq> 0" and d: "length data = SFS_BLOCKSIZE"
  shows "wrote p s (set_blk (bmap s (sv_i v) fb) data s) (\<lambda>k. if k div 512 = fb then data ! (k mod 512) else fbyte s (sv_i v) k)"
proof -
  let ?i = "sv_i v" let ?b = "bmap s ?i fb" let ?s = "set_blk ?b data s"
  note iD = inode_okD [OF io]
  have b: "?b \<in> usd s" "?b < nblks s" "?b \<in> inode_blocks s ?i" using iD(2,3) fb by blast+
  note bk = blk_set_blk [OF ok b(2), of data]
  have idw: "id_words ?s ?i = id_words s ?i" using bk iD(5) [OF fb] by (auto simp: id_words_def)
  then have bm: "bmap ?s ?i j = bmap s ?i j" for j by (simp add: bmap_def)
  then have blocks: "inode_blocks ?s ?i = inode_blocks s ?i" by (simp add: inode_blocks_def)
  have "fbyte ?s ?i k = (if k div 512 = fb then data ! (k mod 512) else fbyte s ?i k)" if k: "k < SFS_MAXBLOCK * 512" for k
  proof -
    have "k div 512 < SFS_MAXBLOCK" using k by (simp add: less_mult_imp_div_less)
    from iD(6) [OF fb(1) this fb(2)] show ?thesis using fb(2) by (auto simp: fbyte_def bm bk Let_def)
  qed
  moreover have "inode_ok ?s ?i" using io by (simp add: inode_ok_def blocks bm)
  moreover have "usd s = usd s \<union> inode_blocks s ?i" using iD(2) by blast
  ultimately show ?thesis using sv b(3) blocks
    by (intro wroteI [where v = v and w = v] sfs_ok_set_blk [OF ok d]) (auto simp: same_meta_def bk)
qed

text \<open>An allocation for the file, with the inode of the vnode replaced by \<open>j\<close>.\<close>

lemma alloc_state:
  assumes ok: "sfs_ok s" and s1: "s1 = s\<lparr>sfs_freemap := bm, sfs_freemapdirty := True\<rparr>" "sfs_ok s1" and s2: "s2 = set_blk b (replicate SFS_BLOCKSIZE 0) s1"
    and sv: "svs s p = Some v" and b: "b < nblks s"
  shows "set_inode p j s2 = Some (set_sv p (v\<lparr>sv_i := j, sv_dirty := True\<rparr>) s2)"
    "\<And>c. blk s2 c = (if c = b then replicate SFS_BLOCKSIZE 0 else blk s c)"
    "svs s2 = svs s" "sfs_superblk s2 = sfs_superblk s" "sfs_vnodes s2 = sfs_vnodes s"
proof -
  show "blk s2 c = (if c = b then replicate SFS_BLOCKSIZE 0 else blk s c)" for c
    using blk_set_blk [OF s1(2), of b "replicate SFS_BLOCKSIZE 0" c] b s2 s1(1) by (simp add: blk_def)
qed (use s1 s2 sv in \<open>simp_all add: set_inode_def\<close>)

lemma set_sv_simps [simp]:
  "blk (set_sv p v s) b = blk s b" "usd (set_sv p v s) = usd s" "sfs_ok (set_sv p v s) = sfs_ok s"
  "svs (set_sv p v s) = (svs s)(p \<mapsto> v)" "sfs_superblk (set_sv p v s) = sfs_superblk s" "sfs_vnodes (set_sv p v s) = sfs_vnodes s"
  "id_words (set_sv p v s) i = id_words s i" "bmap (set_sv p v s) i j = bmap s i j" "fbyte (set_sv p v s) i k = fbyte s i k"
  "inode_blocks (set_sv p v s) i = inode_blocks s i" "inode_ok (set_sv p v s) i = inode_ok s i"
  by (simp_all add: set_sv_def blk_def usd_def sfs_ok_def id_words_def bmap_def fbyte_def inode_blocks_def inode_ok_def Let_def)

lemma alloc_direct:
  assumes ok: "sfs_ok s" and sv: "svs s p = Some v" and io: "inode_ok s (sv_i v)" and fb: "fb < SFS_NDIRECT" "sfi_direct (sv_i v) ! fb = 0"
    and s1: "s1 = s\<lparr>sfs_freemap := bm, sfs_freemapdirty := True\<rparr>" "sfs_ok s1" and s2: "s2 = set_blk b (replicate SFS_BLOCKSIZE 0) s1" "sfs_ok s2"
    and b: "0 < b" "b < nblks s" "b \<notin> usd s" "usd s2 = insert b (usd s)"
  defines "w \<equiv> v\<lparr>sv_i := (sv_i v)\<lparr>sfi_direct := (sfi_direct (sv_i v))[fb := b]\<rparr>, sv_dirty := True\<rparr>"
  shows "wrote p s (set_sv p w s2) (fbyte s (sv_i v))" "bmap (set_sv p w s2) (sv_i w) fb = b"
proof -
  let ?i = "sv_i v"
  note iD = inode_okD [OF io] and st = alloc_state [OF ok s1 s2(1) sv b(2)]
  have fits: "inode_fits ?i" by (rule iD(1))
  have b32: "b < 2 ^ 32" using b(2) sfs_okD(4) [OF ok b(2)] sfs_okD(1) [OF ok] by (simp add: disk_good_def disk_ok_def)
  have ind: "sfi_indirect ?i \<noteq> b \<or> sfi_indirect ?i = 0" using iD(2,4) b(3) by blast
  have idw: "id_words s2 (sv_i w) = id_words s ?i" using ind by (auto simp: id_words_def w_def st(2))
  have bmp: "bmap s2 (sv_i w) j = (if j = fb then b else bmap s ?i j)" if "j < SFS_MAXBLOCK" for j
    using fb(1) fits idw by (auto simp: bmap_def w_def inode_fits_def)
  have fitw: "inode_fits (sv_i w)" using fits b32 set_update_subset_insert [of "sfi_direct ?i" fb b] by (auto simp: inode_fits_def w_def)
  have fbm: "fb < SFS_MAXBLOCK" using fb(1) by (simp add: sfs_sizes)
  show "bmap (set_sv p w s2) (sv_i w) fb = b" using bmp [OF fbm] by simp
  show "wrote p s (set_sv p w s2) (fbyte s ?i)"
  proof (rule map_entry_added [where b = b and fb = fb and v = v and w = w])
    show "bmap s ?i fb = 0" using fb by (simp add: bmap_def)
    show "blk (set_sv p w s2) c = blk s c" if "c \<in> usd s" for c using that b(3) st(2) by auto
  qed (use sv io fbm b s2 fitw bmp st sfs_okD(5) [OF ok] in \<open>auto simp: w_def same_meta_def\<close>)
qed

lemma alloc_indirect:
  assumes ok: "sfs_ok s" and sv: "svs s p = Some v" and io: "inode_ok s (sv_i v)" and ni: "sfi_indirect (sv_i v) = 0"
    and s1: "s1 = s\<lparr>sfs_freemap := bm, sfs_freemapdirty := True\<rparr>" "sfs_ok s1" and s2: "s2 = set_blk b (replicate SFS_BLOCKSIZE 0) s1" "sfs_ok s2"
    and b: "0 < b" "b < nblks s" "b \<notin> usd s" "usd s2 = insert b (usd s)"
  defines "w \<equiv> v\<lparr>sv_i := (sv_i v)\<lparr>sfi_indirect := b\<rparr>, sv_dirty := True\<rparr>"
  shows "wrote p s (set_sv p w s2) (fbyte s (sv_i v))" "\<And>j. j < SFS_MAXBLOCK \<Longrightarrow> bmap (set_sv p w s2) (sv_i w) j = bmap s (sv_i v) j"
proof -
  let ?i = "sv_i v"
  note iD = inode_okD [OF io] and st = alloc_state [OF ok s1 s2(1) sv b(2)]
  have b32: "b < 2 ^ 32" using b(2) sfs_okD(4) [OF ok b(2)] sfs_okD(1) [OF ok] by (simp add: disk_good_def disk_ok_def)
  have z: "bytes_words SFS_DBPERIDB (replicate SFS_BLOCKSIZE 0) = replicate SFS_DBPERIDB 0" by (rule bytes_words_zero)
  have idw: "id_words s2 (sv_i w) = id_words s ?i" using ni b(1) z by (simp add: id_words_def w_def st(2))
  have bmp: "bmap s2 (sv_i w) j = bmap s ?i j" for j using idw by (simp add: bmap_def w_def)
  then show "bmap (set_sv p w s2) (sv_i w) j = bmap s ?i j" for j by simp
  have blocks: "inode_blocks s2 (sv_i w) = insert b (inode_blocks s ?i)"
    using ni b(1) by (auto simp: inode_blocks_def bmp) (auto simp: w_def)
  have nb: "bmap s ?i j \<noteq> b" if "j < SFS_MAXBLOCK" for j using iD(2) [OF iD(3) [OF that]] b(1,3) by (cases "bmap s ?i j = 0") auto
  have "inode_ok s2 (sv_i w)" unfolding inode_ok_def blocks bmp
    using iD(2,6) nb b iD(1) b32 st(4) by (auto simp: w_def inode_fits_def)
  moreover have "fbyte s2 (sv_i w) k = fbyte s ?i k" if "k < SFS_MAXBLOCK * 512" for k
    using nb [of "k div 512"] that by (simp add: fbyte_def Let_def bmp st(2) less_mult_imp_div_less)
  ultimately show "wrote p s (set_sv p w s2) (fbyte s ?i)"
    using blocks b iD(2) s2 st sv by (intro wroteI [where v = v and w = w]) (auto simp: same_meta_def w_def)
qed

lemma alloc_entry:
  assumes ok: "sfs_ok s" and sv: "svs s p = Some v" and io: "inode_ok s (sv_i v)" and ni: "sfi_indirect (sv_i v) \<noteq> 0"
    and off: "off < SFS_DBPERIDB" "id_words s (sv_i v) ! off = 0"
    and s1: "s1 = s\<lparr>sfs_freemap := bm, sfs_freemapdirty := True\<rparr>" "sfs_ok s1" and s2: "s2 = set_blk b (replicate SFS_BLOCKSIZE 0) s1" "sfs_ok s2"
    and b: "0 < b" "b < nblks s" "b \<notin> usd s" "usd s2 = insert b (usd s)"
  defines "s3 \<equiv> set_blk (sfi_indirect (sv_i v)) (words_bytes ((id_words s (sv_i v))[off := b])) s2"
  shows "wrote p s s3 (fbyte s (sv_i v))" "bmap s3 (sv_i v) (SFS_NDIRECT + off) = b" "sfs_ok s3"
proof -
  let ?i = "sv_i v" let ?id = "sfi_indirect ?i" let ?ws = "(id_words s ?i)[off := b]"
  note iD = inode_okD [OF io] and st = alloc_state [OF ok s1 s2(1) sv b(2)]
  have b32: "b < 2 ^ 32" using b(2) sfs_okD(4) [OF ok b(2)] sfs_okD(1) [OF ok] by (simp add: disk_good_def disk_ok_def)
  have id: "?id \<in> usd s" "?id < nblks s" "?id \<noteq> b" using iD(2,4) ni b(3) by blast+
  have lw: "length (words_bytes ?ws) = SFS_BLOCKSIZE" by (simp add: sfs_sizes)
  show ok3: "sfs_ok s3" unfolding s3_def by (rule sfs_ok_set_blk [OF s2(2) lw])
  have id2: "?id < nblks s2" using id(2) st(4) by simp
  have bk: "blk s3 c = (if c = ?id then words_bytes ?ws else if c = b then replicate SFS_BLOCKSIZE 0 else blk s c)" for c
    using blk_set_blk [OF s2(2) id2, of "words_bytes ?ws"] st(2) by (simp add: s3_def)
  have "\<forall>x \<in> set ?ws. x < 2 ^ 32"
    using b32 set_update_subset_insert [of "id_words s ?i" off b] ni bytes_words_less by (fastforce simp: id_words_def)
  then have idw: "id_words s3 ?i = ?ws" using ni bk words_of_bytes [of ?ws SFS_DBPERIDB "[]"] by (simp add: id_words_def)
  have bmp: "bmap s3 ?i j = (if j = SFS_NDIRECT + off then b else bmap s ?i j)" if "j < SFS_MAXBLOCK" for j
    using that off(1) idw by (auto simp: bmap_def nth_list_update SFS_MAXBLOCK_def)
  have fb: "SFS_NDIRECT + off < SFS_MAXBLOCK" using off(1) by (simp add: SFS_MAXBLOCK_def)
  show "bmap s3 ?i (SFS_NDIRECT + off) = b" using bmp [OF fb] by simp
  have z: "bmap s ?i (SFS_NDIRECT + off) = 0" using off(2) by (simp add: bmap_def)
  have fields: "svs s3 = svs s" "sfs_superblk s3 = sfs_superblk s" "sfs_vnodes s3 = sfs_vnodes s" "usd s3 = insert b (usd s)"
    using st b(4) by (simp_all add: s3_def)
  show "wrote p s s3 (fbyte s ?i)"
  proof (rule map_entry_added [OF ok3 sv _ _ io fb z, where b = b and w = v])
    show "blk s3 c = blk s c" if "c \<in> usd s" "c = 0 \<or> c \<noteq> ?id" for c using bk that b(3) ni by auto
    show "blk s3 b = replicate SFS_BLOCKSIZE 0" using bk id(3) by simp
  qed (use sv fields b iD(1) bmp sfs_okD(5) [OF ok] in \<open>simp_all add: same_meta_def\<close>)
qed

section \<open>Mapping with allocation\<close>

lemma bmap_mapped:
  assumes ok: "sfs_ok s" and sv: "svs s p = Some v" and io: "inode_ok s (sv_i v)" and fb: "fb < SFS_MAXBLOCK" "bmap s (sv_i v) fb \<noteq> 0"
  shows "sfs_bmap p fb True s = Some (Inr (bmap s (sv_i v) fb), s)"
proof -
  let ?i = "sv_i v" let ?b = "bmap s ?i fb"
  note iD = inode_okD [OF io]
  have hb: "hand_back ?b s = Some (Inr ?b, s)" using iD(2) [OF iD(3) [OF fb]] by (intro hand_back_eq [OF ok]) simp
  show ?thesis
  proof (cases "fb < SFS_NDIRECT")
    case True
    then have "load_cell (sfi_direct ?i) fb = Some ?b" using iD(1) by (simp add: inode_fits_def bmap_def)
    then show ?thesis using True sv hb fb(2) by (simp add: sfs_bmap_def sfs_bmap_direct_def)
  next
    case False
    then have idx: "fb - SFS_NDIRECT < SFS_DBPERIDB" "(fb - SFS_NDIRECT) div SFS_DBPERIDB = 0" "(fb - SFS_NDIRECT) mod SFS_DBPERIDB = fb - SFS_NDIRECT"
      using fb by (simp_all add: sfs_sizes)
    have ne: "sfi_indirect ?i \<noteq> 0"
    proof
      assume "sfi_indirect ?i = 0"
      then have "?b = 0" using False idx(1) by (simp add: bmap_def id_words_def)
      then show False using fb(2) by simp
    qed
    then have "sfi_indirect ?i < nblks s" using iD(2,4) by blast
    moreover have "load_cell (bytes_words SFS_DBPERIDB (blk s (sfi_indirect ?i))) (fb - SFS_NDIRECT) = Some ?b"
      using False ne idx(1) by (simp add: bmap_def id_words_def)
    ultimately show ?thesis using False ne sv idx hb fb(2) by (simp add: sfs_bmap_def rblock_good [OF ok] sfs_bmap_entry_def)
  qed
qed

text \<open>
  The result of mapping block \<open>fb\<close> of file \<open>p\<close> for a write: a block of the file, or \<^verbatim>\<open>ENOSPC\<close> with every block
  of the disk in use; the contents are the same.
\<close>

definition mapped :: "nat \<Rightarrow> nat \<Rightarrow> sfs \<Rightarrow> ((errno + nat) \<times> sfs) outcome \<Rightarrow> bool" where
  "mapped p fb s r \<longleftrightarrow> (\<exists>v s' w. svs s p = Some v \<and> wrote p s s' (fbyte s (sv_i v)) \<and> svs s' p = Some w \<and>
     (r = Some (Inl ENOSPC, s') \<and> {..<nblks s} \<subseteq> usd s' \<or>
      (\<exists>b. r = Some (Inr b, s') \<and> b \<noteq> 0 \<and> bmap s' (sv_i w) fb = b)))"

lemma hand_back_own:
  assumes w: "wrote p s s' F" "svs s' p = Some w" and b: "bmap s' (sv_i w) fb = b" "fb < SFS_MAXBLOCK" "0 < b"
  shows "hand_back b s' = Some (Inr b, s')"
proof -
  have "sfs_ok s'" "inode_ok s' (sv_i w)" using wrote_at [OF w] by blast+
  then show ?thesis using inode_okD(2) [OF _ inode_okD(3) [of s' "sv_i w" fb]] b by (intro hand_back_eq) auto
qed

lemma bmap_entry_alloc:
  assumes ok: "sfs_ok s" and sv: "svs s p = Some v" and io: "inode_ok s (sv_i v)" and ni: "sfi_indirect (sv_i v) \<noteq> 0"
    and off: "off < SFS_DBPERIDB" "id_words s (sv_i v) ! off = 0"
  shows "mapped p (SFS_NDIRECT + off) s (sfs_bmap_entry (sfi_indirect (sv_i v)) off (blk s (sfi_indirect (sv_i v))) True s)"
proof -
  let ?i = "sv_i v"
  have idw: "bytes_words SFS_DBPERIDB (blk s (sfi_indirect ?i)) = id_words s ?i" using ni by (simp add: id_words_def)
  have go: "sfs_bmap_entry (sfi_indirect ?i) off (blk s (sfi_indirect ?i)) True s =
      try_ok (sfs_balloc s) (\<lambda>block s1. try_ok (wblock (words_bytes ((id_words s ?i)[off := block])) (sfi_indirect ?i) s1) (\<lambda>_ s2. hand_back block s2))"
    using off by (simp add: sfs_bmap_entry_def idw)
  note refl = wrote_refl [OF ok sv io]
  from sfs_balloc_spec [OF ok] show ?thesis
  proof (elim disjE exE conjE)
    assume "sfs_balloc s = Some (Inl ENOSPC, s)" "{..<nblks s} \<subseteq> usd s"
    then show ?thesis using go sv refl by (auto simp: mapped_def)
  next
    fix b bm
    assume "let s1 = s\<lparr>sfs_freemap := bm, sfs_freemapdirty := True\<rparr>; s2 = set_blk b (replicate SFS_BLOCKSIZE 0) s1 in
       sfs_balloc s = Some (Inr b, s2) \<and> 0 < b \<and> b < nblks s \<and> b \<notin> usd s \<and> sfs_ok s1 \<and> sfs_ok s2 \<and> usd s2 = insert b (usd s)"
    then obtain s1 s2 where a: "s1 = s\<lparr>sfs_freemap := bm, sfs_freemapdirty := True\<rparr>" "s2 = set_blk b (replicate SFS_BLOCKSIZE 0) s1"
      "sfs_balloc s = Some (Inr b, s2)" "0 < b" "b < nblks s" "b \<notin> usd s" "sfs_ok s1" "sfs_ok s2" "usd s2 = insert b (usd s)"
      by (simp add: Let_def)
    let ?s3 = "set_blk (sfi_indirect ?i) (words_bytes ((id_words s ?i)[off := b])) s2"
    note e = alloc_entry [OF ok sv io ni off a(1,7,2,8,4,5,6,9)]
    have sup: "sfs_superblk s2 = sfs_superblk s" "svs s2 = svs s" using a(1,2) by simp_all
    have "sfi_indirect ?i < nblks s2" using inode_okD(2,4) [OF io] ni sup by auto
    then have wb: "wblock (words_bytes ((id_words s ?i)[off := b])) (sfi_indirect ?i) s2 = Some (Inr (), ?s3)"
      by (intro wblock_good [OF a(8)]) (simp_all add: sfs_sizes)
    have sv3: "svs ?s3 p = Some v" using sv sup by simp
    have "hand_back b ?s3 = Some (Inr b, ?s3)"
      using off(1) a(4) by (intro hand_back_own [OF e(1) sv3 e(2)]) (simp_all add: SFS_MAXBLOCK_def)
    then have "sfs_bmap_entry (sfi_indirect ?i) off (blk s (sfi_indirect ?i)) True s = Some (Inr b, ?s3)" using go a(3) wb by simp
    then show ?thesis unfolding mapped_def using sv sv3 e(1,2) a(4) by blast
  qed
qed

lemma mapped_after:
  assumes sv: "svs s p = Some v" and w: "wrote p s s1 (fbyte s (sv_i v))" and m: "mapped p fb s1 r"
  shows "mapped p fb s r"
proof -
  obtain v1 s' w' where a: "svs s1 p = Some v1" "wrote p s1 s' (fbyte s1 (sv_i v1))" "svs s' p = Some w'"
    "r = Some (Inl ENOSPC, s') \<and> {..<nblks s1} \<subseteq> usd s' \<or> (\<exists>b. r = Some (Inr b, s') \<and> b \<noteq> 0 \<and> bmap s' (sv_i w') fb = b)"
    using m unfolding mapped_def by blast
  have "fbyte s1 (sv_i v1) k = fbyte s (sv_i v) k" if "k < SFS_MAXBLOCK * 512" for k
    by (rule wrote_at(3) [OF w a(1) that])
  then have "wrote p s s' (fbyte s (sv_i v))" by (rule wrote_cong [OF wrote_trans [OF w a(2)]])
  moreover have "nblks s1 = nblks s" using w by (simp add: wrote_def)
  ultimately show ?thesis unfolding mapped_def using sv a(3,4) by auto
qed

lemma balloc_cases:
  assumes "sfs_ok s"
  obtains (full) "sfs_balloc s = Some (Inl ENOSPC, s)" "{..<nblks s} \<subseteq> usd s"
  | (block) b bm s1 s2 where "s1 = s\<lparr>sfs_freemap := bm, sfs_freemapdirty := True\<rparr>" "sfs_ok s1" "s2 = set_blk b (replicate SFS_BLOCKSIZE 0) s1" "sfs_ok s2"
      "0 < b" "b < nblks s" "b \<notin> usd s" "usd s2 = insert b (usd s)" "sfs_balloc s = Some (Inr b, s2)"
  using sfs_balloc_spec [OF assms] by (auto simp: Let_def)

lemma sfs_bmap_alloc:
  assumes ok: "sfs_ok s" and sv: "svs s p = Some v" and io: "inode_ok s (sv_i v)" and fb: "fb < SFS_MAXBLOCK"
  shows "mapped p fb s (sfs_bmap p fb True s)"
proof (cases "bmap s (sv_i v) fb = 0")
  case False
  then show ?thesis using bmap_mapped [OF ok sv io fb False] wrote_refl [OF ok sv io] sv unfolding mapped_def by auto
next
  case zero: True
  let ?i = "sv_i v"
  note refl = wrote_refl [OF ok sv io]
  show ?thesis
  proof (cases "fb < SFS_NDIRECT")
    case True
    then have d: "sfi_direct ?i ! fb = 0" "fb < length (sfi_direct ?i)"
      using zero inode_okD(1) [OF io] by (simp_all add: bmap_def inode_fits_def)
    let ?w = "\<lambda>b. v\<lparr>sv_i := ?i\<lparr>sfi_direct := (sfi_direct ?i)[fb := b]\<rparr>, sv_dirty := True\<rparr>"
    have go: "sfs_bmap p fb True s = try_ok (sfs_balloc s) (\<lambda>b s1. do {
        s2 \<leftarrow> set_inode p (?i\<lparr>sfi_direct := (sfi_direct ?i)[fb := b]\<rparr>) s1; hand_back b s2 })"
      using True d sv by (simp add: sfs_bmap_def sfs_bmap_direct_def)
    show ?thesis
    using ok
    proof (cases rule: balloc_cases)
      case full
      then show ?thesis using go refl sv by (auto simp: mapped_def)
    next
      case (block b bm s1 s2)
      note a = alloc_direct [OF ok sv io True d(1) block(1-8)]
      have sv3: "svs (set_sv p (?w b) s2) p = Some (?w b)" by simp
      have "hand_back b (set_sv p (?w b) s2) = Some (Inr b, set_sv p (?w b) s2)"
        by (rule hand_back_own [OF a(1) sv3 a(2) fb block(5)])
      then have "sfs_bmap p fb True s = Some (Inr b, set_sv p (?w b) s2)"
        using go block(9) alloc_state(1) [OF ok block(1-3) sv block(6)] by simp
      then show ?thesis unfolding mapped_def using sv sv3 a block(5) by blast
    qed
  next
    case nd: False
    define off where "off = fb - SFS_NDIRECT"
    have off: "off < SFS_DBPERIDB" "fb = SFS_NDIRECT + off" "off div SFS_DBPERIDB = 0" "off mod SFS_DBPERIDB = off" "id_words s ?i ! off = 0"
      using nd fb zero by (simp_all add: sfs_sizes off_def bmap_def)
    show ?thesis
    proof (cases "sfi_indirect ?i = 0")
      case False
      then have "sfs_bmap p fb True s = sfs_bmap_entry (sfi_indirect ?i) off (blk s (sfi_indirect ?i)) True s"
        using off(1-4) sv inode_okD(2,4) [OF io] by (simp add: sfs_bmap_def rblock_good [OF ok] Let_def)
      then show ?thesis using bmap_entry_alloc [OF ok sv io False off(1,5)] off(2) by simp
    next
      case ni: True
      let ?w = "\<lambda>b. v\<lparr>sv_i := ?i\<lparr>sfi_indirect := b\<rparr>, sv_dirty := True\<rparr>"
      have go: "sfs_bmap p fb True s = try_ok (sfs_balloc s) (\<lambda>b s1. do {
          s2 \<leftarrow> set_inode p (?i\<lparr>sfi_indirect := b\<rparr>) s1; sfs_bmap_entry b off (replicate SFS_BLOCKSIZE 0) True s2 })"
        using off(1-4) ni sv by (simp add: sfs_bmap_def)
      show ?thesis
      using ok
    proof (cases rule: balloc_cases)
        case full
        then show ?thesis using go refl sv by (auto simp: mapped_def)
      next
        case (block b bm s1 s2)
        let ?s3 = "set_sv p (?w b) s2"
        note a = alloc_indirect [OF ok sv io ni block(1-8)] and st = alloc_state [OF ok block(1-3) sv block(6)]
        have sv3: "svs ?s3 p = Some (?w b)" by simp
        have io3: "inode_ok ?s3 (sv_i (?w b))" and ok3: "sfs_ok ?s3" using wrote_at [OF a(1) sv3] by blast+
        have "bmap ?s3 (sv_i (?w b)) fb = 0" using a(2) [OF fb] zero by simp
        then have idw: "id_words ?s3 (sv_i (?w b)) ! off = 0" using off(2) by (simp add: bmap_def)
        have "mapped p fb ?s3 (sfs_bmap_entry b off (blk ?s3 b) True ?s3)"
          using bmap_entry_alloc [OF ok3 sv3 io3 _ off(1) idw] block(5) off(2) by simp
        moreover have "blk ?s3 b = replicate SFS_BLOCKSIZE 0" using st(2) by simp
        ultimately show ?thesis using mapped_after [OF sv a(1)] go block(9) st(1) by simp
      qed
    qed
  qed
qed

end
