(* ===== verification/Sfs_File.thy ===== *)
theory Sfs_File
  imports Sfs_Inv
begin

text \<open>
  \<^verbatim>\<open>sfs_io\<close> reads and writes the bytes of a file: a write of any length at any position replaces these
  bytes of the file and nothing else, or stops where the disk is full; a read returns the bytes up to the
  end of the file.
\<close>

section \<open>Positions\<close>

lemma fileblock_of_eq: "uio_offset u = int off \<Longrightarrow> off < 2 ^ 31 \<Longrightarrow> fileblock_of u = off div 512"
proof -
  assume a: "uio_offset u = int off" "off < 2 ^ 31"
  have "int off sdiv 512 = int (off div 512)" by (simp add: signed_divide_int_def sgn_if zdiv_int)
  moreover have "int (off div 512) mod 2 ^ 32 = int (off div 512)" using a(2) by simp
  ultimately show ?thesis using a by (simp add: fileblock_of_def SFS_BLOCKSIZE_def)
qed

lemma div_block_iff:
  assumes "off = q * 512"
  shows "k div 512 = q \<longleftrightarrow> off \<le> k \<and> k < off + (512 :: nat)"
proof
  assume "k div 512 = q"
  then have "k = q * 512 + k mod 512" by (metis div_mult_mod_eq)
  moreover have "k mod 512 < 512" by simp
  ultimately show "off \<le> k \<and> k < off + 512" using assms by linarith
next
  assume "off \<le> k \<and> k < off + 512"
  then show "k div 512 = q" using assms by (intro div_nat_eqI) simp_all
qed

lemma smod_512: "int off smod 512 = int (off mod 512)"
  by (simp add: signed_modulo_int_def sgn_if zmod_int)

definition upd :: "(nat \<Rightarrow> byte) \<Rightarrow> nat \<Rightarrow> byte list \<Rightarrow> nat \<Rightarrow> byte" where
  "upd F off xs k = (if off \<le> k \<and> k < off + length xs then xs ! (k - off) else F k)"

lemma upd_Nil [simp]: "upd F off [] = F"
  by (auto simp: upd_def fun_eq_iff)

lemma upd_append: "upd (upd F off xs) (off + length xs) ys = upd F off (xs @ ys)"
  by (auto simp: upd_def fun_eq_iff nth_append)

lemma upd_cong: "(\<And>k. k < n \<Longrightarrow> F k = G k) \<Longrightarrow> k < n \<Longrightarrow> upd F off xs k = upd G off xs k"
  by (simp add: upd_def)

section \<open>Writing\<close>

text \<open>
  \<open>wrote_io p n (u, s) r\<close>: the outcome \<open>r\<close> is that of writing the next \<open>n\<close> bytes of \<open>u\<close> to file \<open>p\<close>, or the
  first of them when the disk fills up.
\<close>

definition wrote_io :: "nat \<Rightarrow> nat \<Rightarrow> uio \<times> sfs \<Rightarrow> ((errno + unit) \<times> uio \<times> sfs) outcome \<Rightarrow> bool" where
  "wrote_io p n us r \<longleftrightarrow> (case us of (u, s) \<Rightarrow> \<exists>v m res s'. svs s p = Some v \<and> r = Some (res, uio_moved m [] u, s') \<and> m \<le> n \<and>
     wrote p s s' (upd (fbyte s (sv_i v)) (nat (uio_offset u)) (uio_next m u)) \<and>
     (res = Inr () \<and> m = n \<or> res = Inl ENOSPC \<and> m < n \<and> {..<nblks s} \<subseteq> usd s'))"

definition can_write :: "nat \<Rightarrow> uio \<Rightarrow> bool" where
  "can_write n u \<longleftrightarrow> uio_fits n u \<and> uio_rw u = UIO_WRITE \<and> nat (uio_offset u) + n \<le> SFS_MAXBLOCK * 512"

lemma can_write_mono: "can_write n u \<Longrightarrow> m \<le> n \<Longrightarrow> can_write m u"
  by (auto simp: can_write_def uio_fits_def)

lemma can_write_moved: "can_write (m + n) u \<Longrightarrow> can_write n (uio_moved m [] u)"
  using uio_fits_moved [of m n u "[]"] by (auto simp: can_write_def)

lemma uio_next_split: "uio_rw u = UIO_WRITE \<Longrightarrow> uio_fits (m + n) u \<Longrightarrow> uio_next (m + n) u = uio_next m u @ uio_next n (uio_moved m [] u)"
  by (simp add: uio_next_def uio_moved_def take_add add.commute)

lemma wrote_io_done: "sfs_ok s \<Longrightarrow> svs s p = Some v \<Longrightarrow> inode_ok s (sv_i v) \<Longrightarrow> wrote_io p 0 (u, s) (Some (Inr (), u, s))"
  using wrote_refl [of s p v] unfolding wrote_io_def by (auto simp: uio_next_def intro!: exI [of _ 0])

lemma wrote_io_then:
  assumes w: "can_write (m + n) u" and first: "wrote_io p m (u, s) r"
    and rest: "\<And>s1 w. r = Some (Inr (), uio_moved m [] u, s1) \<Longrightarrow> svs s1 p = Some w \<Longrightarrow> sfs_ok s1 \<Longrightarrow> inode_ok s1 (sv_i w) \<Longrightarrow>
      wrote_io p n (uio_moved m [] u, s1) (k () (uio_moved m [] u, s1))"
  shows "wrote_io p (m + n) (u, s) (try_ok r k)"
proof -
  have u: "uio_fits (m + n) u" "uio_rw u = UIO_WRITE" "0 \<le> uio_offset u" using w by (auto simp: can_write_def uio_fits_def)
  obtain v m1 res s1 where a: "svs s p = Some v" "r = Some (res, uio_moved m1 [] u, s1)" "m1 \<le> m"
    "wrote p s s1 (upd (fbyte s (sv_i v)) (nat (uio_offset u)) (uio_next m1 u))"
    "res = Inr () \<and> m1 = m \<or> res = Inl ENOSPC \<and> m1 < m \<and> {..<nblks s} \<subseteq> usd s1" using first by (auto simp: wrote_io_def)
  show ?thesis
  proof (cases "res = Inr ()")
    case False
    then have "try_ok r k = Some (Inl ENOSPC, uio_moved m1 [] u, s1)" using a(2,5) by auto
    then show ?thesis unfolding wrote_io_def using a False by (auto intro!: exI [of _ m1])
  next
    case True
    then have m1: "m1 = m" using a(5) by auto
    let ?u1 = "uio_moved m [] u"
    obtain w1 where w1: "svs s1 p = Some w1" "sfs_ok s1" "inode_ok s1 (sv_i w1)"
      "\<And>k. k < SFS_MAXBLOCK * 512 \<Longrightarrow> fbyte s1 (sv_i w1) k = upd (fbyte s (sv_i v)) (nat (uio_offset u)) (uio_next m u) k"
      using wrote_file [OF a(4)] m1 by blast
    have r: "r = Some (Inr (), ?u1, s1)" using a(2) True m1 by simp
    obtain m2 res2 s2 where b: "k () (?u1, s1) = Some (res2, uio_moved m2 [] ?u1, s2)" "m2 \<le> n"
      "wrote p s1 s2 (upd (fbyte s1 (sv_i w1)) (nat (uio_offset ?u1)) (uio_next m2 ?u1))"
      "res2 = Inr () \<and> m2 = n \<or> res2 = Inl ENOSPC \<and> m2 < n \<and> {..<nblks s1} \<subseteq> usd s2"
      using rest [OF r w1(1-3)] w1(1) by (auto simp: wrote_io_def)
    have f2: "uio_fits (m + m2) u" using u(1) b(2) by (auto simp: uio_fits_def)
    have len: "length (uio_next m u) = m" using u(1) by (intro length_uio_next) (auto simp: uio_fits_def)
    have off: "nat (uio_offset ?u1) = nat (uio_offset u) + m" using u(3) by simp
    have "wrote p s s2 (upd (fbyte s (sv_i v)) (nat (uio_offset u)) (uio_next (m + m2) u))"
    proof (rule wrote_cong [OF wrote_trans [OF a(4) b(3)]])
      fix k assume "k < SFS_MAXBLOCK * 512"
      then show "upd (fbyte s1 (sv_i w1)) (nat (uio_offset ?u1)) (uio_next m2 ?u1) k =
          upd (fbyte s (sv_i v)) (nat (uio_offset u)) (uio_next (m + m2) u) k"
        using upd_cong [OF w1(4)] upd_append [of _ _ "uio_next m u"] len uio_next_split [OF u(2) f2] unfolding off by simp
    qed
    moreover have "try_ok r k = Some (res2, uio_moved (m + m2) [] u, s2)"
      using r b(1) uio_moved_moved [OF f2, of "[]" "[]"] u(2) by simp
    moreover have "nblks s1 = nblks s" using a(4) by (simp add: wrote_def)
    ultimately show ?thesis unfolding wrote_io_def using a(1) b(2,4) by (auto intro!: exI [of _ "m + m2"])
  qed
qed

lemma partial_bytes:
  assumes d: "length data = 512" "skip = off mod 512" "skip + length xs \<le> 512" and k: "k div 512 = off div 512"
  shows "splice data skip xs ! (k mod 512) = (if off \<le> k \<and> k < off + length xs then xs ! (k - off) else data ! (k mod 512))"
proof -
  have k': "k = off div 512 * 512 + k mod 512" "off = off div 512 * 512 + skip" using k d(2) by (metis div_mult_mod_eq)+
  have "skip \<le> k mod 512 \<and> k mod 512 < skip + length xs \<longleftrightarrow> off \<le> k \<and> k < off + length xs" "k mod 512 - skip = k - off"
    using k' by linarith+
  then show ?thesis using d by (simp add: nth_splice)
qed

lemma sfs_partialio_write:
  assumes ok: "sfs_ok s" and sv: "svs s p = Some v" and io: "inode_ok s (sv_i v)"
    and u: "can_write len u" "uio_offset u = int off" and len: "skip = off mod 512" "skip + len \<le> 512" "0 < len"
  shows "wrote_io p len (u, s) (sfs_partialio p skip len (u, s))"
proof -
  have fits: "uio_fits len u" "uio_rw u = UIO_WRITE" "off + len \<le> SFS_MAXBLOCK * 512" "off < 2 ^ 31"
    using u by (auto simp: can_write_def uio_fits_def)
  let ?fb = "off div 512"
  have fb: "?fb < SFS_MAXBLOCK" using fits(3) len(3) by (simp add: less_mult_imp_div_less)
  obtain s1 w where m: "wrote p s s1 (fbyte s (sv_i v))" "svs s1 p = Some w"
    "sfs_bmap p ?fb True s = Some (Inl ENOSPC, s1) \<and> {..<nblks s} \<subseteq> usd s1 \<or>
     (\<exists>b. sfs_bmap p ?fb True s = Some (Inr b, s1) \<and> b \<noteq> 0 \<and> bmap s1 (sv_i w) ?fb = b)"
    using sfs_bmap_alloc [OF ok sv io fb] sv by (auto simp: mapped_def)
  have go: "sfs_bmap p (fileblock_of u) True s = sfs_bmap p ?fb True s" using fileblock_of_eq [OF u(2) fits(4)] by simp
  have ass: "(skip + len) mod 2 ^ 32 \<le> SFS_BLOCKSIZE" using len by (simp add: SFS_BLOCKSIZE_def)
  from m(3) show ?thesis
  proof (elim disjE exE conjE)
    assume a: "sfs_bmap p ?fb True s = Some (Inl ENOSPC, s1)" "{..<nblks s} \<subseteq> usd s1"
    then have "sfs_partialio p skip len (u, s) = Some (Inl ENOSPC, u, s1)"
      using go fits(2) ass by (simp add: sfs_partialio_def with_uio_def)
    then show ?thesis unfolding wrote_io_def using sv m(1) a(2) len(3) by (auto intro!: exI [of _ 0] simp: uio_next_def)
  next
    fix b assume b: "sfs_bmap p ?fb True s = Some (Inr b, s1)" "b \<noteq> 0" "bmap s1 (sv_i w) ?fb = b"
    note w1 = wrote_at [OF m(1,2)]
    have bn: "b < nblks s1" using inode_okD(2) [OF w1(2) inode_okD(3) [OF w1(2) fb]] b by blast
    have lb: "length (blk s1 b) = 512" using length_blk [OF w1(1) bn] by (simp add: SFS_BLOCKSIZE_def)
    have lx: "length (uio_next len u) = len" by (rule length_uio_next [OF fits(1)])
    let ?data = "splice (blk s1 b) skip (uio_next len u)"
    have mv: "uiomove (blk s1 b) skip len u = Some (Inr (), ?data, uio_moved len [] u)"
      using lb len(2) by (intro uiomove_write [OF fits(1,2)]) simp
    have ld: "length ?data = SFS_BLOCKSIZE" using lb len(2) lx by (simp add: SFS_BLOCKSIZE_def)
    have res: "sfs_partialio p skip len (u, s) = Some (Inr (), uio_moved len [] u, set_blk b ?data s1)"
      using go fits(2) ass b mv rblock_good [OF w1(1) bn] wblock_good [OF w1(1) bn ld]
      by (simp add: sfs_partialio_def with_uio_def)
    have "wrote p s (set_blk b ?data s1) (upd (fbyte s (sv_i v)) off (uio_next len u))"
    proof (rule wrote_cong [OF wrote_trans [OF m(1) wrote_block [OF w1(1) m(2) w1(2) fb _ ld, unfolded b(3)]]])
      fix k assume k: "k < SFS_MAXBLOCK * 512"
      show "(if k div 512 = ?fb then ?data ! (k mod 512) else fbyte s1 (sv_i w) k) = upd (fbyte s (sv_i v)) off (uio_next len u) k"
      proof (cases "k div 512 = ?fb")
        case True
        have "fbyte s1 (sv_i w) k = blk s1 b ! (k mod 512)" using True b(2,3) by (simp add: fbyte_def Let_def)
        then show ?thesis using True partial_bytes [OF lb len(1) _ True, of "uio_next len u"] lx len(2) w1(3) [OF k] by (simp add: upd_def)
      next
        case False
        have "\<not> (off \<le> k \<and> k < off + len)"
        proof
          assume c: "off \<le> k \<and> k < off + len"
          have "off = ?fb * 512 + skip" using len(1) by simp
          then have "k < (?fb + 1) * 512" using c len(2) by simp
          moreover have "?fb * 512 \<le> k" using c \<open>off = ?fb * 512 + skip\<close> by linarith
          ultimately have "k div 512 = ?fb" by (intro div_nat_eqI) simp_all
          then show False using False by simp
        qed
        then show ?thesis using False w1(3) [OF k] lx by (auto simp: upd_def)
      qed
    qed (use b(2) in simp)
    then show ?thesis unfolding wrote_io_def using sv res u(2) by (auto intro!: exI [of _ len])
  qed
qed

text \<open>The transfer of \<^verbatim>\<open>sfs_blockio\<close> to and from block \<open>b\<close>.\<close>

lemma blockio_device:
  assumes ok: "sfs_ok s" and b: "b < nblks s" and u: "uio_fits 512 u" "512 \<le> uio_resid u" "uio_resid u < 2 ^ 32"
  defines "u' \<equiv> u\<lparr>uio_offset := wrap32 (int (b * 512)), uio_resid := 512\<rparr>"
  shows "uio_rw u = UIO_WRITE \<Longrightarrow> sfs_rwblock u' (sfs_device s) =
      Some (Inr (), uio_moved 512 [] u', (sfs_device s)\<lparr>lh_sectors := (lh_sectors (sfs_device s))[b := uio_next 512 u]\<rparr>)"
    "uio_rw u = UIO_READ \<Longrightarrow> sfs_rwblock u' (sfs_device s) = Some (Inr (), uio_moved 512 (blk s b) u', sfs_device s)"
    "(uio_moved 512 xs u')\<lparr>uio_offset := wrap32 (uio_offset (uio_moved 512 xs u') - wrap32 (int (b * 512)) + uio_offset u),
       uio_resid := nat ((int (uio_resid (uio_moved 512 xs u')) - int 512 + int (uio_resid u)) mod 2 ^ 32)\<rparr> = uio_moved 512 xs u"
proof -
  note g = sfs_okD(1) [OF ok]
  have d: "disk_ok (sfs_device s)" "lh_codes (sfs_device s) 0 = LHD_OK" "b < d_blocks (sfs_device s)" "d_blocks (sfs_device s) < 2 ^ 22"
    using g sfs_okD(4) [OF ok b] by (simp_all add: disk_good_def disk_ok_def)
  have wr: "wrap32 (int (b * 512)) = int b * 512" using d(3,4) by (subst wrap32_id) simp_all
  have f: "uio_fits LHD_SECTSIZE u'" "uio_offset u' = int b * 512" "uio_resid u' = LHD_SECTSIZE" "uio_next LHD_SECTSIZE u' = uio_next 512 u"
    using u(1) d(3,4) unfolding u'_def wr by (simp_all add: uio_fits_def LHD_SECTSIZE_def uio_next_def)
  have rw: "uio_rw u' = uio_rw u" by (simp add: u'_def)
  have codes: "(sfs_device s)\<lparr>lh_codes := (\<lambda>k. lh_codes (sfs_device s) (Suc k)), lh_sectors := x\<rparr> = (sfs_device s)\<lparr>lh_sectors := x\<rparr>" for x
    using disk_good_codes [OF g] by (metis lhd.surjective lhd.update_convs(2,3))
  show "sfs_rwblock u' (sfs_device s) = Some (Inr (), uio_moved 512 [] u', (sfs_device s)\<lparr>lh_sectors := (lh_sectors (sfs_device s))[b := uio_next 512 u]\<rparr>)"
    if "uio_rw u = UIO_WRITE"
    using lhd_io_write(1) [OF d(1,3) f(2,3) _ f(1) d(2)] that rw f(4) codes
    by (simp add: sfs_rwblock_def sfs_rwblock_from.simps LHD_SECTSIZE_def)
  show "sfs_rwblock u' (sfs_device s) = Some (Inr (), uio_moved 512 (blk s b) u', sfs_device s)" if "uio_rw u = UIO_READ"
    using lhd_io_read(1) [OF d(1,3) f(2,3) _ f(1) d(2)] that rw disk_good_codes [OF g]
    by (simp add: sfs_rwblock_def sfs_rwblock_from.simps LHD_SECTSIZE_def blk_def)
  have "wrap32 (512 + uio_offset u) = uio_offset u + 512" using u(1) by (subst wrap32_id) (simp_all add: uio_fits_def)
  moreover have "nat ((int (uio_resid u) - 512) mod 2 ^ 32) = uio_resid u - 512" using u(2,3) by (simp add: nat_diff_distrib)
  ultimately show "(uio_moved 512 xs u')\<lparr>uio_offset := wrap32 (uio_offset (uio_moved 512 xs u') - wrap32 (int (b * 512)) + uio_offset u),
       uio_resid := nat ((int (uio_resid (uio_moved 512 xs u')) - int 512 + int (uio_resid u)) mod 2 ^ 32)\<rparr> = uio_moved 512 xs u"
    by (cases u) (simp add: u'_def uio_moved_def)
qed

text \<open>A whole block: the offset and the residue of the \<^verbatim>\<open>uio\<close> are replaced for the transfer and restored.\<close>

lemma sfs_blockio_write:
  assumes ok: "sfs_ok s" and sv: "svs s p = Some v" and io: "inode_ok s (sv_i v)"
    and u: "can_write 512 u" "uio_offset u = int off" "off mod 512 = 0"
  shows "wrote_io p 512 (u, s) (sfs_blockio p (u, s))"
proof -
  have fits: "uio_fits 512 u" "uio_rw u = UIO_WRITE" "off + 512 \<le> SFS_MAXBLOCK * 512" "off < 2 ^ 31" "512 \<le> uio_resid u" "uio_resid u < 2 ^ 32"
    using u by (auto simp: can_write_def uio_fits_def)
  let ?fb = "off div 512"
  have fb: "?fb < SFS_MAXBLOCK" using fits(3) by (simp add: less_mult_imp_div_less)
  obtain s1 w where m: "wrote p s s1 (fbyte s (sv_i v))" "svs s1 p = Some w"
    "sfs_bmap p ?fb True s = Some (Inl ENOSPC, s1) \<and> {..<nblks s} \<subseteq> usd s1 \<or>
     (\<exists>b. sfs_bmap p ?fb True s = Some (Inr b, s1) \<and> b \<noteq> 0 \<and> bmap s1 (sv_i w) ?fb = b)"
    using sfs_bmap_alloc [OF ok sv io fb] sv by (auto simp: mapped_def)
  have go: "sfs_bmap p (fileblock_of u) True s = sfs_bmap p ?fb True s" using fileblock_of_eq [OF u(2) fits(4)] by simp
  from m(3) show ?thesis
  proof (elim disjE exE conjE)
    assume a: "sfs_bmap p ?fb True s = Some (Inl ENOSPC, s1)" "{..<nblks s} \<subseteq> usd s1"
    then have "sfs_blockio p (u, s) = Some (Inl ENOSPC, u, s1)" using go fits(2) by (simp add: sfs_blockio_def with_uio_def)
    then show ?thesis unfolding wrote_io_def using sv m(1) a(2) by (auto intro!: exI [of _ 0] simp: uio_next_def)
  next
    fix b assume b: "sfs_bmap p ?fb True s = Some (Inr b, s1)" "b \<noteq> 0" "bmap s1 (sv_i w) ?fb = b"
    note w1 = wrote_at [OF m(1,2)]
    have bn: "b < nblks s1" using inode_okD(2) [OF w1(2) inode_okD(3) [OF w1(2) fb]] b by blast
    note dv = blockio_device [OF w1(1) bn fits(1,5,6)]
    have ld: "length (uio_next 512 u) = SFS_BLOCKSIZE" using length_uio_next [OF fits(1)] by (simp add: SFS_BLOCKSIZE_def)
    have res: "sfs_blockio p (u, s) = Some (Inr (), uio_moved 512 [] u, set_blk b (uio_next 512 u) s1)"
      using go fits(2,5) b dv(1) [OF fits(2)] dv(3) by (simp add: sfs_blockio_def with_uio_def SFS_BLOCKSIZE_def set_blk_def Let_def)
    have "wrote p s (set_blk b (uio_next 512 u) s1) (upd (fbyte s (sv_i v)) off (uio_next 512 u))"
    proof (rule wrote_cong [OF wrote_trans [OF m(1) wrote_block [OF w1(1) m(2) w1(2) fb _ ld, unfolded b(3)]]])
      fix k assume k: "k < SFS_MAXBLOCK * 512"
      have off: "off = ?fb * 512" using u(3) by auto
      have "k div 512 = ?fb \<longleftrightarrow> off \<le> k \<and> k < off + 512" by (rule div_block_iff [OF off])
      moreover have "k mod 512 = k - off" if "k div 512 = ?fb" using that off by (metis minus_div_mult_eq_mod)
      ultimately show "(if k div 512 = ?fb then uio_next 512 u ! (k mod 512) else fbyte s1 (sv_i w) k) = upd (fbyte s (sv_i v)) off (uio_next 512 u) k"
        using w1(3) [OF k] length_uio_next [OF fits(1)] by (simp add: upd_def)
    qed (use b(2) in simp)
    then show ?thesis unfolding wrote_io_def using sv res u(2) by (auto intro!: exI [of _ 512])
  qed
qed

lemma sfs_io_blocks_write:
  assumes "sfs_ok s" "svs s p = Some v" "inode_ok s (sv_i v)" "can_write (n * 512) u" "uio_offset u = int off" "off mod 512 = 0"
  shows "wrote_io p (n * 512) (u, s) (sfs_io_blocks n p (u, s))"
  using assms
proof (induction n arbitrary: u s v off)
  case 0
  then show ?case using wrote_io_done by simp
next
  case (Suc n)
  have cw: "can_write (512 + n * 512) u" using Suc.prems(4) by simp
  have "wrote_io p (512 + n * 512) (u, s) (try_ok (sfs_blockio p (u, s)) (\<lambda>_ us1. sfs_io_blocks n p us1))"
  proof (rule wrote_io_then [OF cw sfs_blockio_write [OF Suc.prems(1-3) can_write_mono [OF cw] Suc.prems(5,6)]])
    fix s1 w assume a: "svs s1 p = Some w" "sfs_ok s1" "inode_ok s1 (sv_i w)"
    show "wrote_io p (n * 512) (uio_moved 512 [] u, s1) (sfs_io_blocks n p (uio_moved 512 [] u, s1))"
      using Suc.prems(5,6) by (intro Suc.IH [OF a(2,1,3) can_write_moved [OF cw], of "off + 512"]) simp_all
  qed simp
  then show ?case by simp
qed

lemma sfs_io_last_write:
  assumes "sfs_ok s" "svs s p = Some v" "inode_ok s (sv_i v)"
    and u: "can_write n u" "uio_resid u = n" "n < 512" "uio_offset u = int off" "off mod 512 = 0"
  shows "wrote_io p n (u, s) (sfs_io_last p (u, s))"
proof (cases "n = 0")
  case True
  then show ?thesis using u(2) wrote_io_done [OF assms(1-3)] by (simp add: sfs_io_last_def SFS_BLOCKSIZE_def)
next
  case False
  then show ?thesis using u sfs_partialio_write [OF assms(1-3) u(1,4), of 0] by (simp add: sfs_io_last_def SFS_BLOCKSIZE_def)
qed

lemma sfs_io_aligned_write:
  assumes st: "sfs_ok s" "svs s p = Some v" "inode_ok s (sv_i v)"
    and u: "can_write n u" "uio_resid u = n" "uio_offset u = int off" "n \<noteq> 0 \<Longrightarrow> off mod 512 = 0"
  shows "wrote_io p n (u, s) (sfs_io_aligned p (u, s))"
proof (cases "n = 0")
  case True
  then show ?thesis using u(2) wrote_io_done [OF st] by (simp add: sfs_io_aligned_def)
next
  case False
  let ?q = "n div 512" and ?r = "n mod 512"
  note al = u(4) [OF False]
  have cw: "can_write (?q * 512 + ?r) u" using u(1) by simp
  have "wrote_io p (?q * 512 + ?r) (u, s) (try_ok (sfs_io_blocks ?q p (u, s)) (\<lambda>_ us1. sfs_io_last p us1))"
  proof (rule wrote_io_then [OF cw sfs_io_blocks_write [OF st can_write_mono [OF cw] u(3) al]])
    fix s2 w2 assume b: "svs s2 p = Some w2" "sfs_ok s2" "inode_ok s2 (sv_i w2)"
    show "wrote_io p ?r (uio_moved (?q * 512) [] u, s2) (sfs_io_last p (uio_moved (?q * 512) [] u, s2))"
      by (rule sfs_io_last_write [OF b(2,1,3) can_write_moved [OF cw], of "off + ?q * 512"])
        (use u(2,3) al in \<open>simp_all add: minus_div_mult_eq_mod\<close>)
  qed simp
  moreover have "uio_offset u smod int SFS_BLOCKSIZE = 0" using u(3) al by (simp add: SFS_BLOCKSIZE_def smod_512)
  ultimately show ?thesis using False u(2) by (simp add: sfs_io_aligned_def SFS_BLOCKSIZE_def)
qed

text \<open>How many bytes of a transfer of \<open>n\<close> bytes lie before the first block boundary.\<close>

definition lead :: "nat \<Rightarrow> nat \<Rightarrow> nat" where
  "lead off n = (if off mod 512 = 0 then 0 else min (512 - off mod 512) n)"

lemma lead_aligned: "lead off n < n \<Longrightarrow> (off + lead off n) mod 512 = 0"
proof -
  assume a: "lead off n < n"
  show ?thesis
  proof (cases "off mod 512 = 0")
    case False
    define q r where "q = off div 512" and "r = off mod 512"
    have qr: "off = q * 512 + r" "r < 512" by (simp_all add: q_def r_def)
    have "lead off n = 512 - r" using a False by (auto simp: lead_def min_def r_def split: if_splits)
    then have "off + lead off n = (q + 1) * 512" unfolding qr(1) using qr(2) by simp
    then show ?thesis by simp
  qed (simp add: lead_def)
qed

lemma sfs_io_body_eq:
  assumes "uio_offset u = int off"
  shows "sfs_io_body p (u, s) = try_ok (if off mod 512 \<noteq> 0 then sfs_partialio p (off mod 512) (lead off (uio_resid u)) (u, s) else Some (Inr (), u, s))
    (\<lambda>_ us1. sfs_io_aligned p us1)"
proof -
  have bo: "nat ((uio_offset u smod int SFS_BLOCKSIZE) mod 2 ^ 32) = off mod 512" using assms by (simp add: SFS_BLOCKSIZE_def smod_512)
  have l0: "nat ((int SFS_BLOCKSIZE - int (off mod 512)) mod 2 ^ 32) = 512 - off mod 512"
  proof -
    have "off mod 512 < 512" by simp
    then have "int SFS_BLOCKSIZE - int (off mod 512) = int (512 - off mod 512)" by (simp add: SFS_BLOCKSIZE_def)
    then show ?thesis by simp
  qed
  have "(if 512 - off mod 512 > uio_resid u then uio_resid u else 512 - off mod 512) = lead off (uio_resid u)" if "off mod 512 \<noteq> 0"
    using that by (auto simp: lead_def)
  then show ?thesis unfolding sfs_io_body_def prod.case Let_def bo l0 by (cases "off mod 512 = 0") simp_all
qed

lemma sfs_io_body_write:
  assumes ok: "sfs_ok s" and sv: "svs s p = Some v" and io: "inode_ok s (sv_i v)"
    and u: "can_write n u" "uio_resid u = n" "0 < n" "uio_offset u = int off"
  shows "wrote_io p n (u, s) (sfs_io_body p (u, s))"
proof -
  let ?l = "lead off n"
  have l: "?l + (n - ?l) = n" by (simp add: lead_def)
  have cw: "can_write (?l + (n - ?l)) u" using u(1) l by simp
  have "wrote_io p ?l (u, s) (if off mod 512 \<noteq> 0 then sfs_partialio p (off mod 512) ?l (u, s) else Some (Inr (), u, s))"
  proof (cases "off mod 512 = 0")
    case True
    then show ?thesis using wrote_io_done [OF ok sv io] by (simp add: lead_def)
  next
    case False
    have "off mod 512 < 512" by simp
    then have "off mod 512 + ?l \<le> 512" "0 < ?l" using False u(3) by (auto simp: lead_def)
    then show ?thesis using False sfs_partialio_write [OF ok sv io can_write_mono [OF cw] u(4) refl] by simp
  qed
  then have "wrote_io p (?l + (n - ?l)) (u, s) (sfs_io_body p (u, s))" unfolding sfs_io_body_eq [OF u(4)] u(2)
  proof (rule wrote_io_then [OF cw])
    fix s1 w assume a: "svs s1 p = Some w" "sfs_ok s1" "inode_ok s1 (sv_i w)"
    show "wrote_io p (n - ?l) (uio_moved ?l [] u, s1) (sfs_io_aligned p (uio_moved ?l [] u, s1))"
      by (rule sfs_io_aligned_write [OF a(2,1,3) can_write_moved [OF cw], of "off + ?l"]) (use u l lead_aligned [of off n] in auto)
  qed
  then show ?thesis using l by simp
qed

text \<open>A change of the contents to \<open>F\<close> and of the size to \<open>sz\<close>.\<close>

definition wrote_sz :: "nat \<Rightarrow> sfs \<Rightarrow> sfs \<Rightarrow> (nat \<Rightarrow> byte) \<Rightarrow> nat \<Rightarrow> bool" where
  "wrote_sz p s s' F sz \<longleftrightarrow> (\<exists>s1 w. wrote p s s1 F \<and> svs s1 p = Some w \<and>
     (s' = s1 \<and> sfi_size (sv_i w) = sz \<or> s' = set_sv p (w\<lparr>sv_i := (sv_i w)\<lparr>sfi_size := sz\<rparr>, sv_dirty := True\<rparr>) s1))"

lemma sfs_io_write:
  assumes ok: "sfs_ok s" and sv: "svs s p = Some v" and io: "inode_ok s (sv_i v)" and sz: "sfi_size (sv_i v) < 2 ^ 31"
    and u: "can_write n u" "uio_resid u = n" "0 < n" "uio_offset u = int off"
  shows "\<exists>m res s'. sfs_io p (u, s) = Some (res, uio_moved m [] u, s') \<and> m \<le> n \<and>
    (res = Inr () \<and> m = n \<or> res = Inl ENOSPC \<and> m < n \<and> {..<nblks s} \<subseteq> usd s') \<and>
    wrote_sz p s s' (upd (fbyte s (sv_i v)) off (uio_next m u)) (max (sfi_size (sv_i v)) (off + m))"
proof -
  have fits: "uio_fits n u" "uio_rw u = UIO_WRITE" "off + n < 2 ^ 31" "n < 2 ^ 32" using u by (auto simp: can_write_def uio_fits_def)
  obtain m res s1 where a: "sfs_io_body p (u, s) = Some (res, uio_moved m [] u, s1)" "m \<le> n"
    "wrote p s s1 (upd (fbyte s (sv_i v)) off (uio_next m u))" "res = Inr () \<and> m = n \<or> res = Inl ENOSPC \<and> m < n \<and> {..<nblks s} \<subseteq> usd s1"
    using sfs_io_body_write [OF ok sv io u] sv u(4) by (auto simp: wrote_io_def)
  obtain v' w where w: "svs s p = Some v'" "svs s1 p = Some w" "same_meta v' w" using wroteD [OF a(3)] by metis
  then have sw: "sfi_size (sv_i w) = sfi_size (sv_i v)" using sv by (simp add: same_meta_def)
  let ?s' = "if off + m > sfi_size (sv_i v) then set_sv p (w\<lparr>sv_i := (sv_i w)\<lparr>sfi_size := off + m\<rparr>, sv_dirty := True\<rparr>) s1 else s1"
  have ur: "u\<lparr>uio_resid := uio_resid u\<rparr> = u" "uio_moved m [] u\<lparr>uio_resid := uio_resid u - m\<rparr> = uio_moved m [] u" by (simp_all add: uio_moved_def)
  have wz: "wrap32 (int (sfi_size (sv_i v))) = int (sfi_size (sv_i v))" using sz by (intro wrap32_id) auto
  have "sfs_io_out p 0 (res, uio_moved m [] u, s1) = Some (res, uio_moved m [] u, ?s')"
    using w(2) sw wz fits(2,3,4) a(2) u(2,4) ur by (auto simp: sfs_io_out_def set_inode_def nat_add_distrib)
  then have "sfs_io p (u, s) = Some (res, uio_moved m [] u, ?s')" using sv fits(2) a(1) ur by (simp add: sfs_io_def Let_def)
  moreover have "usd ?s' = usd s1" by simp
  moreover have "wrote_sz p s ?s' (upd (fbyte s (sv_i v)) off (uio_next m u)) (max (sfi_size (sv_i v)) (off + m))"
    unfolding wrote_sz_def using a(3) w(2) sw by (intro exI [of _ s1] exI [of _ w]) (auto simp: max_def)
  ultimately show ?thesis using a(2,4) by (intro exI [of _ m] exI [of _ res] exI [of _ ?s']) simp
qed

text \<open>The state after a write, whether or not the size was changed.\<close>

lemma wrote_szD:
  assumes sz: "wrote_sz p s s' F sz" "sz < 2 ^ 32" and sv: "svs s p = Some v"
  obtains w where "svs s' p = Some w" "sfs_ok s'" "inode_ok s' (sv_i w)" "sfi_type (sv_i w) = sfi_type (sv_i v)" "sfi_size (sv_i w) = sz"
    "\<And>k. k < SFS_MAXBLOCK * 512 \<Longrightarrow> fbyte s' (sv_i w) k = F k"
    "inode_blocks s (sv_i v) \<subseteq> inode_blocks s' (sv_i w)" "usd s' = usd s \<union> inode_blocks s' (sv_i w)"
    "(inode_blocks s' (sv_i w) - inode_blocks s (sv_i v)) \<inter> usd s = {}"
    "\<And>b. b \<in> usd s \<Longrightarrow> b \<notin> inode_blocks s (sv_i v) \<Longrightarrow> blk s' b = blk s b"
    "\<And>q. q \<noteq> p \<Longrightarrow> svs s' q = svs s q" "sfs_superblk s' = sfs_superblk s"
proof -
  obtain s1 w1 where w1: "wrote p s s1 F" "svs s1 p = Some w1"
    "s' = s1 \<and> sfi_size (sv_i w1) = sz \<or> s' = set_sv p (w1\<lparr>sv_i := (sv_i w1)\<lparr>sfi_size := sz\<rparr>, sv_dirty := True\<rparr>) s1"
    using sz(1) by (auto simp: wrote_sz_def)
  obtain v' w' where a: "svs s p = Some v'" "svs s1 p = Some w'" "same_meta v' w'" "inode_ok s1 (sv_i w')"
    "\<And>k. k < SFS_MAXBLOCK * 512 \<Longrightarrow> fbyte s1 (sv_i w') k = F k" "sfs_ok s1"
    "inode_blocks s (sv_i v') \<subseteq> inode_blocks s1 (sv_i w')" "usd s1 = usd s \<union> inode_blocks s1 (sv_i w')"
    "(inode_blocks s1 (sv_i w') - inode_blocks s (sv_i v')) \<inter> usd s = {}"
    "\<And>b. b \<in> usd s \<Longrightarrow> b \<notin> inode_blocks s (sv_i v') \<Longrightarrow> blk s1 b = blk s b"
    "\<And>q. q \<noteq> p \<Longrightarrow> svs s1 q = svs s q" "sfs_superblk s1 = sfs_superblk s" by (rule wroteD [OF w1(1)]) blast
  have eq: "v' = v" "w' = w1" using a(1,2) sv w1(2) by simp_all
  note a = a [unfolded eq]
  have ty: "sfi_type (sv_i w1) = sfi_type (sv_i v)" using a(3) by (simp add: same_meta_def)
  let ?i = "(sv_i w1)\<lparr>sfi_size := sz\<rparr>"
  have bm: "bmap s1 ?i = bmap s1 (sv_i w1)" by (simp add: bmap_def id_words_def fun_eq_iff)
  have ib: "inode_blocks s1 ?i = inode_blocks s1 (sv_i w1)" "fbyte s1 ?i = fbyte s1 (sv_i w1)"
    by (simp_all add: inode_blocks_def fbyte_def fun_eq_iff bm)
  have io: "inode_ok s1 ?i" using a(4) sz(2) by (simp add: inode_ok_def ib inode_fits_def bm)
  from w1(3) show thesis
  proof (elim disjE conjE)
    assume "s' = s1" "sfi_size (sv_i w1) = sz"
    then show thesis using a ty by (intro that [of w1]) auto
  next
    assume "s' = set_sv p (w1\<lparr>sv_i := ?i, sv_dirty := True\<rparr>) s1"
    then show thesis using a ty io by (intro that [of "w1\<lparr>sv_i := ?i, sv_dirty := True\<rparr>"]) (auto simp: ib)
  qed
qed

section \<open>Reading\<close>

definition fbytes :: "sfs \<Rightarrow> sfs_inode \<Rightarrow> nat \<Rightarrow> nat \<Rightarrow> byte list" where
  "fbytes s i off n = map (fbyte s i) [off..<off + n]"

lemma length_fbytes [simp]: "length (fbytes s i off n) = n"
  by (simp add: fbytes_def)

lemma fbytes_add: "fbytes s i off (m + n) = fbytes s i off m @ fbytes s i (off + m) n"
  using upt_add_eq_append [of off "off + m" n] by (simp add: fbytes_def add.assoc)

definition can_read :: "nat \<Rightarrow> uio \<Rightarrow> bool" where
  "can_read n u \<longleftrightarrow> uio_fits n u \<and> uio_rw u = UIO_READ \<and> nat (uio_offset u) + n \<le> SFS_MAXBLOCK * 512"

lemma can_read_mono: "can_read n u \<Longrightarrow> m \<le> n \<Longrightarrow> can_read m u"
  by (auto simp: can_read_def uio_fits_def)

lemma can_read_moved: "can_read (m + n) u \<Longrightarrow> length xs = m \<Longrightarrow> can_read n (uio_moved m xs u)"
  using uio_fits_moved [of m n u xs] by (auto simp: can_read_def)

text \<open>Bytes of one block of the file.\<close>

lemma fbytes_block:
  assumes "skip = off mod 512" "skip + n \<le> 512"
  shows "fbytes s i off n = (let b = bmap s i (off div 512) in if b = 0 then replicate n 0 else map (\<lambda>k. blk s b ! (skip + k)) [0..<n])"
proof (rule nth_equalityI)
  fix k assume k: "k < length (fbytes s i off n)"
  have "off = off div 512 * 512 + skip" using assms(1) by simp
  then have e: "off + k = off div 512 * 512 + (skip + k)" by simp
  have "skip + k < 512" using k assms(2) by simp
  then have "(off + k) div 512 = off div 512" "(off + k) mod 512 = skip + k" unfolding e by simp_all
  then show "fbytes s i off n ! k = (let b = bmap s i (off div 512) in if b = 0 then replicate n 0 else map (\<lambda>k. blk s b ! (skip + k)) [0..<n]) ! k"
    using k by (simp add: fbytes_def fbyte_def Let_def)
qed (simp add: Let_def)

lemma take_drop_map: "i + n \<le> length xs \<Longrightarrow> take n (drop i xs) = map (\<lambda>k. xs ! (i + k)) [0..<n]"
  by (intro nth_equalityI) simp_all

lemma sfs_partialio_read:
  assumes ok: "sfs_ok s" and sv: "svs s p = Some v" and io: "inode_ok s (sv_i v)"
    and u: "can_read len u" "uio_offset u = int off" and len: "skip = off mod 512" "skip + len \<le> 512" "0 < len"
  shows "sfs_partialio p skip len (u, s) = Some (Inr (), uio_moved len (fbytes s (sv_i v) off len) u, s)"
proof -
  have fits: "uio_fits len u" "uio_rw u = UIO_READ" "off + len \<le> SFS_MAXBLOCK * 512" "off < 2 ^ 31"
    using u by (auto simp: can_read_def uio_fits_def)
  let ?fb = "off div 512" let ?b = "bmap s (sv_i v) ?fb"
  have fb: "?fb < SFS_MAXBLOCK" using fits(3) len(3) by (simp add: less_mult_imp_div_less)
  have go: "sfs_bmap p (fileblock_of u) False s = Some (Inr ?b, s)"
    using fileblock_of_eq [OF u(2) fits(4)] sfs_bmap_read [OF ok sv io fb] by simp
  have ass: "(skip + len) mod 2 ^ 32 \<le> SFS_BLOCKSIZE" using len by (simp add: SFS_BLOCKSIZE_def)
  note fbb = fbytes_block [OF len(1,2), of s "sv_i v"]
  show ?thesis
  proof (cases "?b = 0")
    case True
    have "uiomove (replicate SFS_BLOCKSIZE 0) skip len u = Some (Inr (), replicate SFS_BLOCKSIZE 0, uio_moved len (replicate len 0) u)"
      using uiomove_read [OF fits(1,2), of skip "replicate SFS_BLOCKSIZE 0"] len(2) by (simp add: SFS_BLOCKSIZE_def)
    then show ?thesis using True go fits(2) ass fbb by (simp add: sfs_partialio_def with_uio_def)
  next
    case False
    then have bn: "?b < nblks s" using inode_okD(2) [OF io inode_okD(3) [OF io fb]] by blast
    have lb: "length (blk s ?b) = 512" using length_blk [OF ok bn] by (simp add: SFS_BLOCKSIZE_def)
    have "uiomove (blk s ?b) skip len u = Some (Inr (), blk s ?b, uio_moved len (fbytes s (sv_i v) off len) u)"
      using uiomove_read [OF fits(1,2), of skip "blk s ?b"] lb len(2) take_drop_map [of skip len "blk s ?b"] fbb False by (simp add: Let_def)
    then show ?thesis using False go fits(2) ass rblock_good [OF ok bn] by (simp add: sfs_partialio_def with_uio_def)
  qed
qed

lemma sfs_blockio_read:
  assumes ok: "sfs_ok s" and sv: "svs s p = Some v" and io: "inode_ok s (sv_i v)"
    and u: "can_read 512 u" "uio_offset u = int off" "off mod 512 = 0"
  shows "sfs_blockio p (u, s) = Some (Inr (), uio_moved 512 (fbytes s (sv_i v) off 512) u, s)"
proof -
  have fits: "uio_fits 512 u" "uio_rw u = UIO_READ" "off + 512 \<le> SFS_MAXBLOCK * 512" "off < 2 ^ 31" "512 \<le> uio_resid u" "uio_resid u < 2 ^ 32"
    using u by (auto simp: can_read_def uio_fits_def)
  let ?fb = "off div 512" let ?b = "bmap s (sv_i v) ?fb"
  have fb: "?fb < SFS_MAXBLOCK" using fits(3) by (simp add: less_mult_imp_div_less)
  have go: "sfs_bmap p (fileblock_of u) False s = Some (Inr ?b, s)"
    using fileblock_of_eq [OF u(2) fits(4)] sfs_bmap_read [OF ok sv io fb] by simp
  note fbb = fbytes_block [of 0 off 512 s "sv_i v"]
  show ?thesis
  proof (cases "?b = 0")
    case True
    then show ?thesis using go fits(2) uiomovezeros_fits [OF fits(1,2)] fbb u(3) by (simp add: sfs_blockio_def with_uio_def SFS_BLOCKSIZE_def)
  next
    case False
    then have bn: "?b < nblks s" using inode_okD(2) [OF io inode_okD(3) [OF io fb]] by blast
    have lb: "length (blk s ?b) = 512" using length_blk [OF ok bn] by (simp add: SFS_BLOCKSIZE_def)
    note dv = blockio_device [OF ok bn fits(1,5,6)]
    have "fbytes s (sv_i v) off 512 = blk s ?b" using fbb False u(3) lb by (simp add: Let_def map_nth [of "blk s ?b", unfolded lb])
    then show ?thesis using go fits(2,5) False dv(2) [OF fits(2)] dv(3)
      by (simp add: sfs_blockio_def with_uio_def SFS_BLOCKSIZE_def Let_def)
  qed
qed

lemma read_moved:
  assumes "can_read (m + n) u" "uio_offset u = int off"
  shows "uio_moved n (fbytes s i (off + m) n) (uio_moved m (fbytes s i off m) u) = uio_moved (m + n) (fbytes s i off (m + n)) u"
  using assms by (subst uio_moved_moved) (simp_all add: can_read_def fbytes_add)

lemma sfs_io_blocks_read:
  assumes st: "sfs_ok s" "svs s p = Some v" "inode_ok s (sv_i v)" and u: "can_read (n * 512) u" "uio_offset u = int off" "off mod 512 = 0"
  shows "sfs_io_blocks n p (u, s) = Some (Inr (), uio_moved (n * 512) (fbytes s (sv_i v) off (n * 512)) u, s)"
  using u
proof (induction n arbitrary: u off)
  case 0
  then show ?case by (simp add: fbytes_def)
next
  case (Suc n)
  have cr: "can_read (512 + n * 512) u" using Suc.prems(1) by simp
  let ?u = "uio_moved 512 (fbytes s (sv_i v) off 512) u"
  have "sfs_io_blocks n p (?u, s) = Some (Inr (), uio_moved (n * 512) (fbytes s (sv_i v) (off + 512) (n * 512)) ?u, s)"
    using Suc.prems(2,3) by (intro Suc.IH can_read_moved [OF cr]) simp_all
  then show ?case using sfs_blockio_read [OF st can_read_mono [OF cr] Suc.prems(2,3)] read_moved [OF cr Suc.prems(2), of s "sv_i v"]
    by (simp add: add.commute)
qed

lemma sfs_io_last_read:
  assumes "sfs_ok s" "svs s p = Some v" "inode_ok s (sv_i v)"
    and u: "can_read n u" "uio_resid u = n" "n < 512" "uio_offset u = int off" "off mod 512 = 0"
  shows "sfs_io_last p (u, s) = Some (Inr (), uio_moved n (fbytes s (sv_i v) off n) u, s)"
  using u sfs_partialio_read [OF assms(1-3) u(1,4), of 0]
  by (cases "n = 0") (simp_all add: sfs_io_last_def SFS_BLOCKSIZE_def fbytes_def)

lemma sfs_io_aligned_read:
  assumes st: "sfs_ok s" "svs s p = Some v" "inode_ok s (sv_i v)"
    and u: "can_read n u" "uio_resid u = n" "uio_offset u = int off" "n \<noteq> 0 \<Longrightarrow> off mod 512 = 0"
  shows "sfs_io_aligned p (u, s) = Some (Inr (), uio_moved n (fbytes s (sv_i v) off n) u, s)"
proof (cases "n = 0")
  case True
  then show ?thesis using u(2) by (simp add: sfs_io_aligned_def fbytes_def)
next
  case False
  let ?q = "n div 512" and ?r = "n mod 512"
  note al = u(4) [OF False]
  have cr: "can_read (?q * 512 + ?r) u" using u(1) by simp
  let ?u = "uio_moved (?q * 512) (fbytes s (sv_i v) off (?q * 512)) u"
  have "sfs_io_last p (?u, s) = Some (Inr (), uio_moved ?r (fbytes s (sv_i v) (off + ?q * 512) ?r) ?u, s)"
    by (rule sfs_io_last_read [OF st can_read_moved [OF cr]]) (use u(2,3) al in \<open>simp_all add: minus_div_mult_eq_mod\<close>)
  moreover have "sfs_io_blocks ?q p (u, s) = Some (Inr (), ?u, s)" by (rule sfs_io_blocks_read [OF st can_read_mono [OF cr] u(3) al]) simp
  moreover have "uio_offset u smod int SFS_BLOCKSIZE = 0" using u(3) al by (simp add: SFS_BLOCKSIZE_def smod_512)
  ultimately show ?thesis using False u(2) read_moved [OF cr u(3), of s "sv_i v"] by (simp add: sfs_io_aligned_def SFS_BLOCKSIZE_def)
qed

lemma sfs_io_body_read:
  assumes st: "sfs_ok s" "svs s p = Some v" "inode_ok s (sv_i v)"
    and u: "can_read n u" "uio_resid u = n" "0 < n" "uio_offset u = int off"
  shows "sfs_io_body p (u, s) = Some (Inr (), uio_moved n (fbytes s (sv_i v) off n) u, s)"
proof -
  let ?l = "lead off n"
  have l: "?l + (n - ?l) = n" by (simp add: lead_def)
  have cr: "can_read (?l + (n - ?l)) u" using u(1) l by simp
  let ?u = "uio_moved ?l (fbytes s (sv_i v) off ?l) u"
  have "(if off mod 512 \<noteq> 0 then sfs_partialio p (off mod 512) ?l (u, s) else Some (Inr (), u, s)) = Some (Inr (), ?u, s)"
  proof (cases "off mod 512 = 0")
    case True
    then show ?thesis by (simp add: lead_def fbytes_def)
  next
    case False
    have "off mod 512 < 512" by simp
    then have "off mod 512 + ?l \<le> 512" "0 < ?l" using False u(3) by (auto simp: lead_def)
    then show ?thesis using False sfs_partialio_read [OF st can_read_mono [OF cr] u(4) refl] by simp
  qed
  moreover have "sfs_io_aligned p (?u, s) = Some (Inr (), uio_moved (n - ?l) (fbytes s (sv_i v) (off + ?l) (n - ?l)) ?u, s)"
    by (rule sfs_io_aligned_read [OF st can_read_moved [OF cr]]) (use u l lead_aligned [of off n] in auto)
  ultimately show ?thesis unfolding sfs_io_body_eq [OF u(4)] u(2) using read_moved [OF cr u(4), of s "sv_i v"] l by simp
qed

text \<open>A read gives the bytes up to the end of the file.\<close>

lemma sfs_io_read:
  assumes st: "sfs_ok s" "svs s p = Some v" "inode_ok s (sv_i v)" and sz: "sfi_size (sv_i v) \<le> SFS_MAXBLOCK * 512"
    and u: "uio_fits (uio_resid u) u" "uio_rw u = UIO_READ" "uio_offset u = int off" "0 < uio_resid u"
    and n: "n = min (uio_resid u) (sfi_size (sv_i v) - off)"
  shows "sfs_io p (u, s) = Some (Inr (), uio_moved n (fbytes s (sv_i v) off n) u, s)"
proof -
  let ?size = "sfi_size (sv_i v)" let ?r = "uio_resid u"
  have b: "off + ?r < 2 ^ 31" "?r < 2 ^ 32" "?size < 2 ^ 31" using u sz by (auto simp: uio_fits_def sfs_sizes)
  have wz: "wrap32 (int ?size) = int ?size" "wrap32 (int off + int ?r) = int off + int ?r" using b by (simp_all add: wrap32_id)
  show ?thesis
  proof (cases "off \<ge> ?size")
    case True
    then show ?thesis using st(2) u(2,3) wz(1) n by (simp add: sfs_io_def fbytes_def)
  next
    case lt: False
    let ?ex = "?r - n"
    have ex: "(if int ?size < int off + int ?r then nat (wrap32 (uio_offset u + int ?r) - wrap32 (int ?size)) else 0) = ?ex"
      using lt n u(3) wz by auto
    have pos: "?ex = 0 \<or> ?r > ?ex" using lt n by auto
    let ?u = "u\<lparr>uio_resid := n\<rparr>"
    have n0: "0 < n" "n \<le> ?r" "off + n \<le> ?size" using lt u(4) n by auto
    have cr: "can_read n ?u" using u n0 sz by (auto simp: can_read_def uio_fits_def)
    have body: "sfs_io_body p (?u, s) = Some (Inr (), uio_moved n (fbytes s (sv_i v) off n) ?u, s)"
      using u(3) by (intro sfs_io_body_read [OF st cr _ n0(1)]) simp_all
    have "sfs_io_out p ?ex (Inr (), uio_moved n (fbytes s (sv_i v) off n) ?u, s) = Some (Inr (), uio_moved n (fbytes s (sv_i v) off n) u, s)"
      using st(2) u(2) b(2) n0(2) by (cases u) (simp add: sfs_io_out_def uio_moved_def)
    then show ?thesis using st(2) u(2,3) wz lt pos body n0(2) by (simp add: sfs_io_def Let_def ex split del: if_split)
  qed
qed

end
