(* ===== verification/Sfs_Dir.thy ===== *)
theory Sfs_Dir
  imports Sfs_File
begin

text \<open>
  Directories of SFS as lists of entries: what \<^verbatim>\<open>sfs_dir_findname\<close> finds, and what \<^verbatim>\<open>sfs_dir_link\<close> and
  \<^verbatim>\<open>sfs_dir_unlink\<close> change.
\<close>

section \<open>Entries\<close>

definition entry :: "sfs \<Rightarrow> sfs_inode \<Rightarrow> nat \<Rightarrow> sfs_dir" where
  "entry s i k = dir_of (fbytes s i (k * 64) 64)"

definition nslots :: "sfs_inode \<Rightarrow> nat" where
  "nslots i = sfi_size i div 64"

definition has_name :: "sfs \<Rightarrow> sfs_inode \<Rightarrow> byte list \<Rightarrow> nat \<Rightarrow> bool" where
  "has_name s i name k \<longleftrightarrow> sfd_ino (entry s i k) \<noteq> SFS_NOINO \<and> entry_name (entry s i k) = name"

text \<open>A directory: whole entries, and no name twice.\<close>

definition dir_ok :: "sfs \<Rightarrow> sfs_inode \<Rightarrow> bool" where
  "dir_ok s i \<longleftrightarrow> sfi_type i = SFS_TYPE_DIR \<and> sfi_size i mod 64 = 0 \<and> sfi_size i \<le> SFS_MAXBLOCK * 512 \<and>
     (\<forall>name j k. j < nslots i \<longrightarrow> k < nslots i \<longrightarrow> has_name s i name j \<longrightarrow> has_name s i name k \<longrightarrow> j = k)"

definition lookup_name :: "sfs \<Rightarrow> sfs_inode \<Rightarrow> byte list \<Rightarrow> (nat \<times> nat) option" where
  "lookup_name s i name = map_option (\<lambda>k. (sfd_ino (entry s i k), k)) (find (has_name s i name) [0..<nslots i])"

definition free_slot :: "sfs \<Rightarrow> sfs_inode \<Rightarrow> nat option" where
  "free_slot s i = find (\<lambda>k. sfd_ino (entry s i k) = SFS_NOINO) (rev [0..<nslots i])"

lemma find_append: "find P (xs @ ys) = (case find P xs of None \<Rightarrow> find P ys | Some x \<Rightarrow> Some x)"
  by (induction xs) simp_all

lemma sfs_readdir_eq:
  assumes st: "sfs_ok s" "svs s p = Some v" "inode_ok s (sv_i v)" and d: "dir_ok s (sv_i v)" and k: "k < nslots (sv_i v)"
  shows "sfs_readdir p k s = Some (Inr (entry s (sv_i v) k), s)"
proof -
  let ?u = "mk_kuio (replicate 64 0) 64 (int (k * 64)) UIO_READ"
  have sz: "sfi_size (sv_i v) \<le> SFS_MAXBLOCK * 512" "k * 64 + 64 \<le> sfi_size (sv_i v)"
  proof -
    show "sfi_size (sv_i v) \<le> SFS_MAXBLOCK * 512" using d by (simp add: dir_ok_def)
    have "Suc k * 64 \<le> nslots (sv_i v) * 64" using k by (intro mult_le_mono1) simp
    also have "\<dots> \<le> sfi_size (sv_i v)" by (simp add: nslots_def)
    finally show "k * 64 + 64 \<le> sfi_size (sv_i v)" by simp
  qed
  have wr: "wrap32 (int k * 64) = int k * 64" using sz by (intro wrap32_id) (simp_all add: sfs_sizes)
  have fits: "uio_fits (uio_resid ?u) ?u" using sz by (simp add: uio_fits_def sfs_sizes)
  have "sfs_io p (?u, s) = Some (Inr (), uio_moved 64 (fbytes s (sv_i v) (k * 64) 64) ?u, s)"
    using sz(2) by (intro sfs_io_read [OF st sz(1) fits]) simp_all
  moreover have "uio_mem (uio_moved 64 (fbytes s (sv_i v) (k * 64) 64) ?u) = fbytes s (sv_i v) (k * 64) 64"
    by (simp add: uio_moved_def splice_all)
  ultimately show ?thesis by (simp add: sfs_readdir_def wr entry_def)
qed

lemma sfs_dir_nentries_eq: "svs s p = Some v \<Longrightarrow> dir_ok s (sv_i v) \<Longrightarrow> sfs_dir_nentries p s = Some (nslots (sv_i v))"
  by (simp add: sfs_dir_nentries_def dir_ok_def nslots_def)

text \<open>The loop, when the name is not found before slot \<open>i\<close>.\<close>

lemma findname_loop_eq:
  assumes st: "sfs_ok s" "svs s p = Some v" "inode_ok s (sv_i v)" and d: "dir_ok s (sv_i v)"
    and n: "i + n = nslots (sv_i v)" and f: "found = map_option (\<lambda>k. (sfd_ino (entry s (sv_i v) k), k)) (find (has_name s (sv_i v) name) [0..<i])"
    and e: "empt = find (\<lambda>k. sfd_ino (entry s (sv_i v) k) = SFS_NOINO) (rev [0..<i])"
  shows "findname_loop n i p name found empt s = Some (Inr (lookup_name s (sv_i v) name, free_slot s (sv_i v)), s)"
  using n f e
proof (induction n arbitrary: i found empt)
  case 0
  then show ?case by (simp add: lookup_name_def free_slot_def)
next
  case (Suc n)
  let ?e = "entry s (sv_i v) i" and ?h = "has_name s (sv_i v) name"
  have rd: "sfs_readdir p i s = Some (Inr ?e, s)" using Suc.prems(1) by (intro sfs_readdir_eq [OF st d]) simp
  have app: "find ?h [0..<Suc i] = (case find ?h [0..<i] of None \<Rightarrow> if ?h i then Some i else None | Some k \<Rightarrow> Some k)"
    by (simp add: find_append split: option.splits)
  have IH: "findname_loop n (Suc i) p name found' empt' s = Some (Inr (lookup_name s (sv_i v) name, free_slot s (sv_i v)), s)"
    if "found' = map_option (\<lambda>k. (sfd_ino (entry s (sv_i v) k), k)) (find ?h [0..<Suc i])"
      "empt' = find (\<lambda>k. sfd_ino (entry s (sv_i v) k) = SFS_NOINO) (rev [0..<Suc i])" for found' empt'
    using Suc.IH [of "Suc i" found' empt'] Suc.prems(1) that by simp
  show ?case
  proof (cases "?h i")
    case True
    have "find ?h [0..<i] = None"
    proof (rule ccontr)
      assume "find ?h [0..<i] \<noteq> None"
      then obtain k where "k < i" "?h k" by (auto simp: find_None_iff)
      then have "k = i" using d True Suc.prems(1) unfolding dir_ok_def by (metis add_Suc_right less_add_Suc1 order.strict_trans)
      then show False using \<open>k < i\<close> by simp
    qed
    moreover have "sfd_ino ?e \<noteq> SFS_NOINO" "entry_name ?e = name" using True by (simp_all add: has_name_def)
    ultimately show ?thesis using rd True Suc.prems(2,3) IH app by simp
  next
    case False
    then have "\<not> (sfd_ino ?e \<noteq> SFS_NOINO \<and> entry_name ?e = name)" by (simp add: has_name_def)
    moreover have "find ?h [0..<Suc i] = find ?h [0..<i]" using app False by (simp split: option.splits)
    ultimately show ?thesis using rd Suc.prems(2,3) IH by auto
  qed
qed

lemma sfs_dir_findname_eq:
  assumes "sfs_ok s" "svs s p = Some v" "inode_ok s (sv_i v)" "dir_ok s (sv_i v)"
  shows "sfs_dir_findname p name s = Some (Inr (lookup_name s (sv_i v) name, free_slot s (sv_i v)), s)"
  using findname_loop_eq [OF assms, of 0 "nslots (sv_i v)" None name None] sfs_dir_nentries_eq [OF assms(2,4)]
  by (simp add: sfs_dir_findname_def)

section \<open>Writing an entry\<close>

text \<open>The directory after slot \<open>k\<close> has been replaced.\<close>

definition entry_set :: "nat \<Rightarrow> nat \<Rightarrow> sfs_dir \<Rightarrow> sfs \<Rightarrow> sfs \<Rightarrow> bool" where
  "entry_set p k sd s s' \<longleftrightarrow> (\<exists>v w. svs s p = Some v \<and> svs s' p = Some w \<and> sfs_ok s' \<and> inode_ok s' (sv_i w) \<and>
     sfi_type (sv_i w) = sfi_type (sv_i v) \<and> sfi_size (sv_i w) = max (sfi_size (sv_i v)) (k * 64 + 64) \<and>
     (\<forall>j. j * 64 + 64 \<le> SFS_MAXBLOCK * 512 \<longrightarrow> entry s' (sv_i w) j = (if j = k then sd else entry s (sv_i v) j)) \<and>
     (\<forall>q. q \<noteq> p \<longrightarrow> svs s' q = svs s q))"

lemma sfs_writedir_spec:
  assumes st: "sfs_ok s" "svs s p = Some v" "inode_ok s (sv_i v)" and sz: "sfi_size (sv_i v) \<le> SFS_MAXBLOCK * 512"
    and sd: "dir_fits sd" and k: "k * 64 + 64 \<le> SFS_MAXBLOCK * 512"
  shows "\<exists>res s'. sfs_writedir p sd k s = Some (res, s') \<and>
    (res = Inr () \<and> entry_set p k sd s s' \<or> res = Inl ENOSPC \<and> {..<nblks s} \<subseteq> usd s')"
proof -
  let ?u = "mk_kuio (dir_bytes sd) 64 (int (k * 64)) UIO_WRITE"
  have l: "length (dir_bytes sd) = 64" by (rule length_dir_bytes [OF sd])
  have wr: "wrap32 (int k * 64) = int k * 64" using k by (intro wrap32_id) (simp_all add: sfs_sizes)
  have cw: "can_write 64 ?u" using k l by (simp add: can_write_def uio_fits_def sfs_sizes nat_mult_distrib)
  have szb: "sfi_size (sv_i v) < 2 ^ 31" using sz by (simp add: sfs_sizes)
  obtain m res s' where a: "sfs_io p (?u, s) = Some (res, uio_moved m [] ?u, s')" "m \<le> 64"
    "res = Inr () \<and> m = 64 \<or> res = Inl ENOSPC \<and> m < 64 \<and> {..<nblks s} \<subseteq> usd s'"
    "wrote_sz p s s' (upd (fbyte s (sv_i v)) (k * 64) (uio_next m ?u)) (max (sfi_size (sv_i v)) (k * 64 + m))"
    using sfs_io_write [OF st szb cw, of "k * 64"] by (auto simp del: of_nat_mult)
  show ?thesis
  proof (cases "res = Inr ()")
    case False
    then show ?thesis using a by (auto simp: sfs_writedir_def wr)
  next
    case True
    then have m: "m = 64" using a(3) by auto
    have nx: "uio_next 64 ?u = dir_bytes sd" using l by (simp add: uio_next_def)
    have szm: "max (sfi_size (sv_i v)) (k * 64 + 64) < 2 ^ 32" using sz k by (simp add: sfs_sizes)
    obtain x where x: "svs s' p = Some x" "sfs_ok s'" "inode_ok s' (sv_i x)" "sfi_type (sv_i x) = sfi_type (sv_i v)"
      "sfi_size (sv_i x) = max (sfi_size (sv_i v)) (k * 64 + 64)" "\<And>j. j < SFS_MAXBLOCK * 512 \<Longrightarrow> fbyte s' (sv_i x) j = upd (fbyte s (sv_i v)) (k * 64) (dir_bytes sd) j"
      "\<And>q. q \<noteq> p \<Longrightarrow> svs s' q = svs s q"
      by (rule wrote_szD [OF a(4) [unfolded m nx] szm st(2)]) blast
    have "entry s' (sv_i x) j = (if j = k then sd else entry s (sv_i v) j)" if j: "j * 64 + 64 \<le> SFS_MAXBLOCK * 512" for j
    proof -
      have "fbytes s' (sv_i x) (j * 64) 64 = (if j = k then dir_bytes sd else fbytes s (sv_i v) (j * 64) 64)"
      proof (rule nth_equalityI)
        fix n assume "n < length (fbytes s' (sv_i x) (j * 64) 64)"
        then have n: "n < 64" by simp
        then have "j * 64 + n < SFS_MAXBLOCK * 512" using j by simp
        moreover have "j = k \<longleftrightarrow> k * 64 \<le> j * 64 + n \<and> j * 64 + n < k * 64 + 64" using n by (cases j k rule: linorder_cases) auto
        ultimately show "fbytes s' (sv_i x) (j * 64) 64 ! n = (if j = k then dir_bytes sd else fbytes s (sv_i v) (j * 64) 64) ! n"
          using n x(6) l by (auto simp: fbytes_def upd_def)
      qed (simp add: l)
      then show ?thesis using dir_of_bytes [OF sd] by (simp add: entry_def)
    qed
    then have "entry_set p k sd s s'" unfolding entry_set_def using x st(2) by blast
    then show ?thesis using True a(1) m by (simp add: sfs_writedir_def wr)
  qed
qed

lemma lookup_name_iff:
  assumes "dir_ok s i"
  shows "lookup_name s i name = Some (ino, k) \<longleftrightarrow> k < nslots i \<and> has_name s i name k \<and> ino = sfd_ino (entry s i k)"
proof (cases "find (has_name s i name) [0..<nslots i]")
  case None
  then have "\<not> (k < nslots i \<and> has_name s i name k)" by (auto simp: find_None_iff)
  then show ?thesis using None by (auto simp: lookup_name_def)
next
  case (Some j)
  then have j: "j < nslots i" "has_name s i name j" by (auto simp: find_Some_iff)
  then have "k = j" if "k < nslots i" "has_name s i name k" using assms that unfolding dir_ok_def by blast
  then show ?thesis using Some j by (auto simp: lookup_name_def)
qed

lemma lookup_name_None: "lookup_name s i name = None \<longleftrightarrow> (\<forall>k < nslots i. \<not> has_name s i name k)"
  by (auto simp: lookup_name_def find_None_iff)

text \<open>What replacing slot \<open>k\<close> does to the names.\<close>

lemma entry_set_names:
  assumes d: "dir_ok s (sv_i v)" and sv: "svs s p = Some v" "svs s' p = Some w" and e: "entry_set p k sd s s'"
    and k: "k \<le> nslots (sv_i v)" "k * 64 + 64 \<le> SFS_MAXBLOCK * 512"
    and new: "sfd_ino sd \<noteq> SFS_NOINO \<Longrightarrow> lookup_name s (sv_i v) (entry_name sd) = None"
  shows "dir_ok s' (sv_i w)"
    "lookup_name s' (sv_i w) name = (if sfd_ino sd \<noteq> SFS_NOINO \<and> entry_name sd = name then Some (sfd_ino sd, k)
       else case lookup_name s (sv_i v) name of None \<Rightarrow> None | Some (ino, j) \<Rightarrow> if j = k then None else Some (ino, j))"
proof -
  let ?i = "sv_i v" and ?i' = "sv_i w"
  have sz: "sfi_size ?i = nslots ?i * 64" "sfi_size ?i \<le> SFS_MAXBLOCK * 512" using d by (auto simp: dir_ok_def nslots_def)
  have e': "sfi_type ?i' = SFS_TYPE_DIR" "sfi_size ?i' = max (sfi_size ?i) (k * 64 + 64)"
    "\<And>j. j * 64 + 64 \<le> SFS_MAXBLOCK * 512 \<Longrightarrow> entry s' ?i' j = (if j = k then sd else entry s ?i j)"
    using e sv d by (auto simp: entry_set_def dir_ok_def)
  have n': "nslots ?i' = max (nslots ?i) (Suc k)" "sfi_size ?i' = nslots ?i' * 64" unfolding nslots_def [of ?i'] e'(2) sz(1) by (simp_all add: max_def)
  have in_dir: "j * 64 + 64 \<le> SFS_MAXBLOCK * 512" if "j < nslots ?i'" for j
  proof -
    have "Suc j * 64 \<le> nslots ?i' * 64" using that by (intro mult_le_mono1) simp
    then show ?thesis using e'(2) n'(2) sz(2) k(2) by (simp add: max_def split: if_splits)
  qed
  have hn: "has_name s' ?i' nm j \<longleftrightarrow> (if j = k then sfd_ino sd \<noteq> SFS_NOINO \<and> entry_name sd = nm else has_name s ?i nm j)"
    if "j < nslots ?i'" for j nm using e'(3) [OF in_dir [OF that]] by (simp add: has_name_def)
  have old: "j < nslots ?i" if "j < nslots ?i'" "j \<noteq> k" for j using that k(1) n'(1) by (simp add: max_def split: if_splits)
  have uniq: "has_name s ?i nm j \<Longrightarrow> has_name s ?i nm l \<Longrightarrow> j < nslots ?i \<Longrightarrow> l < nslots ?i \<Longrightarrow> j = l" for nm j l
    using d unfolding dir_ok_def by blast
  have fresh: "\<not> has_name s ?i (entry_name sd) j" if "j < nslots ?i" "sfd_ino sd \<noteq> SFS_NOINO" for j
    using new that by (simp add: lookup_name_None)
  have "j = l" if "j < nslots ?i'" "l < nslots ?i'" "has_name s' ?i' nm j" "has_name s' ?i' nm l" for nm j l
    using that uniq [of nm j l] fresh old by (auto simp: hn split: if_splits)
  moreover have "sfi_size ?i' mod 64 = 0" "sfi_size ?i' \<le> SFS_MAXBLOCK * 512" using n'(2) e'(2) sz(2) k(2) by simp_all
  ultimately show d': "dir_ok s' ?i'" using e'(1) unfolding dir_ok_def by blast
  have lt: "k < nslots ?i'" "\<And>j. j < nslots ?i \<Longrightarrow> j < nslots ?i'" using n'(1) by (simp_all add: max_def)
  show "lookup_name s' ?i' name = (if sfd_ino sd \<noteq> SFS_NOINO \<and> entry_name sd = name then Some (sfd_ino sd, k)
       else case lookup_name s ?i name of None \<Rightarrow> None | Some (ino, j) \<Rightarrow> if j = k then None else Some (ino, j))"
  proof (cases "sfd_ino sd \<noteq> SFS_NOINO \<and> entry_name sd = name")
    case True
    then show ?thesis using lt(1) e'(3) [OF k(2)] hn [OF lt(1)] by (simp add: lookup_name_iff [OF d'])
  next
    case new: False
    show ?thesis
    proof (cases "lookup_name s ?i name")
      case None
      then have "\<not> has_name s' ?i' name j" if "j < nslots ?i'" for j using new hn [OF that] old [OF that] by (auto simp: lookup_name_None)
      then have "lookup_name s' ?i' name = None" by (simp add: lookup_name_None)
      then show ?thesis using None new by (simp del: de_Morgan_conj)
    next
      case (Some x)
      then obtain j where j: "x = (sfd_ino (entry s ?i j), j)" "j < nslots ?i" "has_name s ?i name j"
        by (cases x) (auto simp: lookup_name_iff [OF d])
      show ?thesis
      proof (cases "j = k")
        case True
        then have "\<not> has_name s' ?i' name l" if "l < nslots ?i'" for l using new hn [OF that] old [OF that] uniq [of name j l] j by auto
        then have "lookup_name s' ?i' name = None" by (simp add: lookup_name_None)
        then show ?thesis using Some new j True by (simp del: de_Morgan_conj)
      next
        case False
        then have "lookup_name s' ?i' name = Some (sfd_ino (entry s ?i j), j)"
          using hn [OF lt(2) [OF j(2)]] j lt(2) e'(3) [OF in_dir [OF lt(2) [OF j(2)]]] by (simp add: lookup_name_iff [OF d'])
        then show ?thesis using Some new j(1) False by simp
      qed
    qed
  qed
qed

lemma free_slot_props:
  "free_slot s i = Some k \<Longrightarrow> k < nslots i \<and> \<not> has_name s i name k"
  by (auto simp: free_slot_def has_name_def find_Some_iff rev_nth)

lemma entry_name_pad:
  assumes "0 \<notin> set name" "length name < SFS_NAMELEN"
  shows "entry_name \<lparr>sfd_ino = ino, sfd_name = name @ replicate (SFS_NAMELEN - length name) 0\<rparr> = name"
proof -
  have "(name @ replicate (SFS_NAMELEN - length name) (0 :: byte))[SFS_NAMELEN - 1 := 0] = name @ replicate (SFS_NAMELEN - length name) 0"
    using assms(2) by (intro nth_equalityI) (auto simp: nth_append nth_list_update)
  moreover have "takeWhile (\<lambda>b. b \<noteq> 0) (name @ replicate (SFS_NAMELEN - length name) 0) = name"
    using assms by (subst takeWhile_append2) (auto simp: takeWhile_eq_Nil_iff)
  ultimately show ?thesis by (simp add: entry_name_def)
qed

text \<open>The slot that a new name gets.\<close>

definition link_slot :: "sfs \<Rightarrow> sfs_inode \<Rightarrow> nat" where
  "link_slot s i = (case free_slot s i of None \<Rightarrow> nslots i | Some e \<Rightarrow> e)"

lemma sfs_dir_link_spec:
  assumes st: "sfs_ok s" "svs s p = Some v" "inode_ok s (sv_i v)" "dir_ok s (sv_i v)"
    and nm: "0 \<notin> set name" "length name < SFS_NAMELEN" and new: "lookup_name s (sv_i v) name = None"
    and ino: "ino < 2 ^ 32" "ino \<noteq> SFS_NOINO" and room: "nslots (sv_i v) < SFS_MAXBLOCK * 8"
  shows "\<exists>s' w. sfs_dir_link p name ino s = Some (Inl ENOSPC, s') \<and> {..<nblks s} \<subseteq> usd s' \<or>
     sfs_dir_link p name ino s = Some (Inr (link_slot s (sv_i v)), s') \<and> sfs_ok s' \<and> svs s' p = Some w \<and> inode_ok s' (sv_i w) \<and> dir_ok s' (sv_i w) \<and>
     (\<forall>nm'. lookup_name s' (sv_i w) nm' = (if nm' = name then Some (ino, link_slot s (sv_i v)) else lookup_name s (sv_i v) nm'))"
proof -
  let ?i = "sv_i v" and ?k = "link_slot s (sv_i v)"
  let ?sd = "\<lparr>sfd_ino = ino, sfd_name = name @ replicate (SFS_NAMELEN - length name) 0\<rparr>"
  have k: "?k \<le> nslots ?i" "?k * 64 + 64 \<le> SFS_MAXBLOCK * 512"
  proof -
    show "?k \<le> nslots ?i" using free_slot_props [of s ?i] by (auto simp: link_slot_def less_imp_le split: option.splits)
    then show "?k * 64 + 64 \<le> SFS_MAXBLOCK * 512" using room by (simp add: sfs_sizes)
  qed
  have ek: "entry_name ?sd = name" by (rule entry_name_pad [OF nm])
  have unused: "lookup_name s ?i nm' \<noteq> Some (x, ?k)" for nm' x
    using free_slot_props [of s ?i ?k nm'] by (auto simp: lookup_name_iff [OF st(4)] link_slot_def split: option.splits)
  have sz: "sfi_size ?i \<le> SFS_MAXBLOCK * 512" using st(4) by (simp add: dir_ok_def)
  have fits: "dir_fits ?sd" using nm ino by (simp add: dir_fits_def)
  have run: "sfs_dir_link p name ino s = try_ok (sfs_writedir p ?sd ?k s) (\<lambda>_ s2. Some (Inr ?k, s2))"
    using new nm(2) sfs_dir_nentries_eq [OF st(2,4)]
    by (simp add: sfs_dir_link_def sfs_dir_findname_eq [OF st] link_slot_def split: option.splits)
  obtain res s' where w: "sfs_writedir p ?sd ?k s = Some (res, s')"
    "res = Inr () \<and> entry_set p ?k ?sd s s' \<or> res = Inl ENOSPC \<and> {..<nblks s} \<subseteq> usd s'"
    using sfs_writedir_spec [OF st(1-3) sz fits k(2)] by metis
  from w(2) show ?thesis
  proof (elim disjE conjE)
    assume r: "res = Inr ()" and e: "entry_set p ?k ?sd s s'"
    then obtain x where x: "svs s' p = Some x" "sfs_ok s'" "inode_ok s' (sv_i x)" by (auto simp: entry_set_def)
    note names = entry_set_names [OF st(4,2) x(1) e k]
    have "dir_ok s' (sv_i x)" using names(1) ek new by simp
    moreover have "lookup_name s' (sv_i x) nm' = (if nm' = name then Some (ino, ?k) else lookup_name s ?i nm')" for nm'
      using names(2) [of nm'] ek new ino unused by (auto split: option.splits)
    ultimately show ?thesis using run w(1) r x by (intro exI [of _ s'] exI [of _ x]) simp
  qed (use run w(1) in auto)
qed

lemma sfs_dir_unlink_spec:
  assumes st: "sfs_ok s" "svs s p = Some v" "inode_ok s (sv_i v)" "dir_ok s (sv_i v)" and k: "k < nslots (sv_i v)"
  shows "\<exists>s' w. sfs_dir_unlink p k s = Some (Inl ENOSPC, s') \<and> {..<nblks s} \<subseteq> usd s' \<or>
     sfs_dir_unlink p k s = Some (Inr (), s') \<and> sfs_ok s' \<and> svs s' p = Some w \<and> inode_ok s' (sv_i w) \<and> dir_ok s' (sv_i w) \<and>
     (\<forall>nm. lookup_name s' (sv_i w) nm = (case lookup_name s (sv_i v) nm of None \<Rightarrow> None | Some (ino, j) \<Rightarrow> if j = k then None else Some (ino, j)))"
proof -
  let ?sd = "\<lparr>sfd_ino = SFS_NOINO, sfd_name = replicate SFS_NAMELEN 0\<rparr>"
  have sz: "sfi_size (sv_i v) \<le> SFS_MAXBLOCK * 512" using st(4) by (simp add: dir_ok_def)
  have k': "k \<le> nslots (sv_i v)" "k * 64 + 64 \<le> SFS_MAXBLOCK * 512"
    using k sz div_times_less_eq_dividend [of "sfi_size (sv_i v)" 64] unfolding nslots_def sfs_sizes by linarith+
  have fits: "dir_fits ?sd" by (simp add: dir_fits_def SFS_NOINO_def)
  obtain res s' where w: "sfs_dir_unlink p k s = Some (res, s')"
    "res = Inr () \<and> entry_set p k ?sd s s' \<or> res = Inl ENOSPC \<and> {..<nblks s} \<subseteq> usd s'"
    using sfs_writedir_spec [OF st(1-3) sz fits k'(2)] by (auto simp: sfs_dir_unlink_def)
  from w(2) show ?thesis
  proof (elim disjE conjE)
    assume r: "res = Inr ()" and e: "entry_set p k ?sd s s'"
    then obtain x where x: "svs s' p = Some x" "sfs_ok s'" "inode_ok s' (sv_i x)" by (auto simp: entry_set_def)
    show ?thesis using w(1) r x entry_set_names [OF st(4,2) x(1) e k'] by (intro exI [of _ s'] exI [of _ x]) simp
  qed (use w(1) in auto)
qed

end
