(* ===== verification/Sfs_Trunc.thy ===== *)
theory Sfs_Trunc
  imports Sfs_Inv
begin

text \<open>What \<^verbatim>\<open>sfs_truncate\<close> keeps of a file and which blocks it frees, on a disk without errors.\<close>

section \<open>Freeing blocks\<close>

text \<open>The blocks \<open>B\<close> have been freed, vnode \<open>p\<close> is \<open>w\<close>, and nothing else has changed.\<close>

definition freed :: "nat \<Rightarrow> sfs \<Rightarrow> sfs \<Rightarrow> sfs_vnode \<Rightarrow> nat set \<Rightarrow> bool" where
  "freed p s s' w B \<longleftrightarrow> svs s' = (svs s)(p \<mapsto> w) \<and> sfs_ok s' \<and> usd s' = usd s - B \<and> blk s' = blk s \<and>
     sfs_superblk s' = sfs_superblk s \<and> sfs_vnodes s' = sfs_vnodes s"

lemma freed_refl: "sfs_ok s \<Longrightarrow> svs s p = Some v \<Longrightarrow> freed p s s v {}"
  by (simp add: freed_def fun_upd_idem)

lemma freed_trans: "freed p s s1 v B \<Longrightarrow> freed p s1 s2 w C \<Longrightarrow> freed p s s2 w (B \<union> C)"
  by (auto simp: freed_def)

lemma freed_set_sv: "freed p s s' v B \<Longrightarrow> freed p s (set_sv p w s') w B"
  by (auto simp: freed_def fun_eq_iff)

lemma sfs_bfree_freed:
  assumes ok: "sfs_ok s" and b: "b \<in> usd s" "b < nblks s" "b \<noteq> 0" and sv: "svs s p = Some v"
  shows "\<exists>s'. sfs_bfree b s = Some s' \<and> freed p s s' v {b}"
proof -
  note bm = sfs_okD(2) [OF ok] sfs_okD(3) [OF ok b(2)]
  let ?f = "sfs_freemap s"
  let ?bm = "?f\<lparr>bm_v := (bm_v ?f)[b div 8 := bm_v ?f ! (b div 8) AND NOT (push_bit (b mod 8) 1)]\<rparr>"
  let ?s = "s\<lparr>sfs_freemap := ?bm, sfs_freemapdirty := True\<rparr>"
  have u: "usd ?s = usd s - {b}" using bitmap_clear_bit(2) [OF bm] by (simp add: usd_def)
  have "{nblks s..<nbits ?f} \<subseteq> usd s - {b}" "0 \<in> usd s - {b}" using ok b unfolding sfs_ok_def by auto
  then have "sfs_ok ?s" using ok bitmap_clear_bit(1) [OF bm] unfolding sfs_ok_def u by simp
  moreover have "blk ?s = blk s" by (simp add: blk_def fun_eq_iff)
  ultimately have "freed p s ?s v {b}" unfolding freed_def u using sv by (simp add: fun_upd_idem)
  then show ?thesis using bitmap_unmark_eq [OF bm] b(1) by (simp add: sfs_bfree_def usd_def)
qed

section \<open>The loops\<close>

text \<open>Clearing the pointers of a table at the indices that satisfy \<open>f\<close>, and the blocks behind them.\<close>

definition zap :: "(nat \<Rightarrow> bool) \<Rightarrow> nat list \<Rightarrow> nat list" where
  "zap f xs = map (\<lambda>k. if f k then 0 else xs ! k) [0..<length xs]"

definition zapped :: "(nat \<Rightarrow> bool) \<Rightarrow> nat list \<Rightarrow> nat set" where
  "zapped f xs = {xs ! k | k. k < length xs \<and> f k \<and> xs ! k \<noteq> 0}"

definition freeable :: "sfs \<Rightarrow> (nat \<Rightarrow> bool) \<Rightarrow> nat list \<Rightarrow> bool" where
  "freeable s f xs \<longleftrightarrow> zapped f xs \<subseteq> usd s \<inter> {..<nblks s} \<and>
     (\<forall>j < length xs. \<forall>k < length xs. xs ! j \<noteq> 0 \<longrightarrow> xs ! j = xs ! k \<longrightarrow> j = k)"

lemma length_zap [simp]: "length (zap f xs) = length xs"
  by (simp add: zap_def)

lemma nth_zap [simp]: "k < length xs \<Longrightarrow> zap f xs ! k = (if f k then 0 else xs ! k)"
  by (simp add: zap_def)

lemma zap_none: "(\<And>k. k < length xs \<Longrightarrow> f k \<Longrightarrow> xs ! k = 0) \<Longrightarrow> zap f xs = xs"
  by (intro nth_equalityI) auto

lemma zap_past: "length xs \<le> i \<Longrightarrow> zap (\<lambda>k. i \<le> k \<and> g k) xs = xs" "length xs \<le> i \<Longrightarrow> zapped (\<lambda>k. i \<le> k \<and> g k) xs = {}"
proof -
  show "length xs \<le> i \<Longrightarrow> zap (\<lambda>k. i \<le> k \<and> g k) xs = xs" by (intro zap_none) auto
  show "length xs \<le> i \<Longrightarrow> zapped (\<lambda>k. i \<le> k \<and> g k) xs = {}" by (auto simp: zapped_def)
qed

lemma le_Suc_split: "(i :: nat) \<le> k \<longleftrightarrow> k = i \<or> Suc i \<le> k"
  by auto

lemma zap_step:
  assumes "i < length xs" "g i"
  shows "zap (\<lambda>k. Suc i \<le> k \<and> g k) (xs[i := 0]) = zap (\<lambda>k. i \<le> k \<and> g k) xs"
    "zapped (\<lambda>k. Suc i \<le> k \<and> g k) (xs[i := 0]) = zapped (\<lambda>k. Suc i \<le> k \<and> g k) xs"
    "xs ! i \<noteq> 0 \<Longrightarrow> zapped (\<lambda>k. i \<le> k \<and> g k) xs = insert (xs ! i) (zapped (\<lambda>k. Suc i \<le> k \<and> g k) xs)"
proof -
  show "zap (\<lambda>k. Suc i \<le> k \<and> g k) (xs[i := 0]) = zap (\<lambda>k. i \<le> k \<and> g k) xs"
    using assms by (intro nth_equalityI) (auto simp: nth_list_update)
  show "zapped (\<lambda>k. Suc i \<le> k \<and> g k) (xs[i := 0]) = zapped (\<lambda>k. Suc i \<le> k \<and> g k) xs"
  proof -
    have "(\<exists>k. b = xs[i := 0] ! k \<and> k < length xs \<and> (Suc i \<le> k \<and> g k) \<and> xs[i := 0] ! k \<noteq> 0) \<longleftrightarrow>
        (\<exists>k. b = xs ! k \<and> k < length xs \<and> (Suc i \<le> k \<and> g k) \<and> xs ! k \<noteq> 0)" for b by (intro ex_cong1) auto
    then show ?thesis by (simp add: zapped_def)
  qed
  show "zapped (\<lambda>k. i \<le> k \<and> g k) xs = insert (xs ! i) (zapped (\<lambda>k. Suc i \<le> k \<and> g k) xs)" if "xs ! i \<noteq> 0"
    using assms that by (auto simp: zapped_def le_Suc_split [of i])
qed

lemma zap_skip:
  assumes "\<not> (g i \<and> xs ! i \<noteq> 0)"
  shows "zap (\<lambda>k. Suc i \<le> k \<and> g k) xs = zap (\<lambda>k. i \<le> k \<and> g k) xs"
    "zapped (\<lambda>k. Suc i \<le> k \<and> g k) xs = zapped (\<lambda>k. i \<le> k \<and> g k) xs"
    "freeable s (\<lambda>k. i \<le> k \<and> g k) xs \<Longrightarrow> freeable s (\<lambda>k. Suc i \<le> k \<and> g k) xs"
proof -
  show "zap (\<lambda>k. Suc i \<le> k \<and> g k) xs = zap (\<lambda>k. i \<le> k \<and> g k) xs"
    using assms by (intro nth_equalityI) (auto simp: le_Suc_split [of i])
  show z: "zapped (\<lambda>k. Suc i \<le> k \<and> g k) xs = zapped (\<lambda>k. i \<le> k \<and> g k) xs"
    using assms by (auto simp: zapped_def le_Suc_split [of i])
  show "freeable s (\<lambda>k. i \<le> k \<and> g k) xs \<Longrightarrow> freeable s (\<lambda>k. Suc i \<le> k \<and> g k) xs" by (simp add: freeable_def z)
qed

text \<open>Freeing the block at \<open>i\<close> leaves the later ones freeable.\<close>

lemma free_step:
  assumes ok: "sfs_ok s" and sv: "svs s p = Some v" and f: "freeable s (\<lambda>k. i \<le> k \<and> g k) xs" and i: "i < length xs" "g i" "xs ! i \<noteq> 0"
  shows "\<exists>s'. sfs_bfree (xs ! i) s = Some s' \<and> freed p s s' v {xs ! i} \<and> freeable s' (\<lambda>k. Suc i \<le> k \<and> g k) (xs[i := 0])"
proof -
  have "xs ! i \<in> zapped (\<lambda>k. i \<le> k \<and> g k) xs" using i by (auto simp: zapped_def)
  then have b: "xs ! i \<in> usd s" "xs ! i < nblks s" using f by (auto simp: freeable_def)
  obtain s' where s': "sfs_bfree (xs ! i) s = Some s'" "freed p s s' v {xs ! i}" using sfs_bfree_freed [OF ok b i(3) sv] by blast
  have inj: "j = k" if "j < length xs" "k < length xs" "xs ! j \<noteq> 0" "xs ! j = xs ! k" for j k using f that unfolding freeable_def by blast
  have "xs ! i \<notin> zapped (\<lambda>k. Suc i \<le> k \<and> g k) xs" using inj [OF i(1) _ i(3)] by (auto simp: zapped_def)
  moreover have "zapped (\<lambda>k. Suc i \<le> k \<and> g k) xs \<subseteq> usd s \<inter> {..<nblks s}" using f zap_step(3) [of _ xs g, OF i] by (auto simp: freeable_def)
  ultimately have "zapped (\<lambda>k. Suc i \<le> k \<and> g k) xs \<subseteq> usd s' \<inter> {..<nblks s'}" using s'(2) by (auto simp: freed_def)
  moreover have "j = k" if "j < length xs" "k < length xs" "xs[i := 0] ! j \<noteq> 0" "xs[i := 0] ! j = xs[i := 0] ! k" for j k
  proof (rule inj [OF that(1,2)])
    have "j \<noteq> i" "k \<noteq> i" using that by auto
    then show "xs ! j \<noteq> 0" "xs ! j = xs ! k" using that by simp_all
  qed
  ultimately have "freeable s' (\<lambda>k. Suc i \<le> k \<and> g k) (xs[i := 0])"
    unfolding freeable_def zap_step(2) [of _ xs g, OF i(1,2)] by simp
  then show ?thesis using s' by blast
qed

lemma truncate_direct_spec:
  assumes "sfs_ok s" "svs s p = Some v" "freeable s (\<lambda>k. i \<le> k \<and> bl \<le> k) (sfi_direct (sv_i v))" "i + n = length (sfi_direct (sv_i v))"
  shows "\<exists>s' w. truncate_direct n i p bl s = Some s' \<and> freed p s s' w (zapped (\<lambda>k. i \<le> k \<and> bl \<le> k) (sfi_direct (sv_i v))) \<and>
    sv_i w = (sv_i v)\<lparr>sfi_direct := zap (\<lambda>k. i \<le> k \<and> bl \<le> k) (sfi_direct (sv_i v))\<rparr> \<and>
    vn_ops w = vn_ops v \<and> vn_refcount w = vn_refcount v \<and> vn_opencount w = vn_opencount v \<and> sv_ino w = sv_ino v"
  using assms
proof (induction n arbitrary: i s v)
  case 0
  then show ?case by (intro exI [of _ s] exI [of _ v]) (simp add: zap_past freed_refl)
next
  case (Suc n)
  let ?d = "sfi_direct (sv_i v)"
  have i: "i < length ?d" using Suc.prems(4) by simp
  show ?case
  proof (cases "bl \<le> i \<and> ?d ! i \<noteq> 0")
    case True
    then have g: "bl \<le> i" "?d ! i \<noteq> 0" by auto
    obtain s1 where s1: "sfs_bfree (?d ! i) s = Some s1" "freed p s s1 v {?d ! i}" "freeable s1 (\<lambda>k. Suc i \<le> k \<and> bl \<le> k) (?d[i := 0])"
      using free_step [OF Suc.prems(1-3) i g] by blast
    let ?v = "v\<lparr>sv_i := (sv_i v)\<lparr>sfi_direct := ?d[i := 0]\<rparr>, sv_dirty := True\<rparr>"
    let ?s = "set_sv p ?v s1"
    have fs: "freed p s ?s ?v {?d ! i}" by (rule freed_set_sv [OF s1(2)])
    have "freeable ?s (\<lambda>k. Suc i \<le> k \<and> bl \<le> k) (?d[i := 0])" using s1(3) by (simp add: freeable_def)
    then obtain s' w where w: "truncate_direct n (Suc i) p bl ?s = Some s'" "freed p ?s s' w (zapped (\<lambda>k. Suc i \<le> k \<and> bl \<le> k) (?d[i := 0]))"
      "sv_i w = (sv_i v)\<lparr>sfi_direct := zap (\<lambda>k. Suc i \<le> k \<and> bl \<le> k) (?d[i := 0])\<rparr>"
      "vn_ops w = vn_ops v" "vn_refcount w = vn_refcount v" "vn_opencount w = vn_opencount v" "sv_ino w = sv_ino v"
      using Suc.IH [of ?s ?v "Suc i"] Suc.prems(4) s1(2) by (auto simp: freed_def)
    have "truncate_direct (Suc n) i p bl s = Some s'" using Suc.prems(2) i g s1(1,2) w(1) by (simp add: set_inode_def load_cell_def freed_def)
    moreover have "freed p s s' w (zapped (\<lambda>k. i \<le> k \<and> bl \<le> k) ?d)"
      using freed_trans [OF fs w(2)] zap_step(2) [of i ?d "\<lambda>k. bl \<le> k", OF i g(1)] zap_step(3) [of i ?d "\<lambda>k. bl \<le> k", OF i g] by simp
    ultimately show ?thesis using w(3-) zap_step(1) [of i ?d "\<lambda>k. bl \<le> k", OF i g(1)] by (intro exI [of _ s'] exI [of _ w]) simp
  next
    case False
    then have "truncate_direct (Suc n) i p bl s = truncate_direct n (Suc i) p bl s" using Suc.prems(2) i by (auto simp: load_cell_def)
    then show ?thesis
      using Suc.IH [OF Suc.prems(1,2), of "Suc i"] zap_skip(3) [of "\<lambda>k. bl \<le> k", OF False Suc.prems(3)] Suc.prems(4) zap_skip(1,2) [of "\<lambda>k. bl \<le> k", OF False] by simp
  qed
qed

lemma truncate_indirect_spec:
  assumes "sfs_ok s" "svs s p = Some v" "freeable s (\<lambda>k. j \<le> k \<and> bl < SFS_NDIRECT + k) ws" "j + n = length ws"
  shows "\<exists>s'. truncate_indirect n j bl ws hn dirty s =
      Some (zap (\<lambda>k. j \<le> k \<and> bl < SFS_NDIRECT + k) ws, hn \<or> (\<exists>k. j \<le> k \<and> k < length ws \<and> \<not> bl < SFS_NDIRECT + k \<and> ws ! k \<noteq> 0),
        dirty \<or> zapped (\<lambda>k. j \<le> k \<and> bl < SFS_NDIRECT + k) ws \<noteq> {}, s') \<and>
    freed p s s' v (zapped (\<lambda>k. j \<le> k \<and> bl < SFS_NDIRECT + k) ws)"
  using assms
proof (induction n arbitrary: j ws hn dirty s)
  case 0
  then show ?case by (intro exI [of _ s]) (auto simp: zap_past freed_refl)
next
  case (Suc n)
  let ?g = "\<lambda>k. bl < SFS_NDIRECT + k"
  have j: "j < length ws" using Suc.prems(4) by simp
  show ?case
  proof (cases "?g j \<and> ws ! j \<noteq> 0")
    case True
    then have g: "?g j" "ws ! j \<noteq> 0" by auto
    obtain s1 where s1: "sfs_bfree (ws ! j) s = Some s1" "freed p s s1 v {ws ! j}" "freeable s1 (\<lambda>k. Suc j \<le> k \<and> ?g k) (ws[j := 0])"
      using free_step [where g = ?g, OF Suc.prems(1-3) j g] by blast
    note st = zap_step(1,2) [of j ws ?g, OF j g(1)] zap_step(3) [of j ws ?g, OF j g]
    have nz: "(\<exists>k. Suc j \<le> k \<and> k < length (ws[j := 0]) \<and> \<not> ?g k \<and> ws[j := 0] ! k \<noteq> 0) \<longleftrightarrow> (\<exists>k. j \<le> k \<and> k < length ws \<and> \<not> ?g k \<and> ws ! k \<noteq> 0)"
      using g(1) by (intro ex_cong1) (auto simp: le_Suc_split [of j])
    obtain s' where "truncate_indirect n (Suc j) bl (ws[j := 0]) hn True s1 =
        Some (zap (\<lambda>k. j \<le> k \<and> ?g k) ws, hn \<or> (\<exists>k. j \<le> k \<and> k < length ws \<and> \<not> ?g k \<and> ws ! k \<noteq> 0), True, s')"
      "freed p s1 s' v (zapped (\<lambda>k. Suc j \<le> k \<and> ?g k) ws)"
      using Suc.IH [of s1 "Suc j" "ws[j := 0]" hn True] s1(2,3) Suc.prems(4) unfolding st(1,2) nz by (auto simp: freed_def)
    then show ?thesis using j g s1(1) freed_trans [OF s1(2)] st(3) by (intro exI [of _ s']) (auto simp: load_cell_def)
  next
    case False
    have nz: "((hn \<or> ws ! j \<noteq> 0) \<or> (\<exists>k. Suc j \<le> k \<and> k < length ws \<and> \<not> ?g k \<and> ws ! k \<noteq> 0)) \<longleftrightarrow>
        hn \<or> (\<exists>k. j \<le> k \<and> k < length ws \<and> \<not> ?g k \<and> ws ! k \<noteq> 0)"
      using False j by (auto simp: le_Suc_split [of j])
    have "truncate_indirect (Suc n) j bl ws hn dirty s = truncate_indirect n (Suc j) bl ws (hn \<or> ws ! j \<noteq> 0) dirty s"
      using False j by (auto simp: load_cell_def)
    then show ?thesis
      using Suc.IH [OF Suc.prems(1,2) zap_skip(3) [where g = ?g, OF False Suc.prems(3)], of "hn \<or> ws ! j \<noteq> 0" dirty] Suc.prems(4)
      unfolding nz zap_skip(1,2) [where g = ?g, OF False] by simp
  qed
qed

section \<open>The operation\<close>

text \<open>
  The blocks of the file that are kept: those before the new end, and, where block number \<open>bl\<close> is in the
  indirect block, that block too.
\<close>

definition kept :: "nat \<Rightarrow> nat \<Rightarrow> bool" where
  "kept bl fb \<longleftrightarrow> fb < bl \<or> fb = bl \<and> SFS_NDIRECT \<le> fb"

text \<open>The state before the size is set: the pointers have been cleared, and the blocks behind them are free.\<close>

definition cut_file :: "nat \<Rightarrow> nat \<Rightarrow> sfs \<Rightarrow> sfs_vnode \<Rightarrow> sfs \<Rightarrow> sfs_vnode \<Rightarrow> bool" where
  "cut_file p bl s v s' w \<longleftrightarrow> sfs_ok s' \<and> svs s' = (svs s)(p \<mapsto> w) \<and> sfs_superblk s' = sfs_superblk s \<and>
     sfi_direct (sv_i w) = zap (\<lambda>k. bl \<le> k) (sfi_direct (sv_i v)) \<and> sfi_indirect (sv_i w) \<in> {0, sfi_indirect (sv_i v)} \<and>
     id_words s' (sv_i w) = zap (\<lambda>k. bl < SFS_NDIRECT + k) (id_words s (sv_i v)) \<and>
     (\<forall>b. b \<noteq> sfi_indirect (sv_i v) \<longrightarrow> blk s' b = blk s b) \<and> inode_fits (sv_i w) \<and> sfi_type (sv_i w) = sfi_type (sv_i v) \<and>
     usd s' = usd s - (zapped (\<lambda>k. bl \<le> k) (sfi_direct (sv_i v)) \<union> zapped (\<lambda>k. bl < SFS_NDIRECT + k) (id_words s (sv_i v)) \<union>
       ({sfi_indirect (sv_i v)} - {0, sfi_indirect (sv_i w)}))"

lemma inode_tables:
  assumes io: "inode_ok s i"
  shows "length (sfi_direct i) = SFS_NDIRECT" "freeable s f (sfi_direct i)" "freeable s f (id_words s i)"
    "zapped f (sfi_direct i) \<inter> zapped g (id_words s i) = {}"
    "sfi_indirect i \<notin> zapped f (sfi_direct i) \<union> zapped g (id_words s i)" "zapped f (sfi_direct i) \<union> zapped g (id_words s i) \<subseteq> inode_blocks s i"
proof -
  note iD = inode_okD [OF io]
  show len: "length (sfi_direct i) = SFS_NDIRECT" using iD(1) by (simp add: inode_fits_def)
  have d: "sfi_direct i ! k = bmap s i k \<and> k < SFS_MAXBLOCK" if "k < SFS_NDIRECT" for k using that by (simp add: bmap_def SFS_MAXBLOCK_def)
  have e: "id_words s i ! k = bmap s i (SFS_NDIRECT + k) \<and> SFS_NDIRECT + k < SFS_MAXBLOCK" if "k < SFS_DBPERIDB" for k
    using that by (simp add: bmap_def SFS_MAXBLOCK_def)
  have zd: "\<exists>k < SFS_NDIRECT. b = bmap s i k \<and> bmap s i k \<noteq> 0 \<and> k < SFS_MAXBLOCK" if "b \<in> zapped f (sfi_direct i)" for b f
    using that len d by (auto simp: zapped_def)
  have ze: "\<exists>k < SFS_DBPERIDB. b = bmap s i (SFS_NDIRECT + k) \<and> bmap s i (SFS_NDIRECT + k) \<noteq> 0 \<and> SFS_NDIRECT + k < SFS_MAXBLOCK"
    if "b \<in> zapped f (id_words s i)" for b f using that e by (auto simp: zapped_def)
  show sub: "zapped f (sfi_direct i) \<union> zapped g (id_words s i) \<subseteq> inode_blocks s i" for f g using zd ze iD(3) by blast
  then have in_use: "zapped f (sfi_direct i) \<subseteq> usd s \<inter> {..<nblks s}" "zapped g (id_words s i) \<subseteq> usd s \<inter> {..<nblks s}" for f g using iD(2) by blast+
  show "sfi_indirect i \<notin> zapped f (sfi_direct i) \<union> zapped g (id_words s i)" using zd ze iD(5) by (metis Un_iff)
  show "zapped f (sfi_direct i) \<inter> zapped g (id_words s i) = {}"
  proof (rule ccontr)
    assume "\<not> ?thesis"
    then obtain b where "b \<in> zapped f (sfi_direct i)" "b \<in> zapped g (id_words s i)" by blast
    then obtain j k where jk: "j < SFS_NDIRECT" "b = bmap s i j" "bmap s i j \<noteq> 0" "j < SFS_MAXBLOCK" "b = bmap s i (SFS_NDIRECT + k)" "SFS_NDIRECT + k < SFS_MAXBLOCK"
      using zd [of b f] ze [of b g] by blast
    have "bmap s i j = bmap s i (SFS_NDIRECT + k)" using jk(2,5) by simp
    then have "j = SFS_NDIRECT + k" by (rule iD(6) [OF jk(4,6,3)])
    then show False using jk(1) by simp
  qed
  show "freeable s f (sfi_direct i)" unfolding freeable_def len
  proof (intro conjI allI impI)
    fix j k assume j: "j < SFS_NDIRECT" "k < SFS_NDIRECT" and eq: "sfi_direct i ! j \<noteq> 0" "sfi_direct i ! j = sfi_direct i ! k"
    note jk = conjunct1 [OF d [OF j(1)]] conjunct1 [OF d [OF j(2)]]
    show "j = k" by (rule iD(6) [OF conjunct2 [OF d [OF j(1)]] conjunct2 [OF d [OF j(2)]] eq [unfolded jk]])
  qed (use in_use(1) in blast)
  show "freeable s f (id_words s i)" unfolding freeable_def length_id_words
  proof (intro conjI allI impI)
    fix j k assume j: "j < SFS_DBPERIDB" "k < SFS_DBPERIDB" and eq: "id_words s i ! j \<noteq> 0" "id_words s i ! j = id_words s i ! k"
    note jk = conjunct1 [OF e [OF j(1)]] conjunct1 [OF e [OF j(2)]]
    have "SFS_NDIRECT + j = SFS_NDIRECT + k"
      by (rule iD(6) [OF conjunct2 [OF e [OF j(1)]] conjunct2 [OF e [OF j(2)]] eq [unfolded jk]])
    then show "j = k" by simp
  qed (use in_use(2) in blast)
qed

lemma zap_id_words_fits: "w \<in> set (zap f (id_words s i)) \<Longrightarrow> w < 2 ^ 32"
proof -
  assume "w \<in> set (zap f (id_words s i))"
  then obtain k where "k < SFS_DBPERIDB" "w = (if f k then 0 else id_words s i ! k)" by (auto simp: zap_def)
  moreover have "id_words s i ! k < 2 ^ 32" if "k < SFS_DBPERIDB"
  proof (cases "sfi_indirect i = 0")
    case False
    have "bytes_words SFS_DBPERIDB (blk s (sfi_indirect i)) ! k \<in> set (bytes_words SFS_DBPERIDB (blk s (sfi_indirect i)))" using that by (intro nth_mem) simp
    then show ?thesis using bytes_words_less False by (simp add: id_words_def)
  qed (use that in \<open>simp add: id_words_def\<close>)
  ultimately show ?thesis by simp
qed

text \<open>The part of the operation that reads the indirect block.\<close>

lemma cut_indirect:
  assumes ok: "sfs_ok s" and sv: "svs s p = Some v" and io: "inode_ok s (sv_i v)" and ni: "sfi_indirect (sv_i v) \<noteq> 0"
    and fr: "freed p s s1 w1 (zapped (\<lambda>k. bl \<le> k) (sfi_direct (sv_i v)))" and w1: "sv_i w1 = (sv_i v)\<lparr>sfi_direct := zap (\<lambda>k. bl \<le> k) (sfi_direct (sv_i v))\<rparr>"
    and run: "r = try_ok (rblock (sfi_indirect (sv_i v)) s1) (\<lambda>idbytes s2. do {
        (idbuf, hasnonzero, iddirty, s3) \<leftarrow> truncate_indirect SFS_DBPERIDB 0 bl (bytes_words SFS_DBPERIDB idbytes) False False s2;
        if \<not> hasnonzero then do {
          s4 \<leftarrow> sfs_bfree (sfi_indirect (sv_i v)) s3;
          s5 \<leftarrow> set_inode p ((sv_i w1)\<lparr>sfi_indirect := 0\<rparr>) s4;
          Some (Inr (), s5)
        }
        else if iddirty then wblock (words_bytes idbuf) (sfi_indirect (sv_i v)) s3
        else Some (Inr (), s3)
      })"
  shows "\<exists>s' w. r = Some (Inr (), s') \<and> cut_file p bl s v s' w"
proof -
  let ?i = "sv_i v" let ?ind = "sfi_indirect ?i" let ?W = "id_words s ?i" let ?f = "\<lambda>k. bl < SFS_NDIRECT + k"
  let ?D = "zapped (\<lambda>k. bl \<le> k) (sfi_direct ?i)"
  note T = inode_tables [OF io]
  have ind: "?ind \<in> usd s" "?ind < nblks s" using inode_okD(2,4) [OF io] ni by blast+
  have s1: "sfs_ok s1" "svs s1 p = Some w1" "blk s1 = blk s" "nblks s1 = nblks s" "usd s1 = usd s - ?D" using fr by (simp_all add: freed_def)
  have W: "bytes_words SFS_DBPERIDB (blk s1 ?ind) = ?W" using ni s1(3) by (simp add: id_words_def)
  have "freeable s1 (\<lambda>k. 0 \<le> k \<and> ?f k) ?W" using T(3) [of ?f] T(4) [of "\<lambda>k. bl \<le> k" ?f] s1(4,5) by (auto simp: freeable_def)
  then obtain s3 where s3: "truncate_indirect SFS_DBPERIDB 0 bl ?W False False s1 =
      Some (zap ?f ?W, (\<exists>k. k < SFS_DBPERIDB \<and> \<not> ?f k \<and> ?W ! k \<noteq> 0), zapped ?f ?W \<noteq> {}, s3)" "freed p s1 s3 w1 (zapped ?f ?W)"
    using truncate_indirect_spec [OF s1(1,2), of 0 bl ?W SFS_DBPERIDB False False] by auto
  have s3': "freed p s s3 w1 (?D \<union> zapped ?f ?W)" by (rule freed_trans [OF fr s3(2)])
  then have s3D: "sfs_ok s3" "svs s3 p = Some w1" "blk s3 = blk s" "sfs_superblk s3 = sfs_superblk s" "usd s3 = usd s - (?D \<union> zapped ?f ?W)"
    "svs s3 = (svs s)(p \<mapsto> w1)" by (simp_all add: freed_def)
  have ind3: "?ind \<in> usd s3" "?ind < nblks s3" using ind T(5) [of "\<lambda>k. bl \<le> k" ?f] s3D(4,5) by auto
  have fits: "inode_fits (sv_i w1)" using inode_okD(1) [OF io] unfolding w1 by (auto simp: inode_fits_def zap_def)
  have step: "r = (if \<not> (\<exists>k. k < SFS_DBPERIDB \<and> \<not> ?f k \<and> ?W ! k \<noteq> 0) then do {
          s4 \<leftarrow> sfs_bfree ?ind s3; s5 \<leftarrow> set_inode p ((sv_i w1)\<lparr>sfi_indirect := 0\<rparr>) s4; Some (Inr (), s5) }
        else if zapped ?f ?W \<noteq> {} then wblock (words_bytes (zap ?f ?W)) ?ind s3 else Some (Inr (), s3))"
    unfolding run using rblock_good [OF s1(1), of ?ind] ind s1(4) s3(1) W by simp
  consider (all) "\<not> (\<exists>k. k < SFS_DBPERIDB \<and> \<not> ?f k \<and> ?W ! k \<noteq> 0)" | (some) "\<exists>k. k < SFS_DBPERIDB \<and> \<not> ?f k \<and> ?W ! k \<noteq> 0" "zapped ?f ?W \<noteq> {}"
    | (none) "\<exists>k. k < SFS_DBPERIDB \<and> \<not> ?f k \<and> ?W ! k \<noteq> 0" "zapped ?f ?W = {}" by blast
  then show ?thesis
  proof cases
    case all
    obtain s4 where s4: "sfs_bfree ?ind s3 = Some s4" "freed p s3 s4 w1 {?ind}" using sfs_bfree_freed [OF s3D(1) ind3 ni s3D(2)] by blast
    let ?w = "w1\<lparr>sv_i := (sv_i w1)\<lparr>sfi_indirect := 0\<rparr>, sv_dirty := True\<rparr>"
    have "freed p s (set_sv p ?w s4) ?w (?D \<union> zapped ?f ?W \<union> {?ind})" by (rule freed_set_sv [OF freed_trans [OF s3' s4(2)]])
    moreover have "zap ?f ?W = replicate SFS_DBPERIDB 0" using all by (intro nth_equalityI) auto
    ultimately have "cut_file p bl s v (set_sv p ?w s4) ?w" using fits ni by (auto simp: cut_file_def freed_def w1 id_words_def inode_fits_def)
    then show ?thesis using all s4 step by (auto simp: set_inode_def freed_def)
  next
    case some
    let ?b = "words_bytes (zap ?f ?W)"
    have len: "length ?b = SFS_BLOCKSIZE" by (simp add: sfs_sizes)
    have wr: "wblock ?b ?ind s3 = Some (Inr (), set_blk ?ind ?b s3)" by (rule wblock_good [OF s3D(1) ind3(2) len])
    have "bytes_words SFS_DBPERIDB ?b = zap ?f ?W" using words_of_bytes [of "zap ?f ?W" SFS_DBPERIDB "[]"] zap_id_words_fits by simp
    then have "id_words (set_blk ?ind ?b s3) (sv_i w1) = zap ?f ?W" using ni by (simp add: id_words_def w1 blk_set_blk [OF s3D(1) ind3(2)])
    then have "cut_file p bl s v (set_blk ?ind ?b s3) w1"
      using sfs_ok_set_blk [OF s3D(1) len] s3D fits by (simp add: cut_file_def w1 blk_set_blk [OF s3D(1) ind3(2)])
    moreover have "r = Some (Inr (), set_blk ?ind ?b s3)" unfolding step using some wr by simp
    ultimately show ?thesis by blast
  next
    case none
    then have "zap ?f ?W = ?W" by (intro zap_none) (auto simp: zapped_def)
    moreover have "id_words s3 (sv_i w1) = ?W" by (simp add: id_words_def w1 s3D(3))
    ultimately have "cut_file p bl s v s3 w1" using s3D fits by (simp add: cut_file_def w1)
    moreover have "r = Some (Inr (), s3)" unfolding step using none by simp
    ultimately show ?thesis by blast
  qed
qed

lemma sfs_truncate_cut:
  assumes ok: "sfs_ok s" and sv: "svs s p = Some v" and io: "inode_ok s (sv_i v)"
  shows "\<exists>s' w. sfs_truncate p len s = Some (Inr (), set_sv p (w\<lparr>sv_i := (sv_i w)\<lparr>sfi_size := len\<rparr>, sv_dirty := True\<rparr>) s') \<and>
    cut_file p (divroundup len SFS_BLOCKSIZE) s v s' w"
proof -
  let ?bl = "divroundup len SFS_BLOCKSIZE" and ?i = "sv_i v"
  note T = inode_tables [OF io]
  obtain s1 w1 where s1: "truncate_direct SFS_NDIRECT 0 p ?bl s = Some s1" "freed p s s1 w1 (zapped (\<lambda>k. ?bl \<le> k) (sfi_direct ?i))"
    "sv_i w1 = ?i\<lparr>sfi_direct := zap (\<lambda>k. ?bl \<le> k) (sfi_direct ?i)\<rparr>"
    using truncate_direct_spec [OF ok sv, of 0 ?bl SFS_NDIRECT] T(1) T(2) [of "\<lambda>k. ?bl \<le> k"] by auto
  have w1: "svs s1 p = Some w1" using s1(2) by (simp add: freed_def)
  let ?r = "if ?bl < SFS_NDIRECT + SFS_DBPERIDB - 1 \<and> sfi_indirect (sv_i w1) \<noteq> 0 then
      try_ok (rblock (sfi_indirect (sv_i w1)) s1) (\<lambda>idbytes s2. do {
        (idbuf, hasnonzero, iddirty, s3) \<leftarrow> truncate_indirect SFS_DBPERIDB 0 ?bl (bytes_words SFS_DBPERIDB idbytes) False False s2;
        if \<not> hasnonzero then do {
          s4 \<leftarrow> sfs_bfree (sfi_indirect (sv_i w1)) s3;
          s5 \<leftarrow> set_inode p ((sv_i w1)\<lparr>sfi_indirect := 0\<rparr>) s4;
          Some (Inr (), s5)
        }
        else if iddirty then wblock (words_bytes idbuf) (sfi_indirect (sv_i w1)) s3
        else Some (Inr (), s3)
      })
    else Some (Inr (), s1)"
  have "\<exists>s' w. ?r = Some (Inr (), s') \<and> cut_file p ?bl s v s' w"
  proof (cases "?bl < SFS_NDIRECT + SFS_DBPERIDB - 1 \<and> sfi_indirect (sv_i w1) \<noteq> 0")
    case True
    have "sfi_indirect (sv_i w1) = sfi_indirect ?i" by (simp add: s1(3))
    note eq = this
    then have "sfi_indirect ?i \<noteq> 0" using True by simp
    then show ?thesis unfolding if_P [OF True] unfolding eq by (rule cut_indirect [OF ok sv io _ s1(2,3) refl])
  next
    case False
    have none: "?bl < SFS_NDIRECT + k \<Longrightarrow> id_words s ?i ! k = 0" if "k < SFS_DBPERIDB" for k
      using False that by (auto simp: s1(3) id_words_def sfs_sizes)
    then have z: "zap (\<lambda>k. ?bl < SFS_NDIRECT + k) (id_words s ?i) = id_words s ?i" by (intro zap_none) auto
    have "zapped (\<lambda>k. ?bl < SFS_NDIRECT + k) (id_words s ?i) = {}" using none by (auto simp: zapped_def)
    moreover have "inode_fits (sv_i w1)" using inode_okD(1) [OF io] unfolding s1(3) by (auto simp: inode_fits_def zap_def)
    ultimately have "cut_file p ?bl s v s1 w1" using s1(2) z by (auto simp: cut_file_def freed_def s1(3) id_words_def)
    moreover have "?r = Some (Inr (), s1)" unfolding if_not_P [OF False] ..
    ultimately show ?thesis by blast
  qed
  then obtain s' w where r: "?r = Some (Inr (), s')" "cut_file p ?bl s v s' w" by blast
  have "svs s' p = Some w" using r(2) by (simp add: cut_file_def)
  moreover have "sfs_truncate p len s = try_ok ?r (\<lambda>_ s6. do {
       sv6 \<leftarrow> svs s6 p; s7 \<leftarrow> set_inode p ((sv_i sv6)\<lparr>sfi_size := len\<rparr>) s6; Some (Inr (), s7) })"
    unfolding sfs_truncate_def Let_def s1(1) bind.bind_lunit w1 ..
  ultimately show ?thesis using r unfolding r(1) by (auto simp: set_inode_def)
qed

lemma cut_bmap:
  assumes io: "inode_ok s (sv_i v)" and c: "cut_file p bl s v s' w" and fb: "fb < SFS_MAXBLOCK"
  shows "bmap s' (sv_i w) fb = (if kept bl fb then bmap s (sv_i v) fb else 0)"
proof -
  have len: "length (sfi_direct (sv_i v)) = SFS_NDIRECT" by (rule inode_tables(1) [OF io])
  have tab: "sfi_direct (sv_i w) = zap (\<lambda>k. bl \<le> k) (sfi_direct (sv_i v))"
    "id_words s' (sv_i w) = zap (\<lambda>k. bl < SFS_NDIRECT + k) (id_words s (sv_i v))" using c by (simp_all add: cut_file_def)
  show ?thesis
  proof (cases "fb < SFS_NDIRECT")
    case True
    then show ?thesis by (simp add: bmap_def tab len kept_def)
  next
    case False
    then have "fb - SFS_NDIRECT < SFS_DBPERIDB" "SFS_NDIRECT + (fb - SFS_NDIRECT) = fb" using fb by (simp_all add: SFS_MAXBLOCK_def)
    then show ?thesis using False by (auto simp: bmap_def tab kept_def)
  qed
qed

lemma cut_blocks:
  assumes io: "inode_ok s (sv_i v)" and c: "cut_file p bl s v s' w"
  shows "inode_blocks s' (sv_i w) \<subseteq> inode_blocks s (sv_i v)" "usd s' = usd s - (inode_blocks s (sv_i v) - inode_blocks s' (sv_i w))"
proof -
  let ?i = "sv_i v" and ?j = "sv_i w" and ?f = "\<lambda>k. bl < SFS_NDIRECT + k"
  note bm = cut_bmap [OF io c] and iD = inode_okD [OF io] and len = inode_tables(1) [OF io]
  have ind: "sfi_indirect ?j \<in> {0, sfi_indirect ?i}" using c by (simp add: cut_file_def)
  have blocks: "b \<in> inode_blocks s' ?j \<longleftrightarrow> b \<noteq> 0 \<and> (b = sfi_indirect ?j \<or> (\<exists>k < SFS_MAXBLOCK. kept bl k \<and> b = bmap s ?i k))" for b
    using bm by (force simp: inode_blocks_def split: if_splits)
  show sub: "inode_blocks s' ?j \<subseteq> inode_blocks s ?i" using ind unfolding inode_blocks_def [of s ?i] by (auto simp: blocks)
  have z: "b \<in> zapped (\<lambda>k. bl \<le> k) (sfi_direct ?i) \<union> zapped ?f (id_words s ?i) \<longleftrightarrow> b \<noteq> 0 \<and> (\<exists>k < SFS_MAXBLOCK. \<not> kept bl k \<and> b = bmap s ?i k)" for b
  proof
    assume "b \<in> zapped (\<lambda>k. bl \<le> k) (sfi_direct ?i) \<union> zapped ?f (id_words s ?i)"
    then show "b \<noteq> 0 \<and> (\<exists>k < SFS_MAXBLOCK. \<not> kept bl k \<and> b = bmap s ?i k)"
    proof
      assume "b \<in> zapped (\<lambda>k. bl \<le> k) (sfi_direct ?i)"
      then obtain k where "b = sfi_direct ?i ! k" "k < SFS_NDIRECT" "bl \<le> k" "b \<noteq> 0" using len by (auto simp: zapped_def)
      then show ?thesis by (intro conjI exI [of _ k]) (simp_all add: bmap_def kept_def SFS_MAXBLOCK_def)
    next
      assume "b \<in> zapped ?f (id_words s ?i)"
      then obtain k where "b = id_words s ?i ! k" "k < SFS_DBPERIDB" "?f k" "b \<noteq> 0" by (auto simp: zapped_def)
      then show ?thesis by (intro conjI exI [of _ "SFS_NDIRECT + k"]) (simp_all add: bmap_def kept_def SFS_MAXBLOCK_def)
    qed
  next
    assume "b \<noteq> 0 \<and> (\<exists>k < SFS_MAXBLOCK. \<not> kept bl k \<and> b = bmap s ?i k)"
    then obtain k where k: "b \<noteq> 0" "k < SFS_MAXBLOCK" "\<not> kept bl k" "b = bmap s ?i k" by blast
    show "b \<in> zapped (\<lambda>k. bl \<le> k) (sfi_direct ?i) \<union> zapped ?f (id_words s ?i)"
    proof (cases "k < SFS_NDIRECT")
      case True
      then have "b \<in> zapped (\<lambda>k. bl \<le> k) (sfi_direct ?i)" using k len unfolding zapped_def by (intro CollectI exI [of _ k]) (simp add: bmap_def kept_def)
      then show ?thesis by blast
    next
      case False
      then have "b \<in> zapped ?f (id_words s ?i)" using k unfolding zapped_def
        by (intro CollectI exI [of _ "k - SFS_NDIRECT"]) (auto simp: bmap_def kept_def SFS_MAXBLOCK_def)
      then show ?thesis by blast
    qed
  qed
  have "b \<in> zapped (\<lambda>k. bl \<le> k) (sfi_direct ?i) \<union> zapped ?f (id_words s ?i) \<union> ({sfi_indirect ?i} - {0, sfi_indirect ?j}) \<longleftrightarrow>
      b \<in> inode_blocks s ?i - inode_blocks s' ?j" for b
  proof (cases "b = sfi_indirect ?i")
    case True
    have "\<not> (\<exists>k < SFS_MAXBLOCK. b = bmap s ?i k \<and> b \<noteq> 0)" using iD(5) True by metis
    then show ?thesis using True unfolding Un_iff [of _ "_ \<union> _"] z Diff_iff blocks by (auto simp: inode_blocks_def)
  next
    case False
    have uniq: "j = k" if "b = bmap s ?i j" "b = bmap s ?i k" "b \<noteq> 0" "j < SFS_MAXBLOCK" "k < SFS_MAXBLOCK" for j k
      by (rule iD(6)) (use that in auto)
    have all: "b \<in> inode_blocks s ?i \<longleftrightarrow> b \<noteq> 0 \<and> (\<exists>k < SFS_MAXBLOCK. b = bmap s ?i k)" using False by (auto simp: inode_blocks_def)
    have kp: "b \<in> inode_blocks s' ?j \<longleftrightarrow> b \<noteq> 0 \<and> (\<exists>k < SFS_MAXBLOCK. kept bl k \<and> b = bmap s ?i k)" unfolding blocks using False ind by auto
    have "b \<in> inode_blocks s ?i - inode_blocks s' ?j \<longleftrightarrow> b \<noteq> 0 \<and> (\<exists>k < SFS_MAXBLOCK. \<not> kept bl k \<and> b = bmap s ?i k)"
      unfolding Diff_iff all kp using uniq by blast
    then show ?thesis using False z [of b] by blast
  qed
  then have "zapped (\<lambda>k. bl \<le> k) (sfi_direct ?i) \<union> zapped ?f (id_words s ?i) \<union> ({sfi_indirect ?i} - {0, sfi_indirect ?j}) =
      inode_blocks s ?i - inode_blocks s' ?j" by (rule set_eqI)
  then show "usd s' = usd s - (inode_blocks s ?i - inode_blocks s' ?j)" using c by (simp add: cut_file_def)
qed

lemma cut_inode_ok:
  assumes io: "inode_ok s (sv_i v)" and c: "cut_file p bl s v s' w"
  shows "inode_ok s' (sv_i w)" "k < SFS_MAXBLOCK * 512 \<Longrightarrow> fbyte s' (sv_i w) k = (if kept bl (k div 512) then fbyte s (sv_i v) k else 0)"
proof -
  let ?i = "sv_i v" and ?j = "sv_i w"
  note bm = cut_bmap [OF io c] and iD = inode_okD [OF io] and cb = cut_blocks [OF io c]
  have c': "inode_fits ?j" "sfi_indirect ?j \<in> {0, sfi_indirect ?i}" "sfs_superblk s' = sfs_superblk s"
    "\<And>b. b \<noteq> sfi_indirect ?i \<Longrightarrow> blk s' b = blk s b" using c unfolding cut_file_def by blast+
  have "inode_blocks s' ?j \<subseteq> usd s' \<inter> {..<nblks s'}" using cb iD(2) c'(3) by auto
  moreover have "bmap s' ?j k \<noteq> sfi_indirect ?j" if "k < SFS_MAXBLOCK" "bmap s' ?j k \<noteq> 0" for k
    using that bm [OF that(1)] iD(5) [OF that(1)] c'(2) by (auto split: if_splits)
  moreover have "k = l" if "k < SFS_MAXBLOCK" "l < SFS_MAXBLOCK" "bmap s' ?j k \<noteq> 0" "bmap s' ?j k = bmap s' ?j l" for k l
    using that bm [OF that(1)] bm [OF that(2)] iD(6) [OF that(1,2)] by (auto split: if_splits)
  ultimately show "inode_ok s' ?j" using c'(1) unfolding inode_ok_def by blast
  show "fbyte s' ?j k = (if kept bl (k div 512) then fbyte s ?i k else 0)" if "k < SFS_MAXBLOCK * 512"
  proof -
    have fb: "k div 512 < SFS_MAXBLOCK" using that by (simp add: less_mult_imp_div_less)
    show ?thesis using c'(4) iD(5) [OF fb] by (simp add: fbyte_def Let_def bm [OF fb])
  qed
qed

lemma sfs_truncate_spec:
  assumes ok: "sfs_ok s" and sv: "svs s p = Some v" and io: "inode_ok s (sv_i v)" and len: "len < 2 ^ 32" "bl = divroundup len SFS_BLOCKSIZE"
  shows "\<exists>s' w. sfs_truncate p len s = Some (Inr (), s') \<and> sfs_ok s' \<and> svs s' p = Some w \<and> inode_ok s' (sv_i w) \<and> sfi_size (sv_i w) = len \<and>
    usd s' = usd s - (inode_blocks s (sv_i v) - inode_blocks s' (sv_i w)) \<and>
    (\<forall>fb < SFS_MAXBLOCK. bmap s' (sv_i w) fb = (if kept bl fb then bmap s (sv_i v) fb else 0)) \<and>
    (\<forall>k < SFS_MAXBLOCK * 512. fbyte s' (sv_i w) k = (if kept bl (k div 512) then fbyte s (sv_i v) k else 0)) \<and>
    (\<forall>q. q \<noteq> p \<longrightarrow> svs s' q = svs s q)"
proof -
  obtain s1 w1 where t: "sfs_truncate p len s = Some (Inr (), set_sv p (w1\<lparr>sv_i := (sv_i w1)\<lparr>sfi_size := len\<rparr>, sv_dirty := True\<rparr>) s1)"
    "cut_file p bl s v s1 w1" using sfs_truncate_cut [OF ok sv io, of len] len(2) by blast
  let ?i = "(sv_i w1)\<lparr>sfi_size := len\<rparr>"
  let ?w = "w1\<lparr>sv_i := ?i, sv_dirty := True\<rparr>"
  have bm: "bmap s1 ?i = bmap s1 (sv_i w1)" by (simp add: bmap_def id_words_def fun_eq_iff)
  have ib: "inode_blocks s1 ?i = inode_blocks s1 (sv_i w1)" "fbyte s1 ?i = fbyte s1 (sv_i w1)"
    by (simp_all add: inode_blocks_def fbyte_def fun_eq_iff bm)
  have io': "inode_ok s1 ?i" using cut_inode_ok(1) [OF io t(2)] len(1) by (simp add: inode_ok_def ib inode_fits_def bm)
  have s1: "sfs_ok s1" "svs s1 = (svs s)(p \<mapsto> w1)" using t(2) by (simp_all add: cut_file_def)
  show ?thesis
    using t(1) io' s1 cut_blocks(2) [OF io t(2)] cut_bmap [OF io t(2)] cut_inode_ok(2) [OF io t(2)]
    by (intro exI [of _ "set_sv p ?w s1"] exI [of _ ?w]) (simp add: ib bm)
qed

end
