(* ===== verification/Sfs_Props.thy ===== *)
theory Sfs_Props
  imports Sfs_Dir Sfs_Trunc
begin

text \<open>
  The file system as its callers see it.  The locale \<open>byte_file\<close> is the contract of a file that is read and
  written at offsets; a file of SFS meets it.  The other properties are about directories, truncation, the
  inodes on disk and a failing disk.
\<close>

section \<open>The contract of a file\<close>

locale byte_file =
  fixes wf :: "'s \<Rightarrow> bool" and content :: "'s \<Rightarrow> nat \<Rightarrow> byte" and len :: "'s \<Rightarrow> nat" and cap :: nat and full :: "'s \<Rightarrow> bool"
    and wr :: "byte list \<Rightarrow> nat \<Rightarrow> 's \<Rightarrow> ((errno + unit) \<times> 's) outcome" and rd :: "nat \<Rightarrow> nat \<Rightarrow> 's \<Rightarrow> ((errno + byte list) \<times> 's) outcome"
  assumes len_cap: "wf s \<Longrightarrow> len s \<le> cap"
    and wr_law: "wf s \<Longrightarrow> data \<noteq> [] \<Longrightarrow> off + length data \<le> cap \<Longrightarrow>
      \<exists>res s'. wr data off s = Some (res, s') \<and> wf s' \<and>
        (res = Inl ENOSPC \<and> full s' \<or>
         res = Inr () \<and> len s' = max (len s) (off + length data) \<and> (\<forall>k < cap. content s' k = upd (content s) off data k))"
    and rd_law: "wf s \<Longrightarrow> 0 < n \<Longrightarrow> off + n \<le> len s \<Longrightarrow> rd n off s = Some (Inr (map (content s) [off..<off + n]), s)"
begin

lemma read_written:
  assumes "wf s" "data \<noteq> []" "off + length data \<le> cap"
  shows "\<exists>res s'. wr data off s = Some (res, s') \<and> wf s' \<and> (res = Inl ENOSPC \<and> full s' \<or> res = Inr () \<and> rd (length data) off s' = Some (Inr data, s'))"
proof -
  obtain res s' where w: "wr data off s = Some (res, s')" "wf s'"
    "res = Inl ENOSPC \<and> full s' \<or> res = Inr () \<and> len s' = max (len s) (off + length data) \<and> (\<forall>k < cap. content s' k = upd (content s) off data k)"
    using wr_law [OF assms] by blast
  have "rd (length data) off s' = Some (Inr data, s')"
    if "len s' = max (len s) (off + length data)" "\<forall>k < cap. content s' k = upd (content s) off data k"
  proof -
    have "map (content s') [off..<off + length data] = data" using that(2) assms(3) by (intro nth_equalityI) (simp_all add: upd_def)
    then show ?thesis using rd_law [OF w(2), of "length data" off] assms(2) that(1) by simp
  qed
  then show ?thesis using w by blast
qed

lemma read_elsewhere:
  assumes "wf s" "data \<noteq> []" "off + length data \<le> cap" "0 < n" "pos + n \<le> len s" "pos + n \<le> off \<or> off + length data \<le> pos"
  shows "\<exists>res s'. wr data off s = Some (res, s') \<and> (res = Inl ENOSPC \<and> full s' \<or> res = Inr () \<and> map_option fst (rd n pos s') = map_option fst (rd n pos s))"
proof -
  obtain res s' where w: "wr data off s = Some (res, s')" "wf s'"
    "res = Inl ENOSPC \<and> full s' \<or> res = Inr () \<and> len s' = max (len s) (off + length data) \<and> (\<forall>k < cap. content s' k = upd (content s) off data k)"
    using wr_law [OF assms(1-3)] by blast
  have "map_option fst (rd n pos s') = map_option fst (rd n pos s)"
    if "len s' = max (len s) (off + length data)" "\<forall>k < cap. content s' k = upd (content s) off data k"
  proof -
    have "map (content s') [pos..<pos + n] = map (content s) [pos..<pos + n]"
      using that(2) assms(5,6) len_cap [OF assms(1)] by (intro map_cong refl) (auto simp: upd_def)
    then show ?thesis using rd_law [OF w(2) assms(4)] rd_law [OF assms(1,4,5)] assms(5) that(1) by simp
  qed
  then show ?thesis using w by blast
qed

end

section \<open>Files of SFS\<close>

definition file_ok :: "nat \<Rightarrow> sfs \<Rightarrow> bool" where
  "file_ok p s \<longleftrightarrow> sfs_ok s \<and> (case svs s p of None \<Rightarrow> False | Some v \<Rightarrow> inode_ok s (sv_i v) \<and> sfi_size (sv_i v) \<le> SFS_MAXBLOCK * 512)"

definition file_inode :: "nat \<Rightarrow> sfs \<Rightarrow> sfs_inode" where
  "file_inode p s = sv_i (the (svs s p))"

definition file_content :: "nat \<Rightarrow> sfs \<Rightarrow> nat \<Rightarrow> byte" where
  "file_content p s = fbyte s (file_inode p s)"

definition file_len :: "nat \<Rightarrow> sfs \<Rightarrow> nat" where
  "file_len p s = sfi_size (file_inode p s)"

definition disk_full :: "sfs \<Rightarrow> bool" where
  "disk_full s \<longleftrightarrow> {..<nblks s} \<subseteq> usd s"

text \<open>A write from, and a read to, a buffer of the kernel.\<close>

definition file_write :: "nat \<Rightarrow> byte list \<Rightarrow> nat \<Rightarrow> unit sfs_op" where
  "file_write p data off s = (case sfs_write p (mk_kuio data (length data) (int off) UIO_WRITE, s) of
     None \<Rightarrow> None | Some (res, u, s') \<Rightarrow> Some (res, s'))"

definition file_read :: "nat \<Rightarrow> nat \<Rightarrow> nat \<Rightarrow> byte list sfs_op" where
  "file_read p n off s = (case sfs_read p (mk_kuio (replicate n 0) n (int off) UIO_READ, s) of
     None \<Rightarrow> None
   | Some (Inl e, u, s') \<Rightarrow> Some (Inl e, s')
   | Some (Inr _, u, s') \<Rightarrow> Some (Inr (take (n - uio_resid u) (uio_mem u)), s'))"

lemma file_okD:
  assumes "file_ok p s"
  obtains v where "sfs_ok s" "svs s p = Some v" "inode_ok s (sv_i v)" "sfi_size (sv_i v) \<le> SFS_MAXBLOCK * 512" "file_inode p s = sv_i v"
  using assms by (auto simp: file_ok_def file_inode_def split: option.splits)

lemma file_write_spec:
  assumes ok: "file_ok p s" and d: "data \<noteq> []" "off + length data \<le> SFS_MAXBLOCK * 512"
  shows "\<exists>m res s'. file_write p data off s = Some (res, s') \<and>
    (res = Inl ENOSPC \<and> disk_full s' \<or> res = Inr () \<and> m = length data) \<and> m \<le> length data \<and>
    wrote_sz p s s' (upd (file_content p s) off (take m data)) (max (file_len p s) (off + m))"
proof -
  obtain v where v: "sfs_ok s" "svs s p = Some v" "inode_ok s (sv_i v)" "sfi_size (sv_i v) \<le> SFS_MAXBLOCK * 512" "file_inode p s = sv_i v"
    using ok by (rule file_okD)
  let ?u = "mk_kuio data (length data) (int off) UIO_WRITE"
  have szb: "sfi_size (sv_i v) < 2 ^ 31" using v(4) by (simp add: sfs_sizes)
  have cw: "can_write (length data) ?u" using d(2) by (simp add: can_write_def uio_fits_def sfs_sizes)
  obtain m res s' where a: "sfs_io p (?u, s) = Some (res, uio_moved m [] ?u, s')" "m \<le> length data"
    "res = Inr () \<and> m = length data \<or> res = Inl ENOSPC \<and> m < length data \<and> {..<nblks s} \<subseteq> usd s'"
    "wrote_sz p s s' (upd (fbyte s (sv_i v)) off (uio_next m ?u)) (max (sfi_size (sv_i v)) (off + m))"
    using sfs_io_write [OF v(1-3) szb cw, of off] d(1) by auto
  have nx: "uio_next m ?u = take m data" by (simp add: uio_next_def)
  have "sfs_superblk s' = sfs_superblk s"
  proof -
    have "max (sfi_size (sv_i v)) (off + m) < 2 ^ 32" using v(4) a(2) d(2) by (simp add: sfs_sizes)
    then show ?thesis by (rule wrote_szD [OF a(4) _ v(2)])
  qed
  then show ?thesis using a nx v(5)
    by (intro exI [of _ m] exI [of _ res] exI [of _ s']) (auto simp: file_write_def sfs_write_def file_content_def file_len_def disk_full_def)
qed

lemma file_write_law:
  assumes ok: "file_ok p s" and d: "data \<noteq> []" "off + length data \<le> SFS_MAXBLOCK * 512"
  shows "\<exists>res s'. file_write p data off s = Some (res, s') \<and> file_ok p s' \<and>
    (res = Inl ENOSPC \<and> disk_full s' \<or>
     res = Inr () \<and> file_len p s' = max (file_len p s) (off + length data) \<and>
     (\<forall>k < SFS_MAXBLOCK * 512. file_content p s' k = upd (file_content p s) off data k))"
proof -
  obtain v where v: "svs s p = Some v" "sfi_size (sv_i v) \<le> SFS_MAXBLOCK * 512" "file_inode p s = sv_i v" using ok by (rule file_okD)
  obtain m res s' where a: "file_write p data off s = Some (res, s')" "res = Inl ENOSPC \<and> disk_full s' \<or> res = Inr () \<and> m = length data" "m \<le> length data"
    "wrote_sz p s s' (upd (file_content p s) off (take m data)) (max (file_len p s) (off + m))" using file_write_spec [OF assms] by blast
  have sz: "max (file_len p s) (off + m) \<le> SFS_MAXBLOCK * 512" using v(2,3) a(3) d(2) by (simp add: file_len_def)
  then have "max (file_len p s) (off + m) < 2 ^ 32" by (simp add: sfs_sizes)
  then obtain w where w: "svs s' p = Some w" "sfs_ok s'" "inode_ok s' (sv_i w)" "sfi_size (sv_i w) = max (file_len p s) (off + m)"
    "\<And>k. k < SFS_MAXBLOCK * 512 \<Longrightarrow> fbyte s' (sv_i w) k = upd (file_content p s) off (take m data) k"
    by (rule wrote_szD [OF a(4) _ v(1)]) blast
  then have "file_ok p s'" using sz by (simp add: file_ok_def)
  then show ?thesis using a(1,2) w by (auto simp: file_len_def file_content_def file_inode_def)
qed

lemma file_read_law:
  assumes ok: "file_ok p s" and n: "0 < n" "off + n \<le> file_len p s"
  shows "file_read p n off s = Some (Inr (map (file_content p s) [off..<off + n]), s)"
proof -
  obtain v where v: "sfs_ok s" "svs s p = Some v" "inode_ok s (sv_i v)" "sfi_size (sv_i v) \<le> SFS_MAXBLOCK * 512" "file_inode p s = sv_i v"
    using ok by (rule file_okD)
  let ?u = "mk_kuio (replicate n 0) n (int off) UIO_READ"
  have le: "off + n \<le> sfi_size (sv_i v)" using n(2) v(5) by (simp add: file_len_def)
  have "uio_fits (uio_resid ?u) ?u" using le v(4) by (simp add: uio_fits_def sfs_sizes)
  then have "sfs_io p (?u, s) = Some (Inr (), uio_moved n (fbytes s (sv_i v) off n) ?u, s)"
    using n(1) le by (intro sfs_io_read [OF v(1-4)]) simp_all
  moreover have "uio_mem (uio_moved n (fbytes s (sv_i v) off n) ?u) = fbytes s (sv_i v) off n" by (simp add: uio_moved_def splice_all)
  ultimately show ?thesis by (simp add: file_read_def sfs_read_def file_content_def v(5) fbytes_def)
qed

interpretation sf: byte_file "file_ok p" "file_content p" "file_len p" "SFS_MAXBLOCK * 512" disk_full "file_write p" "file_read p" for p
proof unfold_locales
  show "file_len p s \<le> SFS_MAXBLOCK * 512" if "file_ok p s" for s using file_okD [OF that] unfolding file_len_def by metis
qed (use file_write_law file_read_law in blast)+

section \<open>Another file\<close>

text \<open>What a write changes of a file that shares no block with the one that is written.\<close>

lemma other_file_kept:
  assumes io: "inode_ok s i" and dj: "inode_blocks s i \<inter> B = {}" and same: "\<And>b. b \<in> usd s \<Longrightarrow> b \<notin> B \<Longrightarrow> blk s' b = blk s b"
    and up: "usd s \<subseteq> usd s'" "sfs_superblk s' = sfs_superblk s"
  shows "inode_ok s' i" "inode_blocks s' i = inode_blocks s i" "k < SFS_MAXBLOCK * 512 \<Longrightarrow> fbyte s' i k = fbyte s i k"
proof -
  note iD = inode_okD [OF io]
  have keep: "blk s' b = blk s b" if "b \<in> inode_blocks s i" for b using same dj iD(2) that by blast
  have "id_words s' i = id_words s i" using keep iD(4) by (simp add: id_words_def)
  then have bm: "bmap s' i = bmap s i" by (simp add: bmap_def fun_eq_iff)
  then show ib: "inode_blocks s' i = inode_blocks s i" by (simp add: inode_blocks_def)
  show "inode_ok s' i" using io up unfolding inode_ok_def ib bm by auto
  show "fbyte s' i k = fbyte s i k" if "k < SFS_MAXBLOCK * 512"
  proof -
    have "k div 512 < SFS_MAXBLOCK" using that by (simp add: less_mult_imp_div_less)
    then show ?thesis using keep iD(3) by (simp add: fbyte_def Let_def bm)
  qed
qed

section \<open>A small volume\<close>

text \<open>
  A volume of 16 blocks for the examples below: vnode 7 is a file whose only data block, block 4, is behind
  its indirect block, block 3; vnode 8 is an empty directory.
\<close>

definition small_disk :: lhd where
  "small_disk = \<lparr>d_blocks = 16, lh_sectors = (replicate 16 (replicate 512 0))[3 := words_bytes (4 # replicate 127 0)], lh_codes = (\<lambda>_. LHD_OK)\<rparr>"

definition small_file :: sfs_vnode where
  "small_file = \<lparr>vn_refcount = 1, vn_opencount = 0, vn_ops = sfs_fileops,
     sv_i = \<lparr>sfi_size = 8192, sfi_type = SFS_TYPE_FILE, sfi_linkcount = 1, sfi_direct = replicate 15 0, sfi_indirect = 3, sfi_waste = replicate 440 0\<rparr>,
     sv_ino = 5, sv_dirty = False\<rparr>"

definition small_dir :: sfs_vnode where
  "small_dir = \<lparr>vn_refcount = 1, vn_opencount = 0, vn_ops = sfs_dirops,
     sv_i = \<lparr>sfi_size = 0, sfi_type = SFS_TYPE_DIR, sfi_linkcount = 1, sfi_direct = replicate 15 0, sfi_indirect = 0, sfi_waste = replicate 440 0\<rparr>,
     sv_ino = 1, sv_dirty = False\<rparr>"

definition small_sfs :: sfs where
  "small_sfs = \<lparr>sfs_superblk = \<lparr>sp_magic = SFS_MAGIC, sp_nblocks = 16, sp_volname = replicate 32 0, sp_reserved = []\<rparr>, sfs_superdirty = False,
     sfs_device = small_disk, sfs_vnodes = \<lparr>arr_num = 2, arr_max = 2, arr_v = Some [Some 7, Some 8]\<rparr>, sfs_freemap = \<lparr>nbits = 16, bm_v = [0x3f, 0]\<rparr>,
     sfs_freemapdirty = False, svs = [7 \<mapsto> small_file, 8 \<mapsto> small_dir]\<rparr>"

lemma small_blk: "k \<noteq> 3 \<Longrightarrow> k < 16 \<Longrightarrow> blk small_sfs k = replicate 512 0" "blk small_sfs 3 = words_bytes (4 # replicate 127 0)"
  by (simp_all add: blk_def small_sfs_def small_disk_def)

lemma small_usd: "{0, 3, 4} \<subseteq> usd small_sfs"
  by (simp add: usd_def bitmap_used_def bm_bit_def small_sfs_def bit_iff_odd)

lemma small_ok: "sfs_ok small_sfs"
proof -
  have "disk_good small_disk"
    using set_update_subset_insert [of "replicate 16 (replicate 512 (0 :: byte))" 3 "words_bytes (4 # replicate 127 0)"]
    by (auto simp: disk_good_def disk_ok_def small_disk_def LHD_SECTSIZE_def simp del: set_replicate)
  moreover have "bitmap_ok (sfs_freemap small_sfs)" by (auto simp: bitmap_ok_def small_sfs_def u32_max_def)
  ultimately show ?thesis using small_usd by (auto simp: sfs_ok_def) (auto simp: small_sfs_def small_disk_def)
qed

lemma small_bmap: "fb < SFS_MAXBLOCK \<Longrightarrow> bmap small_sfs (sv_i small_file) fb = (if fb = 15 then 4 else 0)"
  "fb < SFS_MAXBLOCK \<Longrightarrow> bmap small_sfs (sv_i small_dir) fb = 0"
proof -
  have "bytes_words SFS_DBPERIDB (words_bytes (4 # replicate 127 0)) = 4 # replicate 127 0"
    using words_of_bytes [of "4 # replicate 127 0" SFS_DBPERIDB "[]"] by (simp add: SFS_DBPERIDB_def)
  then have "id_words small_sfs (sv_i small_file) = 4 # replicate 127 0" by (simp add: id_words_def small_file_def small_blk(2))
  then show "fb < SFS_MAXBLOCK \<Longrightarrow> bmap small_sfs (sv_i small_file) fb = (if fb = 15 then 4 else 0)"
    by (auto simp: bmap_def small_file_def sfs_sizes nth_Cons')
  show "fb < SFS_MAXBLOCK \<Longrightarrow> bmap small_sfs (sv_i small_dir) fb = 0"
    by (auto simp: bmap_def small_dir_def id_words_def sfs_sizes)
qed

lemma small_blocks: "inode_blocks small_sfs (sv_i small_file) = {3, 4}" "inode_blocks small_sfs (sv_i small_dir) = {}"
proof -
  have "bmap small_sfs (sv_i small_file) ` {..<SFS_MAXBLOCK} = (\<lambda>fb. if fb = 15 then 4 else 0) ` {..<SFS_MAXBLOCK}" by (intro image_cong refl) (simp add: small_bmap)
  also have "\<dots> = {0, 4}"
  proof -
    have "(0 :: nat) \<in> (\<lambda>fb. if fb = 15 then 4 else 0) ` {..<SFS_MAXBLOCK}" by (rule image_eqI [of _ _ 0]) (simp_all add: sfs_sizes)
    then show ?thesis by (auto simp: sfs_sizes image_iff)
  qed
  finally show "inode_blocks small_sfs (sv_i small_file) = {3, 4}" by (auto simp: inode_blocks_def small_file_def)
  have "bmap small_sfs (sv_i small_dir) ` {..<SFS_MAXBLOCK} \<subseteq> {0}" using small_bmap(2) by auto
  then show "inode_blocks small_sfs (sv_i small_dir) = {}" by (auto simp: inode_blocks_def small_dir_def)
qed

lemma small_inodes: "inode_ok small_sfs (sv_i small_file)" "inode_ok small_sfs (sv_i small_dir)"
proof -
  have n: "nblks small_sfs = 16" by (simp add: small_sfs_def)
  show "inode_ok small_sfs (sv_i small_file)" unfolding inode_ok_def small_blocks n
    using small_usd small_bmap(1) by (auto split: if_splits) (simp_all add: small_file_def inode_fits_def SFS_NDIRECT_def SFS_TYPE_FILE_def)
  show "inode_ok small_sfs (sv_i small_dir)" unfolding inode_ok_def small_blocks
    using small_bmap(2) by auto (simp_all add: small_dir_def inode_fits_def SFS_NDIRECT_def SFS_TYPE_DIR_def)
qed

lemma small_svs: "svs small_sfs 7 = Some small_file" "svs small_sfs 8 = Some small_dir"
  by (simp_all add: small_sfs_def)

lemma small_file_ok: "file_ok 7 small_sfs" "file_inode 7 small_sfs = sv_i small_file"
  using small_ok small_inodes(1) small_svs(1) by (simp_all add: file_ok_def file_inode_def) (simp_all add: small_file_def sfs_sizes)

lemma small_dir_ok: "dir_ok small_sfs (sv_i small_dir)" "nslots (sv_i small_dir) = 0"
  by (simp_all add: dir_ok_def nslots_def) (simp_all add: small_dir_def)

section \<open>Properties\<close>

text \<open>
  C2. Reading back what was written: a write of \<open>data\<close> at any offset within the largest file either runs
  out of space, with every block of the disk in use, or is complete, and then a read of the same range
  returns \<open>data\<close>; the file stays well-formed in both cases.
\<close>

theorem sfs_write_then_read:
  assumes "file_ok p s" "data \<noteq> []" "off + length data \<le> SFS_MAXBLOCK * 512"
  shows "\<exists>res s'. file_write p data off s = Some (res, s') \<and> file_ok p s' \<and>
    (res = Inl ENOSPC \<and> disk_full s' \<or> res = Inr () \<and> file_read p (length data) off s' = Some (Inr data, s'))"
  by (rule sf.read_written [OF assms])

theorem sfs_write_then_read_witness:
  "\<exists>res s'. file_write 7 [1, 2, 3] 600 small_sfs = Some (res, s') \<and> file_ok 7 s' \<and>
    (res = Inl ENOSPC \<and> disk_full s' \<or> res = Inr () \<and> file_read 7 (length [1, 2, 3 :: byte]) 600 s' = Some (Inr [1, 2, 3], s'))"
  by (rule sfs_write_then_read [OF small_file_ok(1)]) (simp_all add: sfs_sizes)

text \<open>
  C6. A write to a file changes no other file: a file that shares no block with it keeps its inode, its
  blocks and every byte, and the two still share no block afterwards, also when the write runs out of space.
\<close>

theorem sfs_write_other_files:
  assumes "file_ok p s" "data \<noteq> []" "off + length data \<le> SFS_MAXBLOCK * 512" "q \<noteq> p" "svs s q = Some vq" "inode_ok s (sv_i vq)"
    "inode_blocks s (sv_i vq) \<inter> inode_blocks s (file_inode p s) = {}"
  shows "\<exists>res s'. file_write p data off s = Some (res, s') \<and> svs s' q = Some vq \<and> inode_ok s' (sv_i vq) \<and>
    inode_blocks s' (sv_i vq) \<inter> inode_blocks s' (file_inode p s') = {} \<and>
    (\<forall>k < SFS_MAXBLOCK * 512. fbyte s' (sv_i vq) k = fbyte s (sv_i vq) k)"
proof -
  obtain v where v: "svs s p = Some v" "sfi_size (sv_i v) \<le> SFS_MAXBLOCK * 512" "file_inode p s = sv_i v" using assms(1) by (rule file_okD)
  obtain m res s' where a: "file_write p data off s = Some (res, s')" "m \<le> length data"
    "wrote_sz p s s' (upd (file_content p s) off (take m data)) (max (file_len p s) (off + m))" using file_write_spec [OF assms(1-3)] by blast
  have "max (file_len p s) (off + m) < 2 ^ 32" using v(2,3) a(2) assms(3) by (simp add: file_len_def sfs_sizes)
  then obtain w where w: "svs s' p = Some w" "usd s' = usd s \<union> inode_blocks s' (sv_i w)"
    "(inode_blocks s' (sv_i w) - inode_blocks s (sv_i v)) \<inter> usd s = {}"
    "\<And>b. b \<in> usd s \<Longrightarrow> b \<notin> inode_blocks s (sv_i v) \<Longrightarrow> blk s' b = blk s b" "\<And>q. q \<noteq> p \<Longrightarrow> svs s' q = svs s q" "sfs_superblk s' = sfs_superblk s"
    by (rule wrote_szD [OF a(3) _ v(1)]) blast
  have up: "usd s \<subseteq> usd s'" using w(2) by blast
  note kept = other_file_kept [OF assms(6) assms(7) [unfolded v(3)] w(4) up w(6)]
  have "inode_blocks s' (sv_i vq) \<inter> inode_blocks s' (file_inode p s') = {}"
    using w(1,3) assms(7) v(3) inode_okD(2) [OF assms(6)] kept(2) by (auto simp: file_inode_def)
  then show ?thesis using a(1) kept w(5) assms(4,5) by auto
qed

theorem sfs_write_other_files_witness:
  "\<exists>res s'. file_write 7 [1, 2, 3] 600 small_sfs = Some (res, s') \<and> svs s' 8 = Some small_dir \<and> inode_ok s' (sv_i small_dir) \<and>
    inode_blocks s' (sv_i small_dir) \<inter> inode_blocks s' (file_inode 7 s') = {} \<and>
    (\<forall>k < SFS_MAXBLOCK * 512. fbyte s' (sv_i small_dir) k = fbyte small_sfs (sv_i small_dir) k)"
  by (rule sfs_write_other_files [OF small_file_ok(1) _ _ _ small_svs(2) small_inodes(2)]) (simp_all add: sfs_sizes small_blocks)

text \<open>
  C32. \<^verbatim>\<open>sfs_dir_link\<close> adds exactly one name to a directory: unless the disk is full, afterwards the name is found
  with its inode number, every other name is found as before, and the directory still has no name twice.
\<close>

theorem sfs_dir_link_adds_name:
  assumes "sfs_ok s" "svs s p = Some v" "inode_ok s (sv_i v)" "dir_ok s (sv_i v)" "0 \<notin> set name" "length name < SFS_NAMELEN"
    "lookup_name s (sv_i v) name = None" "ino < 2 ^ 32" "ino \<noteq> SFS_NOINO" "nslots (sv_i v) < SFS_MAXBLOCK * 8"
  shows "\<exists>res s'. sfs_dir_link p name ino s = Some (res, s') \<and>
    (res = Inl ENOSPC \<and> {..<nblks s} \<subseteq> usd s' \<or>
     (\<exists>slot w. res = Inr slot \<and> svs s' p = Some w \<and> dir_ok s' (sv_i w) \<and>
       (\<forall>nm. map_option (map_sum id fst \<circ> fst) (sfs_dir_findname p nm s') =
          Some (Inr (if nm = name then Some (ino, slot) else lookup_name s (sv_i v) nm)))))"
proof -
  obtain s' w where c: "sfs_dir_link p name ino s = Some (Inl ENOSPC, s') \<and> {..<nblks s} \<subseteq> usd s' \<or>
     sfs_dir_link p name ino s = Some (Inr (link_slot s (sv_i v)), s') \<and> sfs_ok s' \<and> svs s' p = Some w \<and> inode_ok s' (sv_i w) \<and> dir_ok s' (sv_i w) \<and>
     (\<forall>nm'. lookup_name s' (sv_i w) nm' = (if nm' = name then Some (ino, link_slot s (sv_i v)) else lookup_name s (sv_i v) nm'))"
    using sfs_dir_link_spec [OF assms] by blast
  then show ?thesis
  proof (elim disjE conjE)
    assume l: "sfs_dir_link p name ino s = Some (Inr (link_slot s (sv_i v)), s')" and st: "sfs_ok s'" "svs s' p = Some w" "inode_ok s' (sv_i w)" "dir_ok s' (sv_i w)"
      and nms: "\<forall>nm'. lookup_name s' (sv_i w) nm' = (if nm' = name then Some (ino, link_slot s (sv_i v)) else lookup_name s (sv_i v) nm')"
    show ?thesis using l st(2,4) nms by (intro exI [of _ "Inr (link_slot s (sv_i v))"] exI [of _ s']) (simp add: sfs_dir_findname_eq [OF st])
  qed auto
qed

theorem sfs_dir_link_adds_name_witness:
  "\<exists>res s'. sfs_dir_link 8 [104, 105] 5 small_sfs = Some (res, s') \<and>
    (res = Inl ENOSPC \<and> {..<nblks small_sfs} \<subseteq> usd s' \<or>
     (\<exists>slot w. res = Inr slot \<and> svs s' 8 = Some w \<and> dir_ok s' (sv_i w) \<and>
       (\<forall>nm. map_option (map_sum id fst \<circ> fst) (sfs_dir_findname 8 nm s') =
          Some (Inr (if nm = [104, 105] then Some (5, slot) else lookup_name small_sfs (sv_i small_dir) nm)))))"
  by (rule sfs_dir_link_adds_name [OF small_ok small_svs(2) small_inodes(2) small_dir_ok(1)])
    (simp_all add: SFS_NAMELEN_def SFS_NOINO_def lookup_name_def small_dir_ok(2) sfs_sizes)





text \<open>
  C35. A media error on a write is lost: when the first attempt to write a block fails with such an error,
  \<^verbatim>\<open>sfs_wblock\<close> returns success, no later operation is started on the disk, and the disk still has the old
  contents.  The retry loop passes the same \<^verbatim>\<open>uio\<close>, which the failed attempt has used up.
\<close>

theorem sfs_wblock_loses_media_error:
  assumes "disk_ok lh" "block < d_blocks lh" "length data = SFS_BLOCKSIZE" "lh_codes lh 0 = LHD_MEDIA"
  shows "\<exists>lh'. sfs_wblock data block lh = Some (Inr (), lh') \<and> lh_sectors lh' = lh_sectors lh \<and> (\<forall>k. lh_codes lh' k = lh_codes lh (Suc k))"
  using sfs_wblock_media [OF assms] by simp

theorem sfs_wblock_loses_media_error_witness:
  "\<exists>lh'. sfs_wblock (replicate SFS_BLOCKSIZE 1) 5 (small_disk\<lparr>lh_codes := (\<lambda>k. if k = 0 then LHD_MEDIA else LHD_OK)\<rparr>) = Some (Inr (), lh') \<and>
     lh_sectors lh' = lh_sectors small_disk \<and> (\<forall>k. lh_codes lh' k = LHD_OK)"
proof -
  let ?lh = "small_disk\<lparr>lh_codes := (\<lambda>k. if k = 0 then LHD_MEDIA else LHD_OK)\<rparr>"
  have "disk_ok small_disk" using sfs_okD(1) [OF small_ok] by (simp add: disk_good_def small_sfs_def)
  then have "disk_ok ?lh" "5 < d_blocks ?lh" by (simp_all add: disk_ok_def) (simp add: small_disk_def)
  then show ?thesis using sfs_wblock_loses_media_error [of ?lh 5 "replicate SFS_BLOCKSIZE 1"] by simp
qed

end
