(* ===== verification/Coremap.thy ===== *)
theory Coremap
  imports Kheap Uio
begin

text \<open>
  The map of physical frames (\<^verbatim>\<open>kern/vm/coremap.c\<close>): allocation of one frame and of runs of frames, and
  their release.  The state has the entries, the frames' contents by index, and the two counters;
  \<^verbatim>\<open>num_coremap_entries\<close> is the number of entries.  The field \<^verbatim>\<open>as\<close>, which is always \<^verbatim>\<open>NULL\<close>, and the
  debugging output under \<^verbatim>\<open>flag_print\<close> are left out.
\<close>

section \<open>Model\<close>

record coremap_entry =
  ce_selfAddr :: nat
  ce_pageState :: char
  ce_startAddr :: nat
  ce_length :: nat
  ce_isKernel :: nat
  ce_fixed :: nat
  ce_reference :: nat
  ce_counter :: nat
  ce_dirty :: nat
  ce_copy :: nat
  ce_vaddr :: nat
  ce_pd_addr :: nat
  ce_pt_addr :: nat

record coremap_state =
  coremap :: "coremap_entry list"
  base_coremap_page :: nat
  num_coremap_free :: nat
  frames :: "nat \<Rightarrow> byte list"

abbreviation num_coremap_entries :: "('a) coremap_state_scheme \<Rightarrow> nat" where
  "num_coremap_entries c \<equiv> length (coremap c)"

definition COREMAP_TO_PADDR :: "('a) coremap_state_scheme \<Rightarrow> nat \<Rightarrow> nat" where
  "COREMAP_TO_PADDR c i = PAGE_SIZE * (i + base_coremap_page c) mod u32_max"

definition PADDR_TO_COREMAP :: "('a) coremap_state_scheme \<Rightarrow> nat \<Rightarrow> nat" where
  "PADDR_TO_COREMAP c page = nat ((int (page div PAGE_SIZE) - int (base_coremap_page c)) mod 2 ^ 32)"

definition MIPS_KSEG0 :: nat where
  "MIPS_KSEG0 = 0x80000000"

definition PADDR_TO_KVADDR :: "nat \<Rightarrow> nat" where
  "PADDR_TO_KVADDR paddr = (paddr + MIPS_KSEG0) mod u32_max"

definition KVADDR_TO_PADDR :: "nat \<Rightarrow> nat" where
  "KVADDR_TO_PADDR vaddr = nat ((int vaddr - int MIPS_KSEG0) mod 2 ^ 32)"

text \<open>A fresh entry at the index whose address is \<open>a\<close>; the size of the struct is 56 bytes.\<close>

definition free_entry :: "nat \<Rightarrow> coremap_entry" where
  "free_entry a = \<lparr>ce_selfAddr = a, ce_pageState = CHR ''H'', ce_startAddr = 0, ce_length = 0, ce_isKernel = 0, ce_fixed = 0,
     ce_reference = 0, ce_counter = 0, ce_dirty = 0, ce_copy = 0, ce_vaddr = 0, ce_pd_addr = 0, ce_pt_addr = 0\<rparr>"

definition coremap_bootstrap :: "nat \<Rightarrow> nat \<Rightarrow> (nat \<Rightarrow> byte list) \<Rightarrow> coremap_state outcome" where
  "coremap_bootstrap firstpaddr lastpaddr mem = do {
     let numFrame = (lastpaddr - firstpaddr) div PAGE_SIZE;
     let coremapsize = (numFrame * 56 + PAGE_SIZE - 1) div PAGE_SIZE * PAGE_SIZE;
     let base = (firstpaddr + coremapsize) div PAGE_SIZE;
     let entries = lastpaddr div PAGE_SIZE - base;
     kassert (entries + coremapsize div PAGE_SIZE = numFrame);
     Some \<lparr>coremap = map (\<lambda>i. free_entry (PAGE_SIZE * (i + base))) [0..<entries], base_coremap_page = base, num_coremap_free = entries, frames = mem\<rparr>
   }"

definition set_kernel :: "int \<Rightarrow> coremap_entry \<Rightarrow> coremap_entry" where
  "set_kernel kern e = (if kern = 1 then e\<lparr>ce_isKernel := 1\<rparr> else if kern = 0 then e\<lparr>ce_isKernel := 0\<rparr> else e)"

text \<open>The search for the first frame that is not in use, in the entries from index \<open>i\<close> on.\<close>

fun first_free :: "coremap_entry list \<Rightarrow> nat \<Rightarrow> nat option" where
  "first_free [] i = None"
| "first_free (e # es) i = (if ce_pageState e = CHR ''P'' then first_free es (Suc i) else Some i)"

text \<open>The result is 0 where there is no frame.  Without a candidate the access is to \<^verbatim>\<open>coremap[-1]\<close>.\<close>

definition coremapAllocateOneFrame :: "int \<Rightarrow> ('a) coremap_state_scheme \<Rightarrow> (nat \<times> ('a) coremap_state_scheme) outcome" where
  "coremapAllocateOneFrame kern c =
     (if num_coremap_free c = 0 then Some (0, c)
      else do {
        candidate \<leftarrow> first_free (coremap c) 0;
        let e = coremap c ! candidate;
        let e' = set_kernel kern (e\<lparr>ce_startAddr := ce_selfAddr e, ce_length := 1, ce_pageState := CHR ''P''\<rparr>);
        Some (COREMAP_TO_PADDR c candidate, c\<lparr>coremap := (coremap c)[candidate := e'], num_coremap_free := num_coremap_free c - 1\<rparr>)
      })"

text \<open>The inner loop over the entries behind a candidate, at index \<open>j\<close> with \<open>cnt\<close> free frames seen.\<close>

datatype run_scan = RunFound | RunStop nat | RunEnd

fun scan_run :: "coremap_entry list \<Rightarrow> nat \<Rightarrow> int \<Rightarrow> nat \<Rightarrow> run_scan" where
  "scan_run [] j n cnt = RunEnd"
| "scan_run (e # es) j n cnt =
     (if ce_pageState e = CHR ''H'' then (if n = int cnt + 2 then RunFound else scan_run es (Suc j) n (Suc cnt))
      else if ce_pageState e = CHR ''P'' \<and> n \<noteq> int cnt + 1 then RunStop j
      else scan_run es (Suc j) n cnt)"

lemma scan_run_stop: "scan_run es j n cnt = RunStop k \<Longrightarrow> j \<le> k"
  by (induction es j n cnt rule: scan_run.induct) (auto split: if_splits)

text \<open>
  The outer loop from index \<open>i\<close> on; \<open>candidate\<close> is \<open>None\<close> before it is first set.  When the loop ends without
  a \<^verbatim>\<open>goto\<close>, the last candidate is used.
\<close>

function find_run :: "coremap_entry list \<Rightarrow> int \<Rightarrow> nat \<Rightarrow> nat option \<Rightarrow> nat option" where
  "find_run cm n i candidate =
     (if i < length cm then
        if ce_pageState (cm ! i) = CHR ''P'' then find_run cm n (Suc i) candidate
        else case scan_run (drop (Suc i) cm) (Suc i) n 0 of
          RunFound \<Rightarrow> Some i
        | RunStop j \<Rightarrow> find_run cm n (Suc j) (Some i)
        | RunEnd \<Rightarrow> find_run cm n (Suc i) (Some i)
      else candidate)"
  by pat_completeness auto
termination
  by (relation "measure (\<lambda>(cm, n, i, c). length cm - i)") (auto dest: scan_run_stop)

declare find_run.simps [simp del]

text \<open>Marking \<open>k\<close> frames from index \<open>i\<close> on as a run of \<open>n\<close>.\<close>

fun mark_run :: "nat \<Rightarrow> nat \<Rightarrow> nat \<Rightarrow> int \<Rightarrow> coremap_entry list \<Rightarrow> coremap_entry list outcome" where
  "mark_run 0 i n kern cm = Some cm"
| "mark_run (Suc k) i n kern cm = do {
     e \<leftarrow> load_cell cm i;
     mark_run k (Suc i) n kern (cm[i := set_kernel kern (e\<lparr>ce_pageState := CHR ''P'', ce_length := n\<rparr>)])
   }"

definition coremapAllocateMultipleFrame :: "int \<Rightarrow> int \<Rightarrow> ('a) coremap_state_scheme \<Rightarrow> (nat \<times> ('a) coremap_state_scheme) outcome" where
  "coremapAllocateMultipleFrame n kern c =
     (if n > int (num_coremap_free c) then Some (0, c)
      else do {
        candidate \<leftarrow> find_run (coremap c) n 0 None;
        e \<leftarrow> load_cell (coremap c) candidate;
        cm \<leftarrow> mark_run (nat n) candidate (nat (n mod 2 ^ 32)) kern ((coremap c)[candidate := e\<lparr>ce_startAddr := ce_selfAddr e\<rparr>]);
        Some (COREMAP_TO_PADDR c candidate, c\<lparr>coremap := cm, num_coremap_free := nat ((int (num_coremap_free c) - n) mod 2 ^ 32)\<rparr>)
      })"

text \<open>Releasing the entry at index \<open>i\<close>; the field \<^verbatim>\<open>fixed\<close> is left as it is.\<close>

definition clear_entry :: "coremap_entry \<Rightarrow> coremap_entry" where
  "clear_entry e = (free_entry (ce_selfAddr e))\<lparr>ce_fixed := ce_fixed e\<rparr>"

definition zero_page :: "byte list" where
  "zero_page = replicate PAGE_SIZE 0"

fun clear_run :: "nat \<Rightarrow> nat \<Rightarrow> ('a) coremap_state_scheme \<Rightarrow> ('a) coremap_state_scheme outcome" where
  "clear_run 0 i c = Some c"
| "clear_run (Suc k) i c = do {
     e \<leftarrow> load_cell (coremap c) i;
     clear_run k (Suc i) (c\<lparr>coremap := (coremap c)[i := clear_entry e], frames := (frames c)(i := zero_page)\<rparr>)
   }"

definition coremapFree :: "nat \<Rightarrow> ('a) coremap_state_scheme \<Rightarrow> ('a) coremap_state_scheme outcome" where
  "coremapFree page c = do {
     let ppn = PADDR_TO_COREMAP c page;
     kassert (ppn < num_coremap_entries c);
     let e = coremap c ! ppn;
     if ce_length e = 1 then do {
       kassert (page = ce_startAddr e);
       Some (c\<lparr>coremap := (coremap c)[ppn := clear_entry e], frames := (frames c)(ppn := zero_page),
         num_coremap_free := (num_coremap_free c + 1) mod u32_max\<rparr>)
     }
     else if ce_length e > 1 then do {
       kassert (page = ce_startAddr e);
       clear_run (ce_length e) ppn (c\<lparr>num_coremap_free := (num_coremap_free c + ce_length e) mod u32_max\<rparr>)
     }
     else Some c
   }"

text \<open>
  \<^verbatim>\<open>getppages\<close>, \<^verbatim>\<open>alloc_kpages\<close> and \<^verbatim>\<open>free_kpages\<close> of \<^verbatim>\<open>kern/vm/addrspace.c\<close>.  The state has the interrupt level too:
  when there is no frame, \<^verbatim>\<open>getppages\<close> returns without restoring it.
\<close>

definition SPL_HIGH :: int where "SPL_HIGH = 15"

definition getppages :: "nat \<Rightarrow> int \<Rightarrow> int \<Rightarrow> ('a) coremap_state_scheme \<Rightarrow> (nat \<times> int \<times> ('a) coremap_state_scheme) outcome" where
  "getppages npages kern spl c = do {
     (addr, c1) \<leftarrow> (if npages > 1 then coremapAllocateMultipleFrame (wrap32 (int npages)) kern c else coremapAllocateOneFrame kern c);
     if addr = 0 then Some (0, SPL_HIGH, c1) else Some (addr, spl, c1)
   }"

definition alloc_kpages :: "int \<Rightarrow> int \<Rightarrow> ('a) coremap_state_scheme \<Rightarrow> (nat \<times> int \<times> ('a) coremap_state_scheme) outcome" where
  "alloc_kpages npages spl c = do {
     (pa, spl1, c1) \<leftarrow> getppages (nat (npages mod 2 ^ 32)) 1 spl c;
     if pa = 0 then Some (0, spl1, c1) else Some (PADDR_TO_KVADDR pa, spl1, c1)
   }"

definition free_kpages :: "nat \<Rightarrow> ('a) coremap_state_scheme \<Rightarrow> ('a) coremap_state_scheme outcome" where
  "free_kpages addr c = coremapFree (KVADDR_TO_PADDR addr) c"

section \<open>Runs of frames\<close>

text \<open>
  An allocated run is a start index and a number of frames.  The invariant says that the runs that the
  entries describe do not overlap and cover exactly the frames in use, and that the counter is right.
\<close>

definition cm_runs :: "coremap_entry list \<Rightarrow> (nat \<times> nat) set" where
  "cm_runs cm = {(i, ce_length (cm ! i)) | i. i < length cm \<and> ce_startAddr (cm ! i) \<noteq> 0}"

definition cm_free :: "coremap_entry list \<Rightarrow> nat set" where
  "cm_free cm = {i. i < length cm \<and> ce_pageState (cm ! i) = CHR ''H''}"

definition run_ok :: "coremap_entry list \<Rightarrow> nat \<Rightarrow> bool" where
  "run_ok cm i \<longleftrightarrow> ce_startAddr (cm ! i) = ce_selfAddr (cm ! i) \<and>
     (\<exists>n > 0. i + n \<le> length cm \<and>
       (\<forall>k. i \<le> k \<and> k < i + n \<longrightarrow> ce_pageState (cm ! k) = CHR ''P'' \<and> ce_length (cm ! k) = n \<and> (k \<noteq> i \<longrightarrow> ce_startAddr (cm ! k) = 0)))"

definition cm_ok :: "nat \<Rightarrow> coremap_entry list \<Rightarrow> bool" where
  "cm_ok base cm \<longleftrightarrow> 0 < base \<and> (base + length cm) * PAGE_SIZE \<le> 2 ^ 31 \<and>
     (\<forall>i < length cm. ce_selfAddr (cm ! i) = PAGE_SIZE * (i + base) \<and> ce_pageState (cm ! i) \<in> {CHR ''P'', CHR ''H''} \<and>
        (ce_pageState (cm ! i) = CHR ''H'' \<longrightarrow> ce_startAddr (cm ! i) = 0 \<and> ce_length (cm ! i) = 0) \<and>
        (ce_startAddr (cm ! i) \<noteq> 0 \<longrightarrow> run_ok cm i) \<and>
        (ce_pageState (cm ! i) = CHR ''P'' \<longrightarrow> (\<exists>(s, n) \<in> cm_runs cm. s \<le> i \<and> i < s + n)))"

definition coremap_ok :: "('a) coremap_state_scheme \<Rightarrow> bool" where
  "coremap_ok c \<longleftrightarrow> cm_ok (base_coremap_page c) (coremap c) \<and> num_coremap_free c = card (cm_free (coremap c))"

lemma cm_okD:
  assumes "cm_ok base cm"
  shows "0 < base" "(base + length cm) * PAGE_SIZE \<le> 2 ^ 31" "i < length cm \<Longrightarrow> ce_selfAddr (cm ! i) = PAGE_SIZE * (i + base)"
    "i < length cm \<Longrightarrow> ce_pageState (cm ! i) = CHR ''P'' \<or> ce_pageState (cm ! i) = CHR ''H''"
    "i \<in> cm_free cm \<Longrightarrow> ce_startAddr (cm ! i) = 0 \<and> ce_length (cm ! i) = 0"
    "i < length cm \<Longrightarrow> ce_startAddr (cm ! i) \<noteq> 0 \<Longrightarrow> run_ok cm i"
    "i < length cm \<Longrightarrow> i \<notin> cm_free cm \<Longrightarrow> \<exists>s n. (s, n) \<in> cm_runs cm \<and> s \<le> i \<and> i < s + n"
  using assms unfolding cm_ok_def cm_free_def by blast+

lemma cm_runsD:
  assumes ok: "cm_ok base cm" and r: "(s, n) \<in> cm_runs cm"
  shows "s < length cm" "n = ce_length (cm ! s)" "ce_startAddr (cm ! s) = PAGE_SIZE * (s + base)" "0 < n" "s + n \<le> length cm" "{s..<s + n} \<inter> cm_free cm = {}"
    "k \<in> {s..<s + n} \<Longrightarrow> ce_length (cm ! k) = n" "k \<in> {s..<s + n} \<Longrightarrow> k \<noteq> s \<Longrightarrow> ce_startAddr (cm ! k) = 0"
proof -
  show s: "s < length cm" "n = ce_length (cm ! s)" using r by (auto simp: cm_runs_def)
  have "ce_startAddr (cm ! s) \<noteq> 0" using r by (auto simp: cm_runs_def)
  then have "run_ok cm s" by (rule cm_okD(6) [OF ok s(1)])
  then obtain m where m: "0 < m" "s + m \<le> length cm" "ce_startAddr (cm ! s) = ce_selfAddr (cm ! s)"
    and in_run: "\<And>k. s \<le> k \<Longrightarrow> k < s + m \<Longrightarrow> ce_pageState (cm ! k) = CHR ''P'' \<and> ce_length (cm ! k) = m \<and> (k \<noteq> s \<longrightarrow> ce_startAddr (cm ! k) = 0)"
    unfolding run_ok_def by blast
  have n: "m = n" using in_run [of s] m(1) s(2) by simp
  show "ce_startAddr (cm ! s) = PAGE_SIZE * (s + base)" "0 < n" "s + n \<le> length cm" using m n cm_okD(3) [OF ok s(1)] by simp_all
  show "{s..<s + n} \<inter> cm_free cm = {}" unfolding disjoint_iff using in_run n by (auto simp: cm_free_def)
  show "ce_length (cm ! k) = n" if "k \<in> {s..<s + n}" using in_run [of k] that n by simp
  show "ce_startAddr (cm ! k) = 0" if "k \<in> {s..<s + n}" "k \<noteq> s" using in_run [of k] that n by simp
qed

text \<open>Two different runs have no frame in common.\<close>

lemma cm_runs_disjoint:
  assumes ok: "cm_ok base cm" and r: "(s, n) \<in> cm_runs cm" "(t, m) \<in> cm_runs cm" "(s, n) \<noteq> (t, m)"
  shows "{s..<s + n} \<inter> {t..<t + m} = {}"
proof (rule ccontr)
  assume "\<not> ?thesis"
  then obtain k where "k \<in> {s..<s + n}" "k \<in> {t..<t + m}" by blast
  then have k: "s \<le> k" "k < s + n" "t \<le> k" "k < t + m" by simp_all
  have nz: "ce_startAddr (cm ! s) \<noteq> 0" "ce_startAddr (cm ! t) \<noteq> 0" using r by (auto simp: cm_runs_def)
  have "s \<noteq> t" using r by (auto simp: cm_runs_def)
  then show False
  proof (cases s t rule: linorder_cases)
    case less
    then have "ce_startAddr (cm ! t) = 0" using k by (intro cm_runsD(8) [OF ok r(1)]) auto
    then show ?thesis using nz by simp
  next
    case greater
    then have "ce_startAddr (cm ! s) = 0" using k by (intro cm_runsD(8) [OF ok r(2)]) auto
    then show ?thesis using nz by simp
  qed simp
qed

lemma run_ok_same:
  assumes ro: "run_ok cm k" and len: "length cm' = length cm" and same: "\<And>j. k \<le> j \<Longrightarrow> j < k + ce_length (cm ! k) \<Longrightarrow> cm' ! j = cm ! j"
  shows "run_ok cm' k"
proof -
  obtain n where n: "0 < n" "k + n \<le> length cm" "ce_startAddr (cm ! k) = ce_selfAddr (cm ! k)"
    and in_run: "\<And>j. k \<le> j \<Longrightarrow> j < k + n \<Longrightarrow> ce_pageState (cm ! j) = CHR ''P'' \<and> ce_length (cm ! j) = n \<and> (j \<noteq> k \<longrightarrow> ce_startAddr (cm ! j) = 0)"
    using ro unfolding run_ok_def by blast
  have "ce_length (cm ! k) = n" using in_run [of k] n(1) by simp
  then have eq: "cm' ! j = cm ! j" if "k \<le> j" "j < k + n" for j using same that by simp
  then have "cm' ! k = cm ! k" using n(1) by simp
  then show ?thesis unfolding run_ok_def len using n in_run eq by (intro conjI exI [of _ n]) simp_all
qed

section \<open>Adding and removing a run\<close>

definition run_added :: "nat \<Rightarrow> nat \<Rightarrow> coremap_entry list \<Rightarrow> coremap_entry list \<Rightarrow> bool" where
  "run_added i n cm cm' \<longleftrightarrow> length cm' = length cm \<and>
     (\<forall>k < length cm. if i \<le> k \<and> k < i + n
        then ce_selfAddr (cm' ! k) = ce_selfAddr (cm ! k) \<and> ce_pageState (cm' ! k) = CHR ''P'' \<and> ce_length (cm' ! k) = n \<and>
          ce_startAddr (cm' ! k) = (if k = i then ce_selfAddr (cm ! k) else ce_startAddr (cm ! k))
        else cm' ! k = cm ! k)"

lemma run_added_ok:
  assumes ok: "cm_ok base cm" and free: "{i..<i + n} \<subseteq> cm_free cm" and n: "0 < n" "i + n \<le> length cm" and add: "run_added i n cm cm'"
  shows "cm_ok base cm'" "cm_runs cm' = insert (i, n) (cm_runs cm)" "cm_free cm' = cm_free cm - {i..<i + n}"
proof -
  note okD = cm_okD [OF ok]
  have len: "length cm' = length cm" using add by (simp add: run_added_def)
  have inr: "ce_selfAddr (cm' ! k) = ce_selfAddr (cm ! k)" "ce_pageState (cm' ! k) = CHR ''P''" "ce_length (cm' ! k) = n"
    "ce_startAddr (cm' ! k) = (if k = i then ce_selfAddr (cm ! k) else 0)" if "k \<in> {i..<i + n}" for k
    using add that n(2) okD(5) [of k] free unfolding run_added_def by (auto dest!: spec [of _ k])
  have out: "cm' ! k = cm ! k" if "k < length cm" "k \<notin> {i..<i + n}" for k using add that unfolding run_added_def by auto
  have self: "0 < ce_selfAddr (cm ! i)" using okD(1) okD(3) [of i] n by (simp add: PAGE_SIZE_def)
  have i: "i \<in> {i..<i + n}" using n by simp
  have start: "ce_startAddr (cm' ! k) \<noteq> 0 \<longleftrightarrow> k = i \<or> (k \<notin> {i..<i + n} \<and> ce_startAddr (cm ! k) \<noteq> 0)" if "k < length cm" for k
    using inr(4) [of k] out [OF that] self i by (cases "k \<in> {i..<i + n}") auto
  have frees: "ce_startAddr (cm ! k) = 0" if "k \<in> {i..<i + n}" for k using okD(5) free that by blast
  show fr: "cm_free cm' = cm_free cm - {i..<i + n}"
  proof (rule set_eqI)
    show "k \<in> cm_free cm' \<longleftrightarrow> k \<in> cm_free cm - {i..<i + n}" for k
      using inr(2) [of k] out [of k] by (cases "k \<in> {i..<i + n}") (auto simp: cm_free_def len)
  qed
  show runs: "cm_runs cm' = insert (i, n) (cm_runs cm)"
  proof -
    have "(s, m) \<in> cm_runs cm' \<longleftrightarrow> (s, m) = (i, n) \<or> (s, m) \<in> cm_runs cm" for s m
      using start [of s] frees [of s] inr(3) [OF i] out [of s] i n unfolding cm_runs_def len by auto
    then show ?thesis by auto
  qed
  have ro: "run_ok cm' k" if k: "k < length cm" "ce_startAddr (cm' ! k) \<noteq> 0" for k
  proof (cases "k = i")
    case True
    have "ce_selfAddr (cm' ! i) = ce_selfAddr (cm ! i)" "ce_startAddr (cm' ! i) = ce_selfAddr (cm ! i)" using inr(1,4) [OF i] by simp_all
    then show ?thesis using True n inr(3) [OF i] inr(2,3,4) by (auto simp: run_ok_def len)
  next
    case False
    then have k': "k \<notin> {i..<i + n}" "ce_startAddr (cm ! k) \<noteq> 0" using start [OF k(1)] k(2) by auto
    have rk: "(k, ce_length (cm ! k)) \<in> cm_runs cm" using k(1) k'(2) by (auto simp: cm_runs_def)
    have dj: "j \<notin> {i..<i + n}" if "k \<le> j" "j < k + ce_length (cm ! k)" for j
    proof -
      have "j \<in> {k..<k + ce_length (cm ! k)}" using that by simp
      then show ?thesis using cm_runsD(6) [OF ok rk] free by blast
    qed
    have same: "cm' ! j = cm ! j" if "k \<le> j" "j < k + ce_length (cm ! k)" for j using dj [OF that] out [of j] that cm_runsD(5) [OF ok rk] by simp
    show ?thesis by (rule run_ok_same [OF okD(6) [OF k(1) k'(2)] len same])
  qed
  have cov: "\<exists>(s, m) \<in> cm_runs cm'. s \<le> k \<and> k < s + m" if "k < length cm" "k \<notin> cm_free cm'" for k
  proof (cases "k \<in> {i..<i + n}")
    case True
    then show ?thesis unfolding runs by (intro bexI [of _ "(i, n)"]) auto
  next
    case False
    then have "k \<notin> cm_free cm" using that fr by blast
    then show ?thesis using okD(7) [OF that(1)] unfolding runs by blast
  qed
  show "cm_ok base cm'" unfolding cm_ok_def len
  proof (intro conjI allI impI okD(1,2))
    fix k assume k: "k < length cm"
    show "ce_selfAddr (cm' ! k) = PAGE_SIZE * (k + base)" using okD(3) [OF k] inr(1) [of k] out [OF k] by (cases "k \<in> {i..<i + n}") simp_all
    show "ce_pageState (cm' ! k) \<in> {CHR ''P'', CHR ''H''}" using okD(4) [OF k] inr(2) [of k] out [OF k] by (cases "k \<in> {i..<i + n}") auto
    show "ce_startAddr (cm' ! k) \<noteq> 0 \<Longrightarrow> run_ok cm' k" by (rule ro [OF k])
    show "ce_startAddr (cm' ! k) = 0" "ce_length (cm' ! k) = 0" if "ce_pageState (cm' ! k) = CHR ''H''"
    proof -
      have "k \<in> cm_free cm'" using k that len by (simp add: cm_free_def)
      then have "k \<in> cm_free cm" "k \<notin> {i..<i + n}" using fr by auto
      then show "ce_startAddr (cm' ! k) = 0" "ce_length (cm' ! k) = 0" using okD(5) out [OF k] by simp_all
    qed
    show "\<exists>(s, m) \<in> cm_runs cm'. s \<le> k \<and> k < s + m" if "ce_pageState (cm' ! k) = CHR ''P''"
      using that by (intro cov [OF k]) (simp add: cm_free_def)
  qed
qed

definition run_removed :: "nat \<Rightarrow> nat \<Rightarrow> coremap_entry list \<Rightarrow> coremap_entry list \<Rightarrow> bool" where
  "run_removed i n cm cm' \<longleftrightarrow> length cm' = length cm \<and> (\<forall>k < length cm. cm' ! k = (if i \<le> k \<and> k < i + n then clear_entry (cm ! k) else cm ! k))"

lemma clear_entry_simps [simp]:
  "ce_selfAddr (clear_entry e) = ce_selfAddr e" "ce_pageState (clear_entry e) = CHR ''H''" "ce_startAddr (clear_entry e) = 0" "ce_length (clear_entry e) = 0"
  by (simp_all add: clear_entry_def free_entry_def)

lemma run_removed_ok:
  assumes ok: "cm_ok base cm" and r: "(i, n) \<in> cm_runs cm" and rem: "run_removed i n cm cm'"
  shows "cm_ok base cm'" "cm_runs cm' = cm_runs cm - {(i, n)}" "cm_free cm' = cm_free cm \<union> {i..<i + n}"
proof -
  note okD = cm_okD [OF ok] and rD = cm_runsD [OF ok r]
  have len: "length cm' = length cm" using rem by (simp add: run_removed_def)
  have nth: "cm' ! k = (if k \<in> {i..<i + n} then clear_entry (cm ! k) else cm ! k)" if "k < length cm" for k using rem that by (simp add: run_removed_def)
  have inl: "k < length cm" if "k \<in> {i..<i + n}" for k using rD(5) that by simp
  show fr: "cm_free cm' = cm_free cm \<union> {i..<i + n}" unfolding cm_free_def len using inl by (auto simp: nth split: if_splits)
  have only: "k = i" if "k \<in> {i..<i + n}" "ce_startAddr (cm ! k) \<noteq> 0" for k using rD(8) [OF that(1)] that(2) by blast
  have i: "i \<in> {i..<i + n}" using rD(4) by simp
  show runs: "cm_runs cm' = cm_runs cm - {(i, n)}"
  proof -
    have "(s, m) \<in> cm_runs cm' \<longleftrightarrow> (s, m) \<in> cm_runs cm \<and> (s, m) \<noteq> (i, n)" for s m
      using only [of s] rD(2) i unfolding cm_runs_def len by (auto simp: nth split: if_splits)
    then show ?thesis by auto
  qed
  have ro: "run_ok cm' k" if k: "k < length cm" "ce_startAddr (cm' ! k) \<noteq> 0" for k
  proof -
    have k': "k \<notin> {i..<i + n}" "ce_startAddr (cm ! k) \<noteq> 0" using k(2) nth [OF k(1)] by (auto split: if_splits)
    have rk: "(k, ce_length (cm ! k)) \<in> cm_runs cm" using k(1) k'(2) by (auto simp: cm_runs_def)
    have "(k, ce_length (cm ! k)) \<noteq> (i, n)" using k'(1) i by auto
    then have dj: "{k..<k + ce_length (cm ! k)} \<inter> {i..<i + n} = {}" using cm_runs_disjoint [OF ok rk r] by blast
    show ?thesis
    proof (rule run_ok_same [OF okD(6) [OF k(1) k'(2)] len])
      fix j assume that: "k \<le> j" "j < k + ce_length (cm ! k)"
      then have "j \<in> {k..<k + ce_length (cm ! k)}" by simp
      then have "j \<notin> {i..<i + n}" using dj by blast
      then show "cm' ! j = cm ! j" using nth [of j] that cm_runsD(5) [OF ok rk] by (simp only: if_False)
    qed
  qed
  show "cm_ok base cm'" unfolding cm_ok_def len
  proof (intro conjI allI impI okD(1,2))
    fix k assume k: "k < length cm"
    show "ce_selfAddr (cm' ! k) = PAGE_SIZE * (k + base)" using okD(3) [OF k] by (simp add: nth [OF k])
    show "ce_pageState (cm' ! k) \<in> {CHR ''P'', CHR ''H''}" using okD(4) [OF k] by (auto simp: nth [OF k])
    show "ce_startAddr (cm' ! k) \<noteq> 0 \<Longrightarrow> run_ok cm' k" by (rule ro [OF k])
    show "ce_startAddr (cm' ! k) = 0" "ce_length (cm' ! k) = 0" if "ce_pageState (cm' ! k) = CHR ''H''"
      using that okD(5) [of k] k by (auto simp: nth [OF k] cm_free_def split: if_splits)
    show "\<exists>(s, m) \<in> cm_runs cm'. s \<le> k \<and> k < s + m" if "ce_pageState (cm' ! k) = CHR ''P''"
    proof -
      have "k \<notin> {i..<i + n}" "k \<notin> cm_free cm" using that k by (auto simp: nth [OF k] cm_free_def split: if_splits)
      then obtain t m where t: "(t, m) \<in> cm_runs cm" "t \<le> k" "k < t + m" using okD(7) [OF k] by blast
      moreover have "(t, m) \<noteq> (i, n)" using t \<open>k \<notin> {i..<i + n}\<close> by auto
      ultimately show ?thesis unfolding runs by blast
    qed
  qed
qed

section \<open>The searches\<close>

lemma first_free_Some:
  "first_free es i = Some k \<Longrightarrow> i \<le> k \<and> k - i < length es \<and> ce_pageState (es ! (k - i)) \<noteq> CHR ''P'' \<and> (\<forall>j < k - i. ce_pageState (es ! j) = CHR ''P'')"
proof (induction es i rule: first_free.induct)
  case (2 e es i)
  show ?case
  proof (cases "ce_pageState e = CHR ''P''")
    case True
    then have IH: "Suc i \<le> k" "k - Suc i < length es" "ce_pageState (es ! (k - Suc i)) \<noteq> CHR ''P''" "\<forall>j < k - Suc i. ce_pageState (es ! j) = CHR ''P''"
      using 2 by auto
    then have "k - i = Suc (k - Suc i)" by simp
    then show ?thesis using IH True by (auto simp: less_Suc_eq_0_disj)
  qed (use 2 in auto)
qed simp

lemma first_free_None: "first_free es i = None \<Longrightarrow> e \<in> set es \<Longrightarrow> ce_pageState e = CHR ''P''"
  by (induction es i rule: first_free.induct) (auto split: if_splits)

definition free_run :: "coremap_entry list \<Rightarrow> nat \<Rightarrow> nat \<Rightarrow> bool" where
  "free_run cm i n \<longleftrightarrow> {i..<i + n} \<subseteq> cm_free cm"

definition states_ok :: "coremap_entry list \<Rightarrow> bool" where
  "states_ok es \<longleftrightarrow> (\<forall>e \<in> set es. ce_pageState e \<in> {CHR ''P'', CHR ''H''})"

text \<open>What the scan says about the entries when \<open>m\<close> more free frames are needed.\<close>

definition scan_good :: "coremap_entry list \<Rightarrow> nat \<Rightarrow> nat \<Rightarrow> run_scan \<Rightarrow> bool" where
  "scan_good es j m r = (case r of
     RunFound \<Rightarrow> m \<le> length es \<and> (\<forall>i < m. ce_pageState (es ! i) = CHR ''H'')
   | RunStop k \<Rightarrow> j \<le> k \<and> k - j < length es \<and> k - j < m \<and> ce_pageState (es ! (k - j)) = CHR ''P''
   | RunEnd \<Rightarrow> length es < m)"

lemma scan_good_Cons:
  assumes "scan_good es (Suc j) m r" "ce_pageState e = CHR ''H''"
  shows "scan_good (e # es) j (Suc m) r"
proof (cases r)
  case RunFound
  have "ce_pageState ((e # es) ! i) = CHR ''H''" if "i < Suc m" for i using assms RunFound that by (cases i) (simp_all add: scan_good_def)
  then show ?thesis using assms RunFound by (simp add: scan_good_def del: nth_Cons_Suc)
next
  case (RunStop k)
  then have f: "Suc j \<le> k" "k - Suc j < length es" "k - Suc j < m" "ce_pageState (es ! (k - Suc j)) = CHR ''P''" using assms(1) by (simp_all add: scan_good_def)
  then have "k - j = Suc (k - Suc j)" by simp
  then show ?thesis using RunStop f by (simp add: scan_good_def)
next
  case RunEnd
  then show ?thesis using assms(1) by (simp add: scan_good_def)
qed

lemma scan_run_good:
  assumes "states_ok es" "int n = int cnt + 1 + int m" "0 < m"
  shows "scan_good es j m (scan_run es j (int n) cnt)"
  using assms
proof (induction es j "int n" cnt arbitrary: m rule: scan_run.induct)
  case (1 j cnt)
  then show ?case by (simp add: scan_good_def)
next
  case (2 e es j cnt)
  have st: "states_ok es" "ce_pageState e = CHR ''P'' \<or> ce_pageState e = CHR ''H''" using "2.prems"(1) by (auto simp: states_ok_def)
  consider (last) "ce_pageState e = CHR ''H''" "m = 1" | (more) m' where "ce_pageState e = CHR ''H''" "m = Suc m'" "0 < m'" | (stop) "ce_pageState e = CHR ''P''"
    using st(2) "2.prems"(3) by (cases m; force)
  then show ?case
  proof cases
    case last
    then show ?thesis using "2.prems"(2) by (simp add: scan_good_def)
  next
    case more
    then have ne: "int n \<noteq> int cnt + 2" and eq: "int n = int (Suc cnt) + 1 + int m'" using "2.prems"(2) by simp_all
    have "scan_good es (Suc j) m' (scan_run es (Suc j) (int n) (Suc cnt))" by (rule "2.hyps"(1) [OF more(1) ne st(1) eq more(3)])
    then show ?thesis using scan_good_Cons [OF _ more(1)] more(1,2) ne by simp
  next
    case stop
    then show ?thesis using "2.prems"(2,3) by (simp add: scan_good_def)
  qed
qed

lemma free_runD: "free_run cm i n \<Longrightarrow> i \<le> k \<Longrightarrow> k < i + n \<Longrightarrow> k < length cm \<and> ce_pageState (cm ! k) = CHR ''H''"
  by (auto simp: free_run_def cm_free_def)

lemma free_runI: "(\<And>k. i \<le> k \<Longrightarrow> k < i + n \<Longrightarrow> k < length cm \<and> ce_pageState (cm ! k) = CHR ''H'') \<Longrightarrow> free_run cm i n"
  by (auto simp: free_run_def cm_free_def)

lemma free_run_len: "free_run cm s n \<Longrightarrow> 0 < n \<Longrightarrow> s + n \<le> length cm"
  using free_runD [of cm s n "s + n - 1"] by linarith

text \<open>The three results of the scan behind a free frame \<open>i\<close>.\<close>

lemma scan_cases:
  assumes st: "states_ok cm" and n: "2 \<le> n" and i: "i < length cm" "ce_pageState (cm ! i) = CHR ''H''"
  shows "case scan_run (drop (Suc i) cm) (Suc i) (int n) 0 of
      RunFound \<Rightarrow> free_run cm i n
    | RunStop k \<Rightarrow> i < k \<and> (\<forall>t. i \<le> t \<and> t \<le> k \<longrightarrow> \<not> free_run cm t n)
    | RunEnd \<Rightarrow> (\<forall>t \<ge> i. \<not> free_run cm t n)"
proof -
  have "states_ok (drop (Suc i) cm)" using st by (auto simp: states_ok_def dest: in_set_dropD)
  then have g: "scan_good (drop (Suc i) cm) (Suc i) (n - 1) (scan_run (drop (Suc i) cm) (Suc i) (int n) 0)" using n by (intro scan_run_good) simp_all
  show ?thesis
  proof (cases "scan_run (drop (Suc i) cm) (Suc i) (int n) 0")
    case RunFound
    then have f: "n - 1 \<le> length cm - Suc i" "\<And>m. m < n - 1 \<Longrightarrow> ce_pageState (cm ! (Suc i + m)) = CHR ''H''" using g i(1) by (simp_all add: scan_good_def)
    have "free_run cm i n"
    proof (rule free_runI)
      fix k assume k: "i \<le> k" "k < i + n"
      show "k < length cm \<and> ce_pageState (cm ! k) = CHR ''H''"
      proof (cases "k = i")
        case False
        then have "Suc i + (k - Suc i) = k" "k - Suc i < n - 1" using k by simp_all
        then show ?thesis using f(1) f(2) [of "k - Suc i"] k i(1) by simp
      qed (use i in simp)
    qed
    then show ?thesis using RunFound by simp
  next
    case (RunStop k)
    then have f: "i < k" "k - Suc i < n - 1" "k < length cm" "ce_pageState (cm ! k) = CHR ''P''" using g i(1) by (auto simp: scan_good_def)
    have "\<not> free_run cm t n" if "i \<le> t" "t \<le> k" for t
    proof
      assume "free_run cm t n"
      then have "ce_pageState (cm ! k) = CHR ''H''" using f(2) that by (auto dest: free_runD [of _ _ _ k])
      then show False using f(4) by simp
    qed
    then show ?thesis using RunStop f(1) by simp
  next
    case RunEnd
    then have f: "length cm - Suc i < n - 1" using g by (simp add: scan_good_def)
    have "\<not> free_run cm t n" if "i \<le> t" for t
    proof
      assume "free_run cm t n"
      then have "t + (n - 1) < length cm" using n free_runD [of cm t n "t + (n - 1)"] by simp
      then show False using f that by simp
    qed
    then show ?thesis using RunEnd by simp
  qed
qed

lemma find_run_first:
  assumes "states_ok cm" "2 \<le> n" "free_run cm s n" "i \<le> s" "\<forall>t. i \<le> t \<and> t < s \<longrightarrow> \<not> free_run cm t n"
  shows "find_run cm (int n) i cand = Some s"
  using assms
proof (induction cm "int n" i cand rule: find_run.induct)
  case (1 cm i cand)
  have s: "s < length cm" using free_runD [OF "1.prems"(3), of s] "1.prems"(2) by simp
  then have i: "i < length cm" using "1.prems"(4) by simp
  show ?case
  proof (cases "ce_pageState (cm ! i) = CHR ''P''")
    case True
    then have "s \<noteq> i" using free_runD [OF "1.prems"(3), of s] "1.prems"(2) by auto
    then have "find_run cm (int n) (Suc i) cand = Some s" using "1.prems" by (intro "1.hyps"(1) [OF i True]) auto
    then show ?thesis using i True by (simp add: find_run.simps [of _ _ i])
  next
    case False
    then have H: "ce_pageState (cm ! i) = CHR ''H''" using "1.prems"(1) i by (auto simp: states_ok_def)
    note sc = scan_cases [OF "1.prems"(1,2) i H]
    show ?thesis
    proof (cases "scan_run (drop (Suc i) cm) (Suc i) (int n) 0")
      case RunFound
      then have "s = i" using sc "1.prems"(4,5) by (cases "i < s") auto
      then show ?thesis using i H RunFound by (simp add: find_run.simps [of _ _ i])
    next
      case (RunStop k)
      then have k: "i < k" "\<And>t. i \<le> t \<Longrightarrow> t \<le> k \<Longrightarrow> \<not> free_run cm t n" using sc by simp_all
      then have "Suc k \<le> s" using "1.prems"(3,4) not_less_eq_eq by blast
      then have "find_run cm (int n) (Suc k) (Some i) = Some s" using "1.prems" k(1) by (intro "1.hyps"(2) [OF i False RunStop]) auto
      then show ?thesis using i H RunStop by (simp add: find_run.simps [of _ _ i])
    next
      case RunEnd
      then show ?thesis using sc "1.prems"(3,4) by auto
    qed
  qed
qed

lemma find_run_none:
  assumes "states_ok cm" "2 \<le> n" "\<forall>t \<ge> i. \<not> free_run cm t n"
  shows "case find_run cm (int n) i cand of None \<Rightarrow> cand = None \<and> (\<forall>t \<ge> i. t \<notin> cm_free cm) | Some t \<Rightarrow> cand = Some t \<or> t \<in> cm_free cm"
  using assms
proof (induction cm "int n" i cand rule: find_run.induct)
  case (1 cm i cand)
  show ?case
  proof (cases "i < length cm")
    case out: False
    then show ?thesis by (auto simp: find_run.simps [of _ _ i] cm_free_def split: option.splits)
  next
    case i: True
    show ?thesis
    proof (cases "ce_pageState (cm ! i) = CHR ''P''")
      case True
      then have "i \<notin> cm_free cm" by (simp add: cm_free_def)
      moreover have "case find_run cm (int n) (Suc i) cand of None \<Rightarrow> cand = None \<and> (\<forall>t \<ge> Suc i. t \<notin> cm_free cm) | Some t \<Rightarrow> cand = Some t \<or> t \<in> cm_free cm"
        using "1.prems" by (intro "1.hyps"(1) [OF i True]) auto
      moreover have "(\<forall>t \<ge> i. t \<notin> cm_free cm) \<longleftrightarrow> i \<notin> cm_free cm \<and> (\<forall>t \<ge> Suc i. t \<notin> cm_free cm)" by (metis Suc_leD le_eq_less_or_eq Suc_leI)
      ultimately show ?thesis using i True by (simp add: find_run.simps [of _ _ i] split: option.splits)
    next
      case False
      then have H: "ce_pageState (cm ! i) = CHR ''H''" using "1.prems"(1) i by (auto simp: states_ok_def)
      then have free: "i \<in> cm_free cm" using i by (simp add: cm_free_def)
      note sc = scan_cases [OF "1.prems"(1,2) i H]
      show ?thesis
      proof (cases "scan_run (drop (Suc i) cm) (Suc i) (int n) 0")
        case RunFound
        then show ?thesis using sc "1.prems"(3) by auto
      next
        case (RunStop k)
        then have "case find_run cm (int n) (Suc k) (Some i) of None \<Rightarrow> Some i = None \<and> (\<forall>t \<ge> Suc k. t \<notin> cm_free cm) | Some t \<Rightarrow> Some i = Some t \<or> t \<in> cm_free cm"
          using "1.prems" sc by (intro "1.hyps"(2) [OF i False RunStop]) auto
        then show ?thesis using i H RunStop free by (auto simp: find_run.simps [of _ _ i] split: option.splits)
      next
        case RunEnd
        then have "case find_run cm (int n) (Suc i) (Some i) of None \<Rightarrow> Some i = None \<and> (\<forall>t \<ge> Suc i. t \<notin> cm_free cm) | Some t \<Rightarrow> Some i = Some t \<or> t \<in> cm_free cm"
          using "1.prems" by (intro "1.hyps"(3) [OF i False RunEnd]) auto
        then show ?thesis using i H RunEnd free by (auto simp: find_run.simps [of _ _ i] split: option.splits)
      qed
    qed
  qed
qed

section \<open>The operations\<close>

lemma states_okI: "cm_ok base cm \<Longrightarrow> states_ok cm"
  by (auto simp: cm_ok_def states_ok_def in_set_conv_nth)

lemma finite_cm_free [simp]: "finite (cm_free cm)"
  by (simp add: cm_free_def)

lemma cm_free_less: "cm_free cm \<subseteq> {..<length cm}"
  by (auto simp: cm_free_def)

lemma free_bound: "coremap_ok c \<Longrightarrow> num_coremap_free c \<le> length (coremap c)" "coremap_ok c \<Longrightarrow> length (coremap c) < 2 ^ 20"
proof -
  assume ok: "coremap_ok c"
  show "num_coremap_free c \<le> length (coremap c)" using card_mono [OF _ cm_free_less, of "coremap c"] ok by (simp add: coremap_ok_def)
  have "(base_coremap_page c + length (coremap c)) * PAGE_SIZE \<le> 2 ^ 31" using ok by (simp add: coremap_ok_def cm_ok_def)
  then show "length (coremap c) < 2 ^ 20" by (simp add: PAGE_SIZE_def)
qed

lemma paddr_of:
  assumes "coremap_ok c" "i < length (coremap c)"
  shows "COREMAP_TO_PADDR c i = PAGE_SIZE * (i + base_coremap_page c)" "PADDR_TO_COREMAP c (PAGE_SIZE * (i + base_coremap_page c)) = i"
    "0 < PAGE_SIZE * (i + base_coremap_page c)" "PAGE_SIZE * (i + base_coremap_page c) < 2 ^ 31"
proof -
  have b: "(base_coremap_page c + length (coremap c)) * PAGE_SIZE \<le> 2 ^ 31" "0 < base_coremap_page c" using assms(1) by (simp_all add: coremap_ok_def cm_ok_def)
  have "Suc (i + base_coremap_page c) * PAGE_SIZE \<le> (base_coremap_page c + length (coremap c)) * PAGE_SIZE" using assms(2) by (intro mult_le_mono1) simp
  then have lt: "PAGE_SIZE * (i + base_coremap_page c) < 2 ^ 31" using b(1) by (simp add: PAGE_SIZE_def)
  then show "PAGE_SIZE * (i + base_coremap_page c) < 2 ^ 31" .
  show "COREMAP_TO_PADDR c i = PAGE_SIZE * (i + base_coremap_page c)" using lt by (simp add: COREMAP_TO_PADDR_def u32_max_def)
  show "0 < PAGE_SIZE * (i + base_coremap_page c)" using b(2) by (simp add: PAGE_SIZE_def)
  have "i < 2 ^ 20" using free_bound(2) [OF assms(1)] assms(2) by simp
  then show "PADDR_TO_COREMAP c (PAGE_SIZE * (i + base_coremap_page c)) = i" by (simp add: PADDR_TO_COREMAP_def PAGE_SIZE_def)
qed

lemma set_kernel_simps [simp]:
  "ce_selfAddr (set_kernel kern e) = ce_selfAddr e" "ce_pageState (set_kernel kern e) = ce_pageState e"
  "ce_startAddr (set_kernel kern e) = ce_startAddr e" "ce_length (set_kernel kern e) = ce_length e"
  by (simp_all add: set_kernel_def)

text \<open>The run \<open>(s, n)\<close> has been allocated: it was free, and everything else is as before.\<close>

definition allocated :: "nat \<Rightarrow> nat \<Rightarrow> ('a) coremap_state_scheme \<Rightarrow> ('a) coremap_state_scheme \<Rightarrow> bool" where
  "allocated s n c c' \<longleftrightarrow> coremap_ok c' \<and> {s..<s + n} \<subseteq> cm_free (coremap c) \<and>
     cm_runs (coremap c') = insert (s, n) (cm_runs (coremap c)) \<and> cm_free (coremap c') = cm_free (coremap c) - {s..<s + n} \<and>
     base_coremap_page c' = base_coremap_page c \<and> length (coremap c') = length (coremap c) \<and> frames c' = frames c"

lemma allocatedI:
  assumes ok: "coremap_ok c" and free: "free_run (coremap c) s n" and n: "0 < n" and add: "run_added s n (coremap c) (coremap c')"
    and c': "base_coremap_page c' = base_coremap_page c" "num_coremap_free c' = num_coremap_free c - n" "frames c' = frames c"
  shows "allocated s n c c'"
proof -
  have len: "s + n \<le> length (coremap c)" by (rule free_run_len [OF free n])
  have fr: "{s..<s + n} \<subseteq> cm_free (coremap c)" using free by (simp add: free_run_def)
  have cok: "cm_ok (base_coremap_page c) (coremap c)" using ok by (simp add: coremap_ok_def)
  note r = run_added_ok [OF cok fr n len add]
  have "card (cm_free (coremap c')) = num_coremap_free c - n" using ok fr by (simp add: coremap_ok_def r(3) card_Diff_subset)
  then show ?thesis using r c' fr add by (simp add: allocated_def coremap_ok_def run_added_def)
qed

lemma allocate_one_spec:
  assumes ok: "coremap_ok c"
  shows "(num_coremap_free c = 0 \<and> coremapAllocateOneFrame kern c = Some (0, c)) \<or>
    (\<exists>s c'. coremapAllocateOneFrame kern c = Some (PAGE_SIZE * (s + base_coremap_page c), c') \<and> allocated s 1 c c' \<and>
       (\<forall>t < s. t \<notin> cm_free (coremap c)))"
proof (cases "num_coremap_free c = 0")
  case True
  then show ?thesis by (simp add: coremapAllocateOneFrame_def)
next
  case False
  then obtain k where k: "k \<in> cm_free (coremap c)" using ok by (auto simp: coremap_ok_def dest: card_gt_0_iff [THEN iffD1])
  then have "coremap c ! k \<in> set (coremap c)" "ce_pageState (coremap c ! k) \<noteq> CHR ''P''" by (auto simp: cm_free_def)
  then obtain s where s: "first_free (coremap c) 0 = Some s" using first_free_None [of "coremap c" 0] by fastforce
  then have s': "s < length (coremap c)" "ce_pageState (coremap c ! s) \<noteq> CHR ''P''" "\<And>j. j < s \<Longrightarrow> ce_pageState (coremap c ! j) = CHR ''P''"
    using first_free_Some [OF s] by simp_all
  have H: "ce_pageState (coremap c ! s) = CHR ''H''" using ok s'(1,2) cm_okD(4) by (auto simp: coremap_ok_def)
  let ?e = "coremap c ! s"
  let ?c = "c\<lparr>coremap := (coremap c)[s := set_kernel kern (?e\<lparr>ce_startAddr := ce_selfAddr ?e, ce_length := 1, ce_pageState := CHR ''P''\<rparr>)],
      num_coremap_free := num_coremap_free c - 1\<rparr>"
  have "allocated s 1 c ?c"
  proof (rule allocatedI [OF ok])
    show "free_run (coremap c) s 1" using s'(1) H by (auto simp: free_run_def cm_free_def)
    show "run_added s 1 (coremap c) (coremap ?c)" using s'(1) by (auto simp: run_added_def nth_list_update)
  qed simp_all
  moreover have "coremapAllocateOneFrame kern c = Some (PAGE_SIZE * (s + base_coremap_page c), ?c)"
    using False s paddr_of(1) [OF ok s'(1)] by (simp add: coremapAllocateOneFrame_def Let_def)
  moreover have "\<forall>t < s. t \<notin> cm_free (coremap c)" using s'(3) by (simp add: cm_free_def)
  ultimately show ?thesis by blast
qed

lemma mark_run_eq:
  "mark_run k i n kern cm = (if k = 0 \<or> i + k \<le> length cm then
     Some (map (\<lambda>j. if i \<le> j \<and> j < i + k then set_kernel kern ((cm ! j)\<lparr>ce_pageState := CHR ''P'', ce_length := n\<rparr>) else cm ! j) [0..<length cm]) else None)"
proof (induction k arbitrary: i cm)
  case 0
  show ?case by simp (intro nth_equalityI; auto)
next
  case (Suc k)
  show ?case
  proof (cases "i < length cm")
    case False
    then show ?thesis by simp
  next
    case True
    let ?e = "set_kernel kern ((cm ! i)\<lparr>ce_pageState := CHR ''P'', ce_length := n\<rparr>)"
    have "map (\<lambda>j. if Suc i \<le> j \<and> j < Suc i + k then set_kernel kern ((cm[i := ?e] ! j)\<lparr>ce_pageState := CHR ''P'', ce_length := n\<rparr>) else cm[i := ?e] ! j) [0..<length cm] =
        map (\<lambda>j. if i \<le> j \<and> j < i + Suc k then set_kernel kern ((cm ! j)\<lparr>ce_pageState := CHR ''P'', ce_length := n\<rparr>) else cm ! j) [0..<length cm]"
      by (intro map_cong refl) (auto simp: nth_list_update not_less_eq_eq dest: le_antisym)
    then show ?thesis using True Suc.IH [of "Suc i" "cm[i := ?e]"] by simp
  qed
qed

lemma allocate_multiple_eq:
  assumes ok: "coremap_ok c" and n: "2 \<le> n" "n \<le> num_coremap_free c" and s: "find_run (coremap c) (int n) 0 None = Some s" "s < length (coremap c)"
  shows "coremapAllocateMultipleFrame (int n) kern c =
    (if s + n \<le> length (coremap c) then Some (PAGE_SIZE * (s + base_coremap_page c), c\<lparr>coremap :=
        map (\<lambda>j. if s \<le> j \<and> j < s + n then set_kernel kern
              ((if j = s then (coremap c ! j)\<lparr>ce_startAddr := ce_selfAddr (coremap c ! j)\<rparr> else coremap c ! j)\<lparr>ce_pageState := CHR ''P'', ce_length := n\<rparr>)
            else coremap c ! j) [0..<length (coremap c)], num_coremap_free := num_coremap_free c - n\<rparr>)
     else None)"
proof -
  have lt: "n < 2 ^ 32" "num_coremap_free c < 2 ^ 32" using n(2) free_bound [OF ok] by simp_all
  then have w: "nat (int n mod 2 ^ 32) = n" "nat ((int (num_coremap_free c) - int n) mod 2 ^ 32) = num_coremap_free c - n"
    using n(2) by (simp_all add: nat_mod_distrib nat_diff_distrib' of_nat_diff [symmetric] del: of_nat_diff)
  let ?cm = "(coremap c)[s := (coremap c ! s)\<lparr>ce_startAddr := ce_selfAddr (coremap c ! s)\<rparr>]"
  have "map (\<lambda>j. if s \<le> j \<and> j < s + n then set_kernel kern ((?cm ! j)\<lparr>ce_pageState := CHR ''P'', ce_length := n\<rparr>) else ?cm ! j) [0..<length (coremap c)] =
      map (\<lambda>j. if s \<le> j \<and> j < s + n then set_kernel kern
          ((if j = s then (coremap c ! j)\<lparr>ce_startAddr := ce_selfAddr (coremap c ! j)\<rparr> else coremap c ! j)\<lparr>ce_pageState := CHR ''P'', ce_length := n\<rparr>)
        else coremap c ! j) [0..<length (coremap c)]"
    using n(1) by (intro map_cong refl) (auto simp: nth_list_update)
  then show ?thesis using n s w paddr_of(1) [OF ok s(2)] by (auto simp: coremapAllocateMultipleFrame_def mark_run_eq)
qed

lemma allocate_multiple_spec:
  assumes ok: "coremap_ok c" and n: "2 \<le> n" and run: "n \<le> num_coremap_free c \<Longrightarrow> \<exists>s. free_run (coremap c) s n"
  shows "(num_coremap_free c < n \<and> coremapAllocateMultipleFrame (int n) kern c = Some (0, c)) \<or>
    (\<exists>s c'. coremapAllocateMultipleFrame (int n) kern c = Some (PAGE_SIZE * (s + base_coremap_page c), c') \<and> allocated s n c c' \<and>
       (\<forall>t < s. \<not> free_run (coremap c) t n))"
proof (cases "num_coremap_free c < n")
  case True
  then show ?thesis by (simp add: coremapAllocateMultipleFrame_def)
next
  case False
  define s where "s = (LEAST s. free_run (coremap c) s n)"
  have fs: "free_run (coremap c) s n" using run False unfolding s_def by (auto intro: LeastI)
  have least: "\<not> free_run (coremap c) t n" if "t < s" for t using not_less_Least that unfolding s_def by blast
  have len: "s + n \<le> length (coremap c)" using free_run_len [OF fs] n by simp
  have st: "states_ok (coremap c)" using ok states_okI by (auto simp: coremap_ok_def)
  have f: "find_run (coremap c) (int n) 0 None = Some s" by (rule find_run_first [OF st n fs]) (use least in auto)
  have slt: "s < length (coremap c)" using len n by simp
  let ?cm = "map (\<lambda>j. if s \<le> j \<and> j < s + n then set_kernel kern
          ((if j = s then (coremap c ! j)\<lparr>ce_startAddr := ce_selfAddr (coremap c ! j)\<rparr> else coremap c ! j)\<lparr>ce_pageState := CHR ''P'', ce_length := n\<rparr>)
        else coremap c ! j) [0..<length (coremap c)]"
  let ?c = "c\<lparr>coremap := ?cm, num_coremap_free := num_coremap_free c - n\<rparr>"
  have "allocated s n c ?c"
    by (rule allocatedI [OF ok fs]) (use n in \<open>auto simp: run_added_def\<close>)
  moreover have "coremapAllocateMultipleFrame (int n) kern c = Some (PAGE_SIZE * (s + base_coremap_page c), ?c)"
    using allocate_multiple_eq [OF ok n _ f slt, of kern] False len by simp
  ultimately show ?thesis using least by blast
qed

text \<open>Without a run that is long enough the last candidate is used.\<close>

lemma allocate_multiple_fragmented:
  assumes ok: "coremap_ok c" and n: "2 \<le> n" "n \<le> num_coremap_free c" and none: "\<forall>s. \<not> free_run (coremap c) s n"
  shows "\<exists>s. s \<in> cm_free (coremap c) \<and>
    (coremapAllocateMultipleFrame (int n) kern c = None \<and> length (coremap c) < s + n \<or>
     (\<exists>c'. coremapAllocateMultipleFrame (int n) kern c = Some (PAGE_SIZE * (s + base_coremap_page c), c') \<and> s + n \<le> length (coremap c) \<and>
        (\<exists>k. s < k \<and> k < s + n \<and> k \<notin> cm_free (coremap c))))"
proof -
  have st: "states_ok (coremap c)" using ok states_okI by (auto simp: coremap_ok_def)
  have "cm_free (coremap c) \<noteq> {}" using ok n by (auto simp: coremap_ok_def)
  then obtain s where s: "find_run (coremap c) (int n) 0 None = Some s" "s \<in> cm_free (coremap c)"
    using find_run_none [OF st n(1), of 0 None] none by (auto split: option.splits)
  have slt: "s < length (coremap c)" using s(2) by (simp add: cm_free_def)
  have "\<exists>k. s < k \<and> k < s + n \<and> k \<notin> cm_free (coremap c)" if "s + n \<le> length (coremap c)"
  proof -
    obtain k where "k \<in> {s..<s + n}" "k \<notin> cm_free (coremap c)" using none unfolding free_run_def by blast
    moreover have "k \<noteq> s" using s(2) calculation(2) by blast
    ultimately show ?thesis by (intro exI [of _ k]) auto
  qed
  then show ?thesis using allocate_multiple_eq [OF ok n s(1) slt, of kern] s(2) by (intro exI [of _ s]) (auto split: if_splits)
qed

lemma clear_run_eq:
  "i + k \<le> length (coremap c) \<Longrightarrow> clear_run k i c = Some (c\<lparr>coremap := map (\<lambda>j. if i \<le> j \<and> j < i + k then clear_entry (coremap c ! j) else coremap c ! j) [0..<length (coremap c)],
     frames := (\<lambda>j. if i \<le> j \<and> j < i + k then zero_page else frames c j)\<rparr>)"
proof (induction k arbitrary: i c)
  case 0
  have "(\<lambda>j. if i \<le> j \<and> j < i then zero_page else frames c j) = frames c" by (rule ext) auto
  moreover have "map (\<lambda>j. if i \<le> j \<and> j < i then clear_entry (coremap c ! j) else coremap c ! j) [0..<length (coremap c)] = coremap c"
    by (intro nth_equalityI) auto
  ultimately show ?case by simp
next
  case (Suc k)
  let ?c = "c\<lparr>coremap := (coremap c)[i := clear_entry (coremap c ! i)], frames := (frames c)(i := zero_page)\<rparr>"
  have "map (\<lambda>j. if Suc i \<le> j \<and> j < Suc i + k then clear_entry (coremap ?c ! j) else coremap ?c ! j) [0..<length (coremap c)] =
      map (\<lambda>j. if i \<le> j \<and> j < i + Suc k then clear_entry (coremap c ! j) else coremap c ! j) [0..<length (coremap c)]"
    using Suc.prems by (intro map_cong refl) (auto simp: nth_list_update)
  moreover have "(\<lambda>j. if Suc i \<le> j \<and> j < Suc i + k then zero_page else frames ?c j) = (\<lambda>j. if i \<le> j \<and> j < i + Suc k then zero_page else frames c j)"
    by (auto simp: fun_eq_iff)
  ultimately show ?case using Suc.prems Suc.IH [of "Suc i" ?c] by simp
qed

lemma coremapFree_spec:
  assumes ok: "coremap_ok c" and r: "(s, n) \<in> cm_runs (coremap c)"
  shows "\<exists>c'. coremapFree (PAGE_SIZE * (s + base_coremap_page c)) c = Some c' \<and> coremap_ok c' \<and>
    cm_runs (coremap c') = cm_runs (coremap c) - {(s, n)} \<and> cm_free (coremap c') = cm_free (coremap c) \<union> {s..<s + n} \<and>
    base_coremap_page c' = base_coremap_page c \<and> (\<forall>k. frames c' k = (if s \<le> k \<and> k < s + n then zero_page else frames c k))"
proof -
  have cok: "cm_ok (base_coremap_page c) (coremap c)" using ok by (simp add: coremap_ok_def)
  note rD = cm_runsD [OF cok r]
  let ?cm = "map (\<lambda>j. if s \<le> j \<and> j < s + n then clear_entry (coremap c ! j) else coremap c ! j) [0..<length (coremap c)]"
  let ?c = "c\<lparr>coremap := ?cm, frames := (\<lambda>j. if s \<le> j \<and> j < s + n then zero_page else frames c j), num_coremap_free := num_coremap_free c + n\<rparr>"
  have "run_removed s n (coremap c) (coremap ?c)" by (simp add: run_removed_def)
  note rem = run_removed_ok [OF cok r this]
  have "card (cm_free (coremap ?c)) = num_coremap_free c + n" unfolding rem(3) using ok rD(6) by (subst card_Un_disjoint) (auto simp: coremap_ok_def)
  then have ok': "coremap_ok ?c" using rem(1) by (simp add: coremap_ok_def)
  have wrap: "(num_coremap_free c + n) mod u32_max = num_coremap_free c + n" using free_bound [OF ok'] by (simp add: u32_max_def)
  have run: "coremapFree (PAGE_SIZE * (s + base_coremap_page c)) c = Some ?c"
  proof (cases "n = 1")
    case True
    have "?cm = (coremap c)[s := clear_entry (coremap c ! s)]" using True rD(1) by (intro nth_equalityI) (auto simp: nth_list_update)
    moreover have "(\<lambda>j. if s \<le> j \<and> j < s + n then zero_page else frames c j) = (frames c)(s := zero_page)" using True by (auto simp: fun_eq_iff)
    ultimately show ?thesis using True rD(1,2,3) paddr_of(2) [OF ok rD(1)] wrap by (simp add: coremapFree_def Let_def)
  next
    case False
    then have "1 < n" using rD(4) by simp
    then show ?thesis using rD(1,2,3,5) paddr_of(2) [OF ok rD(1)] wrap by (simp add: coremapFree_def clear_run_eq Let_def cong: if_cong)
  qed
  then show ?thesis using ok' rem(2,3) by (intro exI [of _ ?c]) simp
qed

section \<open>Properties\<close>

text \<open>A map of eight frames, from frame 16 of the physical memory on, for the examples below.\<close>

definition small_map :: coremap_state where
  "small_map = \<lparr>coremap = map (\<lambda>i. free_entry (PAGE_SIZE * (i + 16))) [0..<8], base_coremap_page = 16, num_coremap_free = 8, frames = (\<lambda>_. zero_page)\<rparr>"

lemma small_map_ok: "coremap_ok small_map" "cm_free (coremap small_map) = {..<8}" "cm_runs (coremap small_map) = {}"
proof -
  show f: "cm_free (coremap small_map) = {..<8}" by (auto simp: cm_free_def small_map_def free_entry_def)
  show "cm_runs (coremap small_map) = {}" by (auto simp: cm_runs_def small_map_def free_entry_def)
  have "cm_ok 16 (coremap small_map)" by (auto simp: cm_ok_def small_map_def free_entry_def PAGE_SIZE_def)
  then show "coremap_ok small_map" using f by (simp add: coremap_ok_def) (simp add: small_map_def)
qed

lemma getppages_eq:
  assumes "npages < 2 ^ 31"
  shows "getppages npages kern spl c = do {
     (addr, c1) \<leftarrow> (if npages > 1 then coremapAllocateMultipleFrame (int npages) kern c else coremapAllocateOneFrame kern c);
     if addr = 0 then Some (0, SPL_HIGH, c1) else Some (addr, spl, c1) }"
  using assms by (simp add: getppages_def wrap32_id)

text \<open>
  C5. \<^verbatim>\<open>getppages\<close> gives out frames that nobody has: where the free frames are not too scattered, a request
  gives the first free run that is long enough, and afterwards the runs are the old ones and this one, which
  shares no frame with any of them.  It gives nothing, with no change of the map, only when there are fewer
  free frames than asked for, and then the interrupt level stays raised.
\<close>

theorem getppages_fresh_frames:
  assumes ok: "coremap_ok c" and n: "0 < npages" "npages < 2 ^ 31" and run: "npages \<le> num_coremap_free c \<Longrightarrow> \<exists>s. free_run (coremap c) s npages"
  shows "(num_coremap_free c < npages \<and> getppages npages kern spl c = Some (0, SPL_HIGH, c)) \<or>
    (\<exists>s c'. getppages npages kern spl c = Some (PAGE_SIZE * (s + base_coremap_page c), spl, c') \<and> allocated s npages c c' \<and>
       (\<forall>t < s. \<not> free_run (coremap c) t npages) \<and> (\<forall>(t, m) \<in> cm_runs (coremap c). {t..<t + m} \<inter> {s..<s + npages} = {}))"
proof -
  let ?a = "if npages > 1 then coremapAllocateMultipleFrame (int npages) kern c else coremapAllocateOneFrame kern c"
  have "(num_coremap_free c < npages \<and> ?a = Some (0, c)) \<or>
    (\<exists>s c'. ?a = Some (PAGE_SIZE * (s + base_coremap_page c), c') \<and> allocated s npages c c' \<and> (\<forall>t < s. \<not> free_run (coremap c) t npages))"
  proof (cases "npages > 1")
    case True
    then show ?thesis using allocate_multiple_spec [OF ok _ run, of kern] by simp
  next
    case False
    then have "npages = 1" using n(1) by simp
    then show ?thesis using allocate_one_spec [OF ok, of kern] by (auto simp: free_run_def)
  qed
  then show ?thesis
  proof (elim disjE exE conjE)
    fix s c' assume a: "?a = Some (PAGE_SIZE * (s + base_coremap_page c), c')" "allocated s npages c c'" "\<forall>t < s. \<not> free_run (coremap c) t npages"
    have sub: "{s..<s + npages} \<subseteq> cm_free (coremap c)" using a(2) by (simp add: allocated_def)
    have "s \<in> {s..<s + npages}" using n(1) by simp
    then have "s < length (coremap c)" using subsetD [OF sub] by (simp add: cm_free_def)
    then have "PAGE_SIZE * (s + base_coremap_page c) \<noteq> 0" using paddr_of(3) [OF ok] by blast
    moreover have "{t..<t + m} \<inter> {s..<s + npages} = {}" if "(t, m) \<in> cm_runs (coremap c)" for t m
    proof -
      have "{t..<t + m} \<inter> cm_free (coremap c) = {}" using ok that by (intro cm_runsD(6)) (auto simp: coremap_ok_def)
      then show ?thesis using sub by blast
    qed
    ultimately show ?thesis using a unfolding getppages_eq [OF n(2)] by auto
  qed (simp add: getppages_eq [OF n(2)])
qed

theorem getppages_fresh_frames_witness:
  "\<exists>s c'. getppages 3 1 0 small_map = Some (PAGE_SIZE * (s + 16), 0, c') \<and> allocated s 3 small_map c'"
proof -
  have "free_run (coremap small_map) 0 3" by (auto simp: free_run_def small_map_ok(2))
  then show ?thesis using getppages_fresh_frames [OF small_map_ok(1), of 3 1 0] by (auto simp: small_map_def)
qed

text \<open>
  C11. \<^verbatim>\<open>coremapFree\<close> of the address of an allocated run returns: exactly its frames become free and are cleared,
  all other runs and the contents of all other frames stay.
\<close>

theorem coremapFree_releases_run:
  assumes "coremap_ok c" "(s, n) \<in> cm_runs (coremap c)"
  shows "\<exists>c'. coremapFree (PAGE_SIZE * (s + base_coremap_page c)) c = Some c' \<and> coremap_ok c' \<and>
    cm_runs (coremap c') = cm_runs (coremap c) - {(s, n)} \<and> cm_free (coremap c') = cm_free (coremap c) \<union> {s..<s + n} \<and>
    (\<forall>k. frames c' k = (if s \<le> k \<and> k < s + n then zero_page else frames c k))"
  using coremapFree_spec [OF assms] by blast

theorem coremapFree_releases_run_witness:
  "\<exists>s c' c''. getppages 3 1 0 small_map = Some (PAGE_SIZE * (s + 16), 0, c') \<and> coremapFree (PAGE_SIZE * (s + base_coremap_page c')) c' = Some c'' \<and>
     cm_runs (coremap c'') = {}"
proof -
  have "free_run (coremap small_map) 0 3" by (auto simp: free_run_def small_map_ok(2))
  then obtain s c' where g: "coremapAllocateMultipleFrame 3 1 small_map = Some (PAGE_SIZE * (s + 16), c')" "allocated s 3 small_map c'"
    using allocate_multiple_spec [OF small_map_ok(1), of 3 1] by (auto simp: small_map_def)
  have a: "coremap_ok c'" "cm_runs (coremap c') = {(s, 3)}" using g(2) small_map_ok(3) by (simp_all add: allocated_def)
  have "getppages 3 1 0 small_map = Some (PAGE_SIZE * (s + 16), 0, c')" using g(1) by (simp add: getppages_eq PAGE_SIZE_def)
  then show ?thesis using coremapFree_releases_run [OF a(1), of s 3] a(2) by auto
qed

text \<open>
  C36. When enough frames are free but no run of them is long enough, \<^verbatim>\<open>coremapAllocateMultipleFrame\<close> does not
  fail: it writes behind the end of the map, or it gives out a range in which a frame already belongs to
  someone else.
\<close>

theorem fragmented_allocation_overlaps:
  assumes "coremap_ok c" "2 \<le> n" "n \<le> num_coremap_free c" "\<forall>s. \<not> free_run (coremap c) s n"
  shows "\<exists>s. s \<in> cm_free (coremap c) \<and>
    (coremapAllocateMultipleFrame (int n) kern c = None \<and> length (coremap c) < s + n \<or>
     (\<exists>c'. coremapAllocateMultipleFrame (int n) kern c = Some (PAGE_SIZE * (s + base_coremap_page c), c') \<and>
        (\<exists>t m k. (t, m) \<in> cm_runs (coremap c) \<and> t \<le> k \<and> k < t + m \<and> s \<le> k \<and> k < s + n)))"
proof -
  obtain s where s: "s \<in> cm_free (coremap c)"
    "coremapAllocateMultipleFrame (int n) kern c = None \<and> length (coremap c) < s + n \<or>
     (\<exists>c'. coremapAllocateMultipleFrame (int n) kern c = Some (PAGE_SIZE * (s + base_coremap_page c), c') \<and> s + n \<le> length (coremap c) \<and>
        (\<exists>k. s < k \<and> k < s + n \<and> k \<notin> cm_free (coremap c)))"
    using allocate_multiple_fragmented [OF assms, of kern] by blast
  have "\<exists>t m. (t, m) \<in> cm_runs (coremap c) \<and> t \<le> k \<and> k < t + m" if "k < length (coremap c)" "k \<notin> cm_free (coremap c)" for k
    using cm_okD(7) [OF _ that] assms(1) by (auto simp: coremap_ok_def)
  then have "\<exists>t m k. (t, m) \<in> cm_runs (coremap c) \<and> t \<le> k \<and> k < t + m \<and> s \<le> k \<and> k < s + n"
    if "s < k" "k < s + n" "k \<notin> cm_free (coremap c)" "s + n \<le> length (coremap c)" for k using that by (meson less_imp_le order_less_le_trans)
  then show ?thesis using s by (intro exI [of _ s]) blast
qed

text \<open>Example: four frames, of which the second is in use, and a request for three.\<close>

definition scattered_map :: coremap_state where
  "scattered_map = \<lparr>coremap = [free_entry 65536, (free_entry 69632)\<lparr>ce_pageState := CHR ''P'', ce_startAddr := 69632, ce_length := 1\<rparr>,
     free_entry 73728, free_entry 77824], base_coremap_page = 16, num_coremap_free = 3, frames = (\<lambda>_. zero_page)\<rparr>"

lemma scattered_map_ok: "coremap_ok scattered_map" "cm_free (coremap scattered_map) = {0, 2, 3}"
proof -
  show f: "cm_free (coremap scattered_map) = {0, 2, 3}" by (auto simp: cm_free_def scattered_map_def free_entry_def less_Suc_eq)
  have "run_ok (coremap scattered_map) 1" unfolding run_ok_def by (intro conjI exI [of _ 1]) (auto simp: scattered_map_def free_entry_def le_less less_Suc_eq)
  moreover have "cm_runs (coremap scattered_map) = {(1, 1)}" by (auto simp: cm_runs_def scattered_map_def free_entry_def less_Suc_eq)
  ultimately have "cm_ok 16 (coremap scattered_map)"
    unfolding cm_ok_def by (auto simp: scattered_map_def free_entry_def PAGE_SIZE_def less_Suc_eq)
  then show "coremap_ok scattered_map" using f by (simp add: coremap_ok_def) (simp add: scattered_map_def)
qed

theorem fragmented_allocation_overlaps_witness:
  "\<exists>s \<in> {0, 2, 3}. coremapAllocateMultipleFrame 3 1 scattered_map = None \<and> 4 < s + 3 \<or> (\<exists>c'. coremapAllocateMultipleFrame 3 1 scattered_map = Some (PAGE_SIZE * (s + 16), c'))"
proof -
  have none: "\<not> free_run (coremap scattered_map) s 3" for s
  proof
    assume "free_run (coremap scattered_map) s 3"
    then have sub: "{s..<s + 3} \<subseteq> {0, 2, 3}" by (simp add: free_run_def scattered_map_ok(2))
    have "s \<in> {0, 2, 3}" "s + 1 \<in> {0, 2, 3}" "s + 2 \<in> {0, 2, 3}" by (rule subsetD [OF sub], simp)+
    then show False by auto
  qed
  have "base_coremap_page scattered_map = 16" "length (coremap scattered_map) = 4" "3 \<le> num_coremap_free scattered_map" by (simp_all add: scattered_map_def)
  then show ?thesis using fragmented_allocation_overlaps [OF scattered_map_ok(1), of 3 1] none scattered_map_ok(2) by fastforce
qed

end
