(* ===== verification/Vm.thy ===== *)
theory Vm
  imports Coremap Lhd Process
begin

text \<open>
  Virtual memory (\<^verbatim>\<open>kern/vm\<close>): page tables, the map of the swap disk, transfers of pages, replacement, the
  fault handler and address spaces.

  Page directories and page tables are found by their kernel address.  The bit fields of their entries keep
  20 bits of an address, as in the source.  The frames' contents are those of the map of frames; a page of
  the kernel is named by its kernel address.  \<^verbatim>\<open>kmalloc\<close> of a page is \<^verbatim>\<open>alloc_kpages\<close>, and \<^verbatim>\<open>kfree\<close> of one
  \<^verbatim>\<open>free_kpages\<close> (\<^verbatim>\<open>kern/lib/kheap.c\<close>).  What is outside is in \<open>vmenv\<close>: the file of the running program, what
  memory holds before it is written, and the slot that the processor picks for \<^verbatim>\<open>TLB_Random\<close>.  The
  blocks of a program file are read with the vnode's operations, of any file system.

  The frames that hold directories and tables are seen through \<open>pdirs\<close> and \<open>ptabs\<close> only; an address at which
  there is no table, such as one that lost its upper bits in a bit field, stops the run.  A result of
  \<^verbatim>\<open>vfs_open\<close> on the swap device is not looked at by the source, and a failure leaves \<^verbatim>\<open>swap_vnode\<close> as
  \<^verbatim>\<open>swap_bootstrap\<close> set it, so that the transfer is on the same device; the count of its references is
  left out, as are \<^verbatim>\<open>flag_print\<close>, which only turns on output, and the release of the struct itself at the
  end of \<^verbatim>\<open>as_destroy\<close>.  Pages of user memory are never pages of the subpage allocator.
\<close>

unbundle bit_operations_syntax

section \<open>State\<close>

record page_table_entry =
  swapped :: nat
  pt_exist :: nat
  global :: nat
  valid :: nat
  writable :: nat
  nocache :: nat
  physical_frame_number :: nat

record page_directory_entry =
  pd_exist :: nat
  addr_page_table :: nat

record vm = coremap_state +
  pdirs :: "nat \<rightharpoonup> page_directory_entry list"
  ptabs :: "nat \<rightharpoonup> page_table_entry list"
  tlb :: "(nat \<times> nat) list"
  swap_map :: "nat list"
  num_bitmap_entries :: nat
  num_bitmap_free :: nat
  swap_dev :: lhd
  vm_spl :: int

record 'f vmenv =
  prog_open :: "errno + unit"
  prog_read :: "uio \<times> 'f \<Rightarrow> ((errno + unit) \<times> uio \<times> 'f) outcome"
  prog_write :: "uio \<times> 'f \<Rightarrow> ((errno + unit) \<times> uio \<times> 'f) outcome"
  junk_table :: "nat \<Rightarrow> page_table_entry list"
  tlb_slot :: nat

definition PAGE_TABLE_ENTRY_NUM :: nat where
  "PAGE_TABLE_ENTRY_NUM = 1024"

text \<open>The masks and shifts of the two macros pick ten bits each.\<close>

definition EXTRACT_PAGE_TABLE :: "nat \<Rightarrow> nat" where
  "EXTRACT_PAGE_TABLE vaddr = (vaddr AND 0x003ff000) div 2 ^ 12"

definition EXTRACT_PAGE_DIRECTORY :: "nat \<Rightarrow> nat" where
  "EXTRACT_PAGE_DIRECTORY vaddr = (vaddr AND 0xffc00000) div 2 ^ 22"

definition PF_W :: nat where "PF_W = 2"

definition bits20 :: "nat \<Rightarrow> nat" where
  "bits20 x = x mod 2 ^ 20"

definition page_frame :: "nat \<Rightarrow> nat" where
  "page_frame vaddr = vaddr AND 0xfffff000"

section \<open>Page tables\<close>

definition page_table_initializer :: "nat option \<Rightarrow> vm \<Rightarrow> (nat \<times> vm) outcome" where
  "page_table_initializer mem v = do {
     a \<leftarrow> mem;
     Some (a, v\<lparr>pdirs := (pdirs v)(a \<mapsto> replicate PAGE_TABLE_ENTRY_NUM \<lparr>pd_exist = 0, addr_page_table = 0\<rparr>)\<rparr>)
   }"

definition upd_coremap :: "nat \<Rightarrow> (coremap_entry \<Rightarrow> coremap_entry) \<Rightarrow> vm \<Rightarrow> vm outcome" where
  "upd_coremap ppn f v = do {
     e \<leftarrow> load_cell (coremap v) ppn;
     Some (v\<lparr>coremap := (coremap v)[ppn := f e]\<rparr>)
   }"

definition upd_pte :: "nat \<Rightarrow> nat \<Rightarrow> (page_table_entry \<Rightarrow> page_table_entry) \<Rightarrow> vm \<Rightarrow> vm outcome" where
  "upd_pte pte j f v = do {
     t \<leftarrow> ptabs v pte;
     e \<leftarrow> load_cell t j;
     Some (v\<lparr>ptabs := (ptabs v)(pte \<mapsto> t[j := f e])\<rparr>)
   }"

text \<open>\<open>mem\<close> is what \<^verbatim>\<open>kmalloc\<close> gives for a new table: its address, and what is there.\<close>

definition map_page_table ::
  "(nat \<times> page_table_entry list) option \<Rightarrow> nat \<Rightarrow> nat \<Rightarrow> nat \<Rightarrow> bool \<Rightarrow> nat \<Rightarrow> vm \<Rightarrow> ((errno + unit) \<times> vm) outcome" where
  "map_page_table mem p_addr vaddr flag alloc_pagetable pde v = do {
     let vaddr_first = EXTRACT_PAGE_DIRECTORY vaddr;
     let vaddr_second = EXTRACT_PAGE_TABLE vaddr;
     if alloc_pagetable \<and> mem = None then Some (Inl ENOMEM, v)
     else do {
       (pte, v1) \<leftarrow> (case mem of
            Some (a, t0) \<Rightarrow> if alloc_pagetable then Some (a, v\<lparr>ptabs := (ptabs v)(a \<mapsto> t0)\<rparr>)
              else do { pd \<leftarrow> pdirs v pde; e \<leftarrow> load_cell pd vaddr_first; Some (PADDR_TO_KVADDR (addr_page_table e), v) }
          | None \<Rightarrow> do { pd \<leftarrow> pdirs v pde; e \<leftarrow> load_cell pd vaddr_first; Some (PADDR_TO_KVADDR (addr_page_table e), v) });
       v2 \<leftarrow> upd_pte pte vaddr_second (\<lambda>e. e\<lparr>physical_frame_number := bits20 p_addr, global := 0, valid := 1, nocache := 0, pt_exist := 1,
               swapped := 0, writable := (if flag AND PF_W \<noteq> 0 then 1 else 0)\<rparr>) v1;
       v3 \<leftarrow> upd_coremap (PADDR_TO_COREMAP v (KVADDR_TO_PADDR p_addr)) (\<lambda>e. e\<lparr>ce_vaddr := vaddr, ce_pt_addr := pte, ce_pd_addr := pde\<rparr>) v2;
       pd \<leftarrow> pdirs v3 pde;
       e \<leftarrow> load_cell pd vaddr_first;
       Some (Inr (), v3\<lparr>pdirs := (pdirs v3)(pde \<mapsto> pd[vaddr_first := \<lparr>pd_exist = 1, addr_page_table = bits20 pte\<rparr>])\<rparr>)
     }
   }"

section \<open>The swap disk\<close>

text \<open>\<open>mem\<close> is the memory from \<^verbatim>\<open>kmalloc\<close>.  The loop writes entry 0 again and again, whatever the index.\<close>

definition bitmapCreate :: "nat list option \<Rightarrow> nat \<Rightarrow> vm \<Rightarrow> vm outcome" where
  "bitmapCreate mem nbits v =
     (let v1 = v\<lparr>num_bitmap_entries := nbits, num_bitmap_free := nbits\<rparr> in
      if nbits = 0 then Some (v1\<lparr>swap_map := []\<rparr>)
      else do { b \<leftarrow> mem; b1 \<leftarrow> store_cell b 0 0; Some (v1\<lparr>swap_map := b1\<rparr>) })"

fun first_unused :: "nat list \<Rightarrow> nat \<Rightarrow> nat option" where
  "first_unused [] i = None"
| "first_unused (x # xs) i = (if x = 1 then first_unused xs (Suc i) else Some i)"

definition bitmapDiskAllocatePage :: "vm \<Rightarrow> (nat \<times> vm) outcome" where
  "bitmapDiskAllocatePage v = do {
     kassert (num_bitmap_free v \<noteq> 0);
     candidate \<leftarrow> first_unused (take (num_bitmap_entries v) (swap_map v)) 0;
     Some (candidate, v\<lparr>swap_map := (swap_map v)[candidate := 1], num_bitmap_free := num_bitmap_free v - 1\<rparr>)
   }"

text \<open>The frame behind a kernel address.\<close>

definition frame_of :: "vm \<Rightarrow> nat \<Rightarrow> nat" where
  "frame_of v kva = PADDR_TO_COREMAP v (KVADDR_TO_PADDR kva)"

definition dev_io :: "uio \<Rightarrow> vm \<Rightarrow> ((errno + unit) \<times> uio \<times> vm) outcome" where
  "dev_io u v = do {
     (res, u1, lh) \<leftarrow> lhd_io u (swap_dev v);
     Some (res, u1, v\<lparr>swap_dev := lh\<rparr>)
   }"

definition swap_out :: "nat \<Rightarrow> nat \<Rightarrow> vm \<Rightarrow> ((errno + unit) \<times> vm) outcome" where
  "swap_out paddr swap_index v = do {
     (res, u, v1) \<leftarrow> dev_io (mk_kuio (frames v (frame_of v paddr)) PAGE_SIZE (wrap32 (int swap_index * int PAGE_SIZE)) UIO_WRITE) v;
     Some (res, v1)
   }"

text \<open>
  The result of the branch for a page on the swap disk is \<open>None\<close>: it ends without a \<^verbatim>\<open>return\<close>, and its callers
  use the value.
\<close>

definition swap_pagein ::
  "'f vmenv \<Rightarrow> nat \<Rightarrow> uio_rw \<Rightarrow> nat \<Rightarrow> nat \<Rightarrow> nat \<Rightarrow> bool \<Rightarrow> nat \<Rightarrow> vm \<times> 'f \<Rightarrow> ((errno + unit) \<times> vm \<times> 'f) outcome" where
  "swap_pagein env paddr rw mem file offset swap swap_index vf = (case vf of (v, f) \<Rightarrow>
     let ppn = frame_of v paddr in
     if swap then do {
       (res, u, v1) \<leftarrow> dev_io (mk_kuio (frames v ppn) PAGE_SIZE (wrap32 (int swap_index * int PAGE_SIZE)) UIO_READ) v;
       (case res of Inl e \<Rightarrow> Some (Inl e, v1\<lparr>frames := (frames v1)(ppn := uio_mem u)\<rparr>, f) | Inr _ \<Rightarrow> None)
     }
     else case prog_open env of
       Inl e \<Rightarrow> Some (Inl e, v, f)
     | Inr _ \<Rightarrow> do {
         let u = mk_kuio_pd (frames v ppn) mem file (wrap32 (int offset)) rw;
         (res, u1, f1) \<leftarrow> (case rw of UIO_READ \<Rightarrow> prog_read env (u, f) | UIO_WRITE \<Rightarrow> prog_write env (u, f));
         let v1 = v\<lparr>frames := (frames v)(ppn := uio_mem u1)\<rparr>;
         if uio_resid u1 \<noteq> 0 then Some (Inl ENOEXEC, v1, f1)
         else do {
           let fillamt = wrap32 (int mem - int file);
           (res2, u2) \<leftarrow> (if fillamt > 0 then uiomovezeros (nat fillamt) (u1\<lparr>uio_resid := uio_resid u1 + nat fillamt, uio_rw := UIO_READ\<rparr>)
             else Some (res, u1));
           kassert (res2 = Inr ());
           Some (Inr (), v\<lparr>frames := (frames v)(ppn := uio_mem u2)\<rparr>, f1)
         }
       })"

section \<open>Replacement\<close>

definition ref_bit_counter :: "vm \<Rightarrow> vm" where
  "ref_bit_counter v = v\<lparr>coremap := map (\<lambda>e.
     (if ce_reference e = 0 then e\<lparr>ce_counter := (ce_counter e + 1) mod u32_max\<rparr> else if ce_reference e = 1 then e\<lparr>ce_counter := 0\<rparr> else e)
       \<lparr>ce_reference := 0\<rparr>) (coremap v)\<rparr>"

text \<open>The search for the page with the largest counter, from index \<open>i\<close> on.\<close>

fun evict_search :: "coremap_entry list \<Rightarrow> nat \<Rightarrow> nat \<Rightarrow> nat option \<Rightarrow> nat option" where
  "evict_search [] i mx idx = idx"
| "evict_search (e # es) i mx idx =
     (if ce_isKernel e = 1 then evict_search es (Suc i) mx idx
      else if ce_counter e > mx then evict_search es (Suc i) (ce_counter e) (Some i)
      else evict_search es (Suc i) mx idx)"

definition TLB_Probe :: "nat \<Rightarrow> vm \<Rightarrow> nat option" where
  "TLB_Probe ehi v = find (\<lambda>i. page_frame (fst (tlb v ! i)) = page_frame ehi) [0..<length (tlb v)]"

definition TLB_Write :: "nat \<Rightarrow> nat \<Rightarrow> nat \<Rightarrow> vm \<Rightarrow> vm" where
  "TLB_Write ehi elo i v = v\<lparr>tlb := (tlb v)[i := (ehi, elo)]\<rparr>"

definition NUM_TLB :: nat where "NUM_TLB = 64"

definition TLBHI_INVALID :: "nat \<Rightarrow> nat" where
  "TLBHI_INVALID i = (0x80000 + i) * 2 ^ 12"

definition evictPage :: "vm \<Rightarrow> (nat \<times> vm) outcome" where
  "evictPage v = do {
     evict_index \<leftarrow> evict_search (coremap v) 0 0 None;
     let e = coremap v ! evict_index;
     pd \<leftarrow> pdirs v (ce_pd_addr e);
     let vaddr_second = EXTRACT_PAGE_TABLE (ce_vaddr e);
     pde \<leftarrow> load_cell pd (EXTRACT_PAGE_DIRECTORY (ce_vaddr e));
     let temp_addr = PADDR_TO_KVADDR (addr_page_table pde);
     (swap_index, v1) \<leftarrow> (if ce_dirty e = 1 \<or> ce_copy e = 0 then do {
          kassert (ce_isKernel e = 0);
          (idx, va) \<leftarrow> bitmapDiskAllocatePage v;
          (res, vb) \<leftarrow> swap_out (PADDR_TO_KVADDR (ce_selfAddr e)) idx va;
          kassert (res = Inr ());
          vc \<leftarrow> upd_pte temp_addr vaddr_second (\<lambda>x. x\<lparr>swapped := 1\<rparr>) vb;
          Some (Some idx, vc)
        } else Some (None, v));
     let v2 = (case TLB_Probe (ce_vaddr e) v1 of None \<Rightarrow> v1 | Some i \<Rightarrow> TLB_Write (TLBHI_INVALID i) 0 i v1);
     kassert (ce_pt_addr e = temp_addr);
     idx \<leftarrow> swap_index;
     v3 \<leftarrow> upd_pte temp_addr vaddr_second (\<lambda>x. x\<lparr>valid := 0, pt_exist := 0, physical_frame_number := bits20 idx\<rparr>) v2;
     v4 \<leftarrow> upd_coremap evict_index clear_entry v3;
     Some (PADDR_TO_KVADDR (COREMAP_TO_PADDR v evict_index),
       v4\<lparr>num_coremap_free := (num_coremap_free v4 + 1) mod u32_max, frames := (frames v4)(evict_index := zero_page)\<rparr>)
   }"

text \<open>\<^verbatim>\<open>kmalloc\<close> of one page.\<close>

definition kmalloc_page :: "vm \<Rightarrow> (nat \<times> vm) outcome" where
  "kmalloc_page v = do {
     (a, spl, v1) \<leftarrow> alloc_kpages 1 (vm_spl v) v;
     let v2 = v1\<lparr>vm_spl := spl\<rparr>;
     if a = 0 then evictPage v2 else Some (a, v2)
   }"

section \<open>Faults\<close>

text \<open>The tables that \<open>map_page_table\<close> needs are made where they are needed.\<close>

definition map_page ::
  "'f vmenv \<Rightarrow> nat \<Rightarrow> nat \<Rightarrow> nat \<Rightarrow> bool \<Rightarrow> nat \<Rightarrow> vm \<Rightarrow> ((errno + unit) \<times> vm) outcome" where
  "map_page env p_addr vaddr flag alloc_pagetable pde v =
     (if alloc_pagetable then do {
        (a, v1) \<leftarrow> kmalloc_page v;
        map_page_table (if a = 0 then None else Some (a, junk_table env a)) p_addr vaddr flag True pde v1
      }
      else map_page_table None p_addr vaddr flag False pde v)"

definition TLBLO_DIRTY :: nat where "TLBLO_DIRTY = 0x400"
definition TLBLO_VALID :: nat where "TLBLO_VALID = 0x200"

text \<open>The label \<^verbatim>\<open>readPage\<close>.  The result is the low word of the entry for the TLB.\<close>

definition read_page ::
  "'f vmenv \<Rightarrow> nat \<Rightarrow> nat \<Rightarrow> nat \<Rightarrow> nat \<Rightarrow> nat \<Rightarrow> uio_rw \<Rightarrow> bool \<Rightarrow> nat \<Rightarrow> nat \<Rightarrow> bool \<Rightarrow> bool \<Rightarrow> nat \<Rightarrow> vm \<times> 'f \<Rightarrow>
     ((errno + nat) \<times> vm \<times> 'f) outcome" where
  "read_page env faultaddress memSize fileSize offset permission rw from_stack pages pde alloc_pagetable swap swap_index vf =
     (case vf of (v, f) \<Rightarrow> do {
        (a, spl, v1) \<leftarrow> getppages 1 0 (vm_spl v) v;
        let paddr0 = PADDR_TO_KVADDR a;
        (paddr, v2) \<leftarrow> (if paddr0 = 0 then evictPage (v1\<lparr>vm_spl := spl\<rparr>) else Some (paddr0, v1\<lparr>vm_spl := spl\<rparr>));
        v3 \<leftarrow> upd_coremap (frame_of v2 paddr) (\<lambda>e. e\<lparr>ce_reference := 1, ce_dirty := 0\<rparr>) v2;
        if \<not> from_stack then do {
          let sz = (if pages > 1 then (0x1000, 0x1000) else (memSize, fileSize));
          (res, v4, f1) \<leftarrow> swap_pagein env paddr rw (fst sz) (snd sz) offset swap swap_index (v3, f);
          case res of
            Inl e \<Rightarrow> Some (Inl e, v4, f1)
          | Inr _ \<Rightarrow> do {
              (res2, v5) \<leftarrow> map_page env paddr faultaddress permission alloc_pagetable pde v4;
              case res2 of Inl e \<Rightarrow> Some (Inl e, v5, f1)
              | Inr _ \<Rightarrow> Some (Inr (KVADDR_TO_PADDR paddr OR (if permission AND PF_W \<noteq> 0 then TLBLO_DIRTY else 0) OR TLBLO_VALID), v5, f1)
            }
        }
        else do {
          (res2, v5) \<leftarrow> map_page env paddr faultaddress 6 alloc_pagetable pde v3;
          case res2 of Inl e \<Rightarrow> Some (Inl e, v5, f)
          | Inr _ \<Rightarrow> Some (Inr (KVADDR_TO_PADDR paddr OR TLBLO_DIRTY OR TLBLO_VALID), v5, f)
        }
      })"

definition tlb_handling ::
  "'f vmenv \<Rightarrow> nat \<Rightarrow> nat \<Rightarrow> nat \<Rightarrow> nat \<Rightarrow> nat \<Rightarrow> uio_rw \<Rightarrow> bool \<Rightarrow> nat \<Rightarrow> nat \<Rightarrow> vm \<times> 'f \<Rightarrow> ((errno + nat) \<times> vm \<times> 'f) outcome" where
  "tlb_handling env faultaddress memSize fileSize offset permission rw from_stack pages pde vf = (case vf of (v, f) \<Rightarrow> do {
     let vaddr_first = EXTRACT_PAGE_DIRECTORY faultaddress;
     let vaddr_second = EXTRACT_PAGE_TABLE faultaddress;
     let off = (offset + (faultaddress - (faultaddress AND 0xfff00000))) mod u32_max;
     pd \<leftarrow> pdirs v pde;
     d \<leftarrow> load_cell pd vaddr_first;
     if pd_exist d = 1 then do {
       t \<leftarrow> ptabs v (PADDR_TO_KVADDR (addr_page_table d));
       e \<leftarrow> load_cell t vaddr_second;
       if pt_exist e = 1 then do {
         let paddr = physical_frame_number e;
         let attribute = global e OR valid e * 2 OR writable e * 4 OR nocache e * 8;
         v1 \<leftarrow> upd_coremap (PADDR_TO_COREMAP v paddr)
                (\<lambda>x. (x\<lparr>ce_reference := 1\<rparr>)\<lparr>ce_dirty := (if rw = UIO_WRITE then 1 else ce_dirty x)\<rparr>) v;
         Some (Inr (paddr OR attribute * 2 ^ 8), v1, f)
       }
       else read_page env faultaddress memSize fileSize off permission rw from_stack pages pde False (swapped e = 1) (physical_frame_number e) (v, f)
     }
     else read_page env faultaddress memSize fileSize off permission rw from_stack pages pde True False 0 (v, f)
   })"

definition VM_FAULT_READ :: int where "VM_FAULT_READ = 0"
definition VM_FAULT_WRITE :: int where "VM_FAULT_WRITE = 1"
definition VM_FAULT_READONLY :: int where "VM_FAULT_READONLY = 2"

text \<open>\<open>True\<close> where the process is ended: \<^verbatim>\<open>freePid\<close> and \<^verbatim>\<open>thread_exit\<close>, which does not return.\<close>

definition segmentation_handler :: "nat \<Rightarrow> int \<Rightarrow> nat \<Rightarrow> nat \<Rightarrow> nat \<Rightarrow> nat \<Rightarrow> nat \<Rightarrow> nat \<Rightarrow> bool" where
  "segmentation_handler faultaddress faulttype heap_start stacktop segment1_top segment1_bottom segment2_top segment2_bottom =
     (if segment1_bottom \<le> faultaddress \<and> faultaddress \<le> segment1_top then faulttype = VM_FAULT_READONLY
      else if segment2_bottom \<le> faultaddress \<and> faultaddress \<le> segment2_top then faulttype = VM_FAULT_READONLY
      else if heap_start \<le> faultaddress \<and> faultaddress \<le> stacktop then faulttype = VM_FAULT_READONLY
      else True)"

record addrspace =
  as_vbase1 :: nat
  as_pbase1 :: nat
  as_npages1 :: nat
  as_vbase2 :: nat
  as_pbase2 :: nat
  as_npages2 :: nat
  as_stackpbase :: nat
  as_permission1 :: nat
  as_permission2 :: nat
  as_segmentSize1 :: nat
  as_segmentSize1_refine :: nat
  as_segmentSize2 :: nat
  as_segmentSize2_refine :: nat
  as_offset1 :: nat
  as_offset2 :: nat
  as_filez1 :: nat
  as_filez2 :: nat
  as_progname :: "string option"
  as_v :: "nat option"

definition USERSTACK :: nat where
  "USERSTACK = MIPS_KSEG0"

datatype fault_result = FaultRet "errno + unit" | FaultExit

definition vm_fault ::
  "'f vmenv \<Rightarrow> int \<Rightarrow> nat \<Rightarrow> addrspace option \<Rightarrow> nat \<Rightarrow> int \<Rightarrow> vm \<times> 'f \<times> psys \<Rightarrow> (fault_result \<times> vm \<times> 'f \<times> psys) outcome" where
  "vm_fault env faulttype faultaddr vmspace pde pid st = (case st of (v0, f, ps) \<Rightarrow>
     let spl = vm_spl v0; v = v0\<lparr>vm_spl := SPL_HIGH\<rparr>; faultaddress = page_frame faultaddr in
     if faulttype \<notin> {VM_FAULT_READONLY, VM_FAULT_READ, VM_FAULT_WRITE} then Some (FaultRet (Inl EINVAL), v\<lparr>vm_spl := spl\<rparr>, f, ps)
     else case vmspace of
       None \<Rightarrow> Some (FaultRet (Inl EFAULT), v, f, ps)
     | Some as \<Rightarrow>
         let rw = (if faulttype = VM_FAULT_READ then UIO_READ else UIO_WRITE);
             heap_start = (as_vbase2 as + as_segmentSize2_refine as) mod u32_max;
             segment1_top = (as_vbase1 as + as_npages1 as * PAGE_SIZE) mod u32_max;
             segment2_top = (as_vbase2 as + as_npages2 as * PAGE_SIZE) mod u32_max in
         if segmentation_handler faultaddress faulttype heap_start USERSTACK segment1_top (as_vbase1 as) segment2_top (as_vbase2 as) then do {
           (_, ps1) \<leftarrow> freePid pid ps;
           Some (FaultExit, v, f, ps1)
         }
         else do {
           (res, v1, f1) \<leftarrow>
             (if heap_start \<le> faultaddress \<and> faultaddress < USERSTACK then
                tlb_handling env faultaddress (as_segmentSize1 as) (as_filez1 as) (as_offset1 as) (as_permission1 as) rw True (as_npages1 as) pde (v, f)
              else if as_vbase1 as \<le> faultaddress \<and> faultaddress < segment1_top then
                tlb_handling env faultaddress (as_segmentSize1 as) (as_filez1 as) (as_offset1 as) (as_permission1 as) rw False (as_npages1 as) pde (v, f)
              else if as_vbase2 as \<le> faultaddress \<and> faultaddress < segment2_top then
                tlb_handling env faultaddress (as_segmentSize2 as) (as_filez2 as) (as_offset2 as) (as_permission2 as) rw False (as_npages2 as) pde (v, f)
              else None);
           case res of
             Inl e \<Rightarrow> Some (FaultRet (Inl e), v1, f1, ps)
           | Inr elo \<Rightarrow>
               let i = (case TLB_Probe faultaddress v1 of Some i \<Rightarrow> i | None \<Rightarrow> tlb_slot env) in
               Some (FaultRet (Inr ()), (TLB_Write faultaddress elo i v1)\<lparr>vm_spl := spl\<rparr>, f1, ps)
         })"

section \<open>Address spaces\<close>

definition as_create :: "bool \<Rightarrow> addrspace option" where
  "as_create mem_ok = (if mem_ok then Some \<lparr>as_vbase1 = 0, as_pbase1 = 0, as_npages1 = 0, as_vbase2 = 0, as_pbase2 = 0, as_npages2 = 0,
     as_stackpbase = 0, as_permission1 = 0, as_permission2 = 0, as_segmentSize1 = 0, as_segmentSize1_refine = 0, as_segmentSize2 = 0,
     as_segmentSize2_refine = 0, as_offset1 = 0, as_offset2 = 0, as_filez1 = 0, as_filez2 = 0, as_progname = None, as_v = None\<rparr> else None)"

text \<open>The inner loop of \<^verbatim>\<open>as_copy\<close>, over the entries of one table, and the outer one over the directory.\<close>

fun copy_entries :: "nat \<Rightarrow> nat \<Rightarrow> nat \<Rightarrow> nat \<Rightarrow> vm \<Rightarrow> vm outcome" where
  "copy_entries 0 j pte pte_new v = Some v"
| "copy_entries (Suc n) j pte pte_new v = do {
     t \<leftarrow> ptabs v pte;
     e \<leftarrow> load_cell t j;
     if pt_exist e = 1 then do {
       (paddr, v1) \<leftarrow> kmalloc_page v;
       let v2 = v1\<lparr>frames := (frames v1)(frame_of v1 paddr := frames v1 (frame_of v1 (PADDR_TO_KVADDR (physical_frame_number e))))\<rparr>;
       v3 \<leftarrow> upd_pte pte_new j (\<lambda>x. x\<lparr>physical_frame_number := bits20 paddr, global := global e, valid := valid e, nocache := nocache e,
               pt_exist := pt_exist e, writable := writable e\<rparr>) v2;
       copy_entries n (Suc j) pte pte_new v3
     }
     else copy_entries n (Suc j) pte pte_new v
   }"

text \<open>\<open>pte_null\<close> says whether the pointer that the source tests, which is not the new one, is \<^verbatim>\<open>NULL\<close>.\<close>

fun copy_tables :: "'f vmenv \<Rightarrow> bool \<Rightarrow> nat \<Rightarrow> nat \<Rightarrow> nat \<Rightarrow> nat \<Rightarrow> vm \<Rightarrow> ((errno + unit) \<times> vm) outcome" where
  "copy_tables env pte_null 0 i old_pd new_pd v = Some (Inr (), v)"
| "copy_tables env pte_null (Suc n) i old_pd new_pd v = do {
     opd \<leftarrow> pdirs v old_pd;
     d \<leftarrow> load_cell opd i;
     if pd_exist d = 1 then do {
       (pte_new, v1) \<leftarrow> kmalloc_page v;
       if pte_null then Some (Inl ENOMEM, v1)
       else do {
         let v2 = v1\<lparr>ptabs := (ptabs v1)(pte_new \<mapsto> junk_table env pte_new)\<rparr>;
         npd \<leftarrow> pdirs v2 new_pd;
         nd \<leftarrow> store_cell npd i \<lparr>pd_exist = pd_exist d, addr_page_table = bits20 pte_new\<rparr>;
         v3 \<leftarrow> copy_entries PAGE_TABLE_ENTRY_NUM 0 (PADDR_TO_KVADDR (addr_page_table d)) pte_new (v2\<lparr>pdirs := (pdirs v2)(new_pd \<mapsto> nd)\<rparr>);
         copy_tables env False n (Suc i) old_pd new_pd v3
       }
     }
     else copy_tables env pte_null n (Suc i) old_pd new_pd v
   }"

definition as_copy ::
  "'f vmenv \<Rightarrow> bool \<Rightarrow> bool \<Rightarrow> addrspace \<Rightarrow> nat \<Rightarrow> nat \<Rightarrow> vm \<Rightarrow> ((errno + addrspace) \<times> vm) outcome" where
  "as_copy env mem_ok pte_null old old_pd new_pd v =
     (case as_create mem_ok of
        None \<Rightarrow> Some (Inl ENOMEM, v)
      | Some new \<Rightarrow>
          let new1 = new\<lparr>as_vbase1 := as_vbase1 old, as_npages1 := as_npages1 old, as_segmentSize1 := as_segmentSize1 old,
                as_segmentSize1_refine := as_segmentSize1_refine old, as_offset1 := as_offset1 old, as_permission1 := as_permission1 old,
                as_filez1 := as_filez1 old, as_vbase2 := as_vbase2 old, as_npages2 := as_npages2 old, as_segmentSize2 := as_segmentSize2 old,
                as_segmentSize2_refine := as_segmentSize2_refine old, as_offset2 := as_offset2 old, as_permission2 := as_permission2 old,
                as_filez2 := as_filez2 old\<rparr> in
          try_ok (copy_tables env pte_null PAGE_TABLE_ENTRY_NUM 0 old_pd new_pd v) (\<lambda>_ v1. Some (Inr new1, v1)))"

text \<open>\<^verbatim>\<open>as_destroy\<close> works on the tables of the current thread.\<close>

fun destroy_entries :: "nat \<Rightarrow> nat \<Rightarrow> nat \<Rightarrow> vm \<Rightarrow> vm outcome" where
  "destroy_entries 0 j pt v = Some v"
| "destroy_entries (Suc n) j pt v = do {
     t \<leftarrow> ptabs v pt;
     e \<leftarrow> load_cell t j;
     if pt_exist e = 1 then do {
       v1 \<leftarrow> free_kpages (PADDR_TO_KVADDR (physical_frame_number e)) v;
       v2 \<leftarrow> upd_pte pt j (\<lambda>x. x\<lparr>physical_frame_number := 0, pt_exist := 0, global := 0, valid := 0, writable := 0, nocache := 0\<rparr>) v1;
       destroy_entries n (Suc j) pt v2
     }
     else destroy_entries n (Suc j) pt v
   }"

fun destroy_tables :: "nat \<Rightarrow> nat \<Rightarrow> nat \<Rightarrow> vm \<Rightarrow> vm outcome" where
  "destroy_tables 0 i pd v = Some v"
| "destroy_tables (Suc n) i pd v = do {
     d \<leftarrow> pdirs v pd;
     e \<leftarrow> load_cell d i;
     if pd_exist e = 1 then do {
       let pt = PADDR_TO_KVADDR (addr_page_table e);
       v1 \<leftarrow> destroy_entries PAGE_TABLE_ENTRY_NUM 0 pt v;
       let v2 = v1\<lparr>pdirs := (pdirs v1)(pd \<mapsto> d[i := \<lparr>pd_exist = 0, addr_page_table = 0\<rparr>])\<rparr>;
       v3 \<leftarrow> free_kpages pt v2;
       destroy_tables n (Suc i) pd (v3\<lparr>ptabs := (ptabs v3)(pt := None)\<rparr>)
     }
     else destroy_tables n (Suc i) pd v
   }"

definition as_destroy :: "nat \<Rightarrow> vm \<Rightarrow> vm outcome" where
  "as_destroy pd v = destroy_tables PAGE_TABLE_ENTRY_NUM 0 pd v"

definition as_activate :: "vm \<Rightarrow> vm" where
  "as_activate v = v\<lparr>tlb := map (\<lambda>i. (TLBHI_INVALID i, 0)) [0..<NUM_TLB]\<rparr>"

text \<open>\<open>mem_ok\<close> is the success of \<^verbatim>\<open>kmalloc\<close> of 20 bytes for the name; \<^verbatim>\<open>strcpy\<close> writes the name and a 0.\<close>

definition as_define_region ::
  "bool \<Rightarrow> nat \<Rightarrow> nat \<Rightarrow> nat \<Rightarrow> nat option \<Rightarrow> nat \<Rightarrow> nat \<Rightarrow> string \<Rightarrow> addrspace \<Rightarrow> ((errno + unit) \<times> addrspace) outcome" where
  "as_define_region mem_ok vaddr sz offset vn file_size protectionFlag progname as = do {
     let sz1 = (sz + (vaddr AND 0xfff)) mod u32_max;
     let vbase = page_frame vaddr;
     let sz2 = page_frame ((sz1 + PAGE_SIZE - 1) mod u32_max);
     let npages = sz2 div PAGE_SIZE;
     kassert (mem_ok \<and> length progname < 20);
     let as1 = as\<lparr>as_progname := Some progname, as_v := vn\<rparr>;
     if as_vbase1 as1 = 0 then
       Some (Inr (), as1\<lparr>as_vbase1 := vbase, as_npages1 := npages, as_segmentSize1 := sz, as_segmentSize1_refine := sz2, as_offset1 := offset,
         as_permission1 := protectionFlag, as_filez1 := file_size\<rparr>)
     else if as_vbase2 as1 = 0 then
       Some (Inr (), as1\<lparr>as_vbase2 := vbase, as_npages2 := npages, as_segmentSize2 := sz, as_segmentSize2_refine := sz2, as_offset2 := offset,
         as_permission2 := protectionFlag, as_filez2 := file_size\<rparr>)
     else Some (Inl EUNIMP, as1)
   }"

definition DUMBVM_STACKPAGES :: nat where "DUMBVM_STACKPAGES = 12"

definition getpages :: "nat \<Rightarrow> vm \<Rightarrow> (nat \<times> vm) outcome" where
  "getpages n v = do {
     (a, spl, v1) \<leftarrow> getppages n 1 (vm_spl v) v;
     Some (a, v1\<lparr>vm_spl := spl\<rparr>)
   }"

definition as_prepare_load :: "addrspace \<Rightarrow> vm \<Rightarrow> ((errno + unit) \<times> addrspace \<times> vm) outcome" where
  "as_prepare_load as v = do {
     kassert (as_pbase1 as = 0 \<and> as_pbase2 as = 0 \<and> as_stackpbase as = 0);
     (p1, v1) \<leftarrow> getpages (as_npages1 as) v;
     let as1 = as\<lparr>as_pbase1 := p1\<rparr>;
     if p1 = 0 then Some (Inl ENOMEM, as1, v1)
     else do {
       (p2, v2) \<leftarrow> getpages (as_npages2 as) v1;
       let as2 = as1\<lparr>as_pbase2 := p2\<rparr>;
       if p2 = 0 then Some (Inl ENOMEM, as2, v2)
       else do {
         (p3, v3) \<leftarrow> getpages DUMBVM_STACKPAGES v2;
         let as3 = as2\<lparr>as_stackpbase := p3\<rparr>;
         Some (if p3 = 0 then Inl ENOMEM else Inr (), as3, v3)
       }
     }
   }"

definition as_complete_load :: "errno + unit" where
  "as_complete_load = Inr ()"

definition as_define_stack :: "nat" where
  "as_define_stack = USERSTACK"

definition HEAP_TOP :: nat where "HEAP_TOP = 0x70000000"

text \<open>
  \<^verbatim>\<open>sbrk\<close>: the new break is only in a local variable.  The second component is the value stored in
  \<^verbatim>\<open>*old_break\<close>, if one is stored.
\<close>

definition sbrk :: "nat \<Rightarrow> addrspace \<Rightarrow> (errno + unit) \<times> nat option" where
  "sbrk amount as =
     (let heap_start = (as_vbase2 as + as_segmentSize2_refine as) mod u32_max; heap_end = heap_start in
      if (heap_end + amount) mod u32_max < heap_start then (Inl EINVAL, None)
      else if (heap_start + amount) mod u32_max \<ge> HEAP_TOP then (Inl ENOMEM, None)
      else if amount mod 4 = 0 then (Inr (), Some heap_end)
      else (Inr (), None))"

end
