(* ===== verification/Vm_Props.thy ===== *)
theory Vm_Props
  imports Vm
begin

text \<open>Properties of the fault handler: the mapping of a page, faults on a mapped page, and the faults that stop the kernel.\<close>

section \<open>Addresses\<close>

lemmas vm_consts = PAGE_SIZE_def u32_max_def MIPS_KSEG0_def USERSTACK_def

lemma kvaddr_zero: "PADDR_TO_KVADDR 0 = MIPS_KSEG0" "MIPS_KSEG0 \<noteq> 0"
  by (simp_all add: PADDR_TO_KVADDR_def vm_consts)

lemma kvaddr_eq: "a < 2 ^ 31 \<Longrightarrow> PADDR_TO_KVADDR a = a + MIPS_KSEG0"
  by (simp add: PADDR_TO_KVADDR_def vm_consts)

lemma kvaddr_nonzero: "a < 2 ^ 31 \<Longrightarrow> PADDR_TO_KVADDR a \<noteq> 0"
  by (simp add: kvaddr_eq MIPS_KSEG0_def)

lemma paddr_kvaddr: "a < 2 ^ 31 \<Longrightarrow> KVADDR_TO_PADDR (PADDR_TO_KVADDR a) = a"
  by (simp add: kvaddr_eq KVADDR_TO_PADDR_def)

lemma bits20_kvaddr: "a < 2 ^ 31 \<Longrightarrow> bits20 (PADDR_TO_KVADDR a) = a mod 2 ^ 20"
proof -
  assume a: "a < 2 ^ 31"
  have "(a + 2048 * 2 ^ 20) mod 2 ^ 20 = a mod (2 ^ 20 :: nat)" by (rule mod_mult_self1)
  then show ?thesis using a by (simp add: kvaddr_eq bits20_def MIPS_KSEG0_def)
qed

lemma frame_index:
  assumes "coremap_ok v" "s < num_coremap_entries v"
  shows "PAGE_SIZE * (s + base_coremap_page v) < 2 ^ 31" "PADDR_TO_COREMAP v (PAGE_SIZE * (s + base_coremap_page v)) = s"
proof -
  have "(base_coremap_page v + num_coremap_entries v) * PAGE_SIZE \<le> 2 ^ 31" using assms(1) by (auto simp: coremap_ok_def dest: cm_okD(2))
  then show "PAGE_SIZE * (s + base_coremap_page v) < 2 ^ 31" using assms(2) by (simp add: PAGE_SIZE_def)
  then show "PADDR_TO_COREMAP v (PAGE_SIZE * (s + base_coremap_page v)) = s"
    by (simp add: PADDR_TO_COREMAP_def PAGE_SIZE_def)
qed

section \<open>A small machine\<close>

text \<open>Eight frames from the address 64K on, of which \<open>k\<close> are free, and a directory with no table.\<close>

definition small_vm :: "nat \<Rightarrow> vm" where
  "small_vm k = \<lparr>coremap = map (\<lambda>i. let e = free_entry (PAGE_SIZE * (i + 16)) in
       if i < 8 - k then e\<lparr>ce_startAddr := ce_selfAddr e, ce_length := 1, ce_pageState := CHR ''P'', ce_isKernel := 1\<rparr> else e) [0..<8],
     base_coremap_page = 16, num_coremap_free = k, frames = (\<lambda>_. zero_page),
     pdirs = [0x80020000 \<mapsto> replicate 1024 \<lparr>pd_exist = 0, addr_page_table = 0\<rparr>], ptabs = Map.empty, tlb = map (\<lambda>i. (TLBHI_INVALID i, 0)) [0..<NUM_TLB],
     swap_map = [], num_bitmap_entries = 0, num_bitmap_free = 0, swap_dev = \<lparr>d_blocks = 0, lh_sectors = [], lh_codes = (\<lambda>_. LHD_OK)\<rparr>, vm_spl = 0\<rparr>"

lemma small_vm_simps:
  "num_coremap_free (small_vm k) = k" "pdirs (small_vm k) = [0x80020000 \<mapsto> replicate 1024 \<lparr>pd_exist = 0, addr_page_table = 0\<rparr>]"
  "base_coremap_page (small_vm k) = 16" "length (coremap (small_vm k)) = 8" "tlb (small_vm k) = map (\<lambda>i. (TLBHI_INVALID i, 0)) [0..<NUM_TLB]"
  by (simp_all add: small_vm_def)

lemma small_vm_entry:
  "i < 8 \<Longrightarrow> coremap (small_vm k) ! i = (let e = free_entry (PAGE_SIZE * (i + 16)) in
     if i < 8 - k then e\<lparr>ce_startAddr := ce_selfAddr e, ce_length := 1, ce_pageState := CHR ''P'', ce_isKernel := 1\<rparr> else e)"
  by (simp add: small_vm_def)

lemma small_vm_free: "k \<le> 8 \<Longrightarrow> cm_free (coremap (small_vm k)) = {8 - k..<8}"
  by (auto simp: cm_free_def small_vm_simps small_vm_entry free_entry_def Let_def split: if_splits)

lemma small_vm_ok: "k \<le> 8 \<Longrightarrow> coremap_ok (small_vm k)"
  by (auto simp: coremap_ok_def cm_ok_def small_vm_free small_vm_simps small_vm_entry free_entry_def Let_def PAGE_SIZE_def cm_runs_def run_ok_def split: if_splits)

section \<open>No frame\<close>

lemma getppages_none: "num_coremap_free c = 0 \<Longrightarrow> getppages (Suc 0) kern spl c = Some (0, SPL_HIGH, c)"
  by (simp add: getppages_def coremapAllocateOneFrame_def)

lemma frame_zero_outside:
  assumes "coremap_ok v"
  shows "num_coremap_entries v \<le> PADDR_TO_COREMAP v 0"
proof -
  have b: "0 < base_coremap_page v" "(base_coremap_page v + num_coremap_entries v) * PAGE_SIZE \<le> 2 ^ 31"
    using assms by (auto simp: coremap_ok_def dest: cm_okD(1,2))
  then have "(- int (base_coremap_page v)) mod 2 ^ 32 = 2 ^ 32 - int (base_coremap_page v)"
    by (intro int_mod_pos_eq [of _ _ "-1"]) (auto simp: PAGE_SIZE_def)
  then show ?thesis using b by (simp add: PADDR_TO_COREMAP_def PAGE_SIZE_def)
qed

lemma read_page_no_frame:
  assumes "coremap_ok v" "num_coremap_free v = 0"
  shows "read_page env faultaddress memSize fileSize offset permission rw from_stack pages pde al swap idx (v, f) = None"
proof -
  have "frame_of (v\<lparr>vm_spl := SPL_HIGH\<rparr>) MIPS_KSEG0 = PADDR_TO_COREMAP v 0"
    by (simp add: frame_of_def KVADDR_TO_PADDR_def PADDR_TO_COREMAP_def)
  then have "upd_coremap (frame_of (v\<lparr>vm_spl := SPL_HIGH\<rparr>) MIPS_KSEG0) g (v\<lparr>vm_spl := SPL_HIGH\<rparr>) = None" for g
    using frame_zero_outside [OF assms(1)] by (simp add: upd_coremap_def load_cell_def)
  then show ?thesis by (simp add: read_page_def getppages_none [OF assms(2)] kvaddr_zero Let_def)
qed

text \<open>
  C39. With no free frame a fault on a page that is not in memory never evicts a page: the run stops at an
  access outside the map of frames, because the test for 0 is made on the kernel address of the frame.
\<close>

theorem page_fault_without_frame_stops:
  assumes "coremap_ok v" "num_coremap_free v = 0" "pdirs v pde = Some pd" "EXTRACT_PAGE_DIRECTORY faultaddress < length pd"
    "pd_exist (pd ! EXTRACT_PAGE_DIRECTORY faultaddress) \<noteq> 1 \<or>
     (\<exists>t. ptabs v (PADDR_TO_KVADDR (addr_page_table (pd ! EXTRACT_PAGE_DIRECTORY faultaddress))) = Some t \<and>
        EXTRACT_PAGE_TABLE faultaddress < length t \<and> pt_exist (t ! EXTRACT_PAGE_TABLE faultaddress) \<noteq> 1)"
  shows "tlb_handling env faultaddress memSize fileSize offset permission rw from_stack pages pde (v, f) = None"
  using assms(3-5) by (auto simp: tlb_handling_def Let_def read_page_no_frame [OF assms(1,2)])

theorem page_fault_without_frame_stops_witness:
  "tlb_handling \<lparr>prog_open = Inr (), prog_read = (\<lambda>_. None), prog_write = (\<lambda>_. None), junk_table = (\<lambda>_. []), tlb_slot = 8\<rparr> 0x7ffff000 0 0 0 6 UIO_WRITE True 1
     0x80020000 (small_vm 0, ()) = None"
  by (rule page_fault_without_frame_stops [of "small_vm 0" _ "replicate 1024 \<lparr>pd_exist = 0, addr_page_table = 0\<rparr>"])
    (simp_all add: small_vm_simps small_vm_ok EXTRACT_PAGE_DIRECTORY_def)

section \<open>A page is mapped\<close>

lemma cm_free_upd:
  assumes "\<And>e. ce_pageState (g e) = ce_pageState e"
  shows "cm_free (cm[i := g (cm ! i)]) = cm_free cm"
  using assms by (cases "i < length cm") (auto simp: cm_free_def nth_list_update)

lemma upd_coremap_in: "i < num_coremap_entries v \<Longrightarrow> upd_coremap i g v = Some (v\<lparr>coremap := (coremap v)[i := g (coremap v ! i)]\<rparr>)"
  by (simp add: upd_coremap_def)

lemma upd_pte_in: "ptabs v a = Some t \<Longrightarrow> j < length t \<Longrightarrow> upd_pte a j g v = Some (v\<lparr>ptabs := (ptabs v)(a \<mapsto> t[j := g (t ! j)])\<rparr>)"
  by (simp add: upd_pte_def)

text \<open>The frame for a fault: the first free one; only the map of frames changes.\<close>

lemma getppages_one:
  assumes ok: "coremap_ok (v :: vm)" and free: "0 < num_coremap_free v"
  obtains s cm n where "s \<in> cm_free (coremap v)" "\<forall>t < s. t \<notin> cm_free (coremap v)" "s < num_coremap_entries v" "length cm = num_coremap_entries v"
    "getppages (Suc 0) kern spl v = Some (PAGE_SIZE * (s + base_coremap_page v), spl, v\<lparr>coremap := cm, num_coremap_free := n\<rparr>)"
    "cm_free cm = cm_free (coremap v) - {s}"
proof -
  obtain s v' where s: "coremapAllocateOneFrame kern v = Some (PAGE_SIZE * (s + base_coremap_page v), v')" "allocated s 1 v v'"
    "\<forall>t < s. t \<notin> cm_free (coremap v)"
    using allocate_one_spec [OF ok, of kern] free by auto
  then have f: "s \<in> cm_free (coremap v)" "s < num_coremap_entries v" "length (coremap v') = num_coremap_entries v" "cm_free (coremap v') = cm_free (coremap v) - {s}"
    by (auto simp: allocated_def cm_free_def)
  have "v' = v\<lparr>coremap := coremap v', num_coremap_free := num_coremap_free v'\<rparr>"
    using s(1) free by (auto simp: coremapAllocateOneFrame_def Let_def bind_eq_Some_conv)
  moreover have "0 < base_coremap_page v" using ok by (auto simp: coremap_ok_def dest: cm_okD(1))
  ultimately have "getppages (Suc 0) kern spl v =
      Some (PAGE_SIZE * (s + base_coremap_page v), spl, v\<lparr>coremap := coremap v', num_coremap_free := num_coremap_free v'\<rparr>)"
    using s(1) by (simp add: getppages_def PAGE_SIZE_def)
  then show thesis using that f s(3) by blast
qed

lemma map_page_table_old:
  assumes "pdirs v pde = Some pd" "EXTRACT_PAGE_DIRECTORY vaddr < length pd" "ptabs v pte = Some t" "EXTRACT_PAGE_TABLE vaddr < length t"
    "pte = PADDR_TO_KVADDR (addr_page_table (pd ! EXTRACT_PAGE_DIRECTORY vaddr))" "i = PADDR_TO_COREMAP v (KVADDR_TO_PADDR p)" "i < num_coremap_entries v"
  shows "map_page_table None p vaddr flag False pde v = Some (Inr (), v\<lparr>
    coremap := (coremap v)[i := (coremap v ! i)\<lparr>ce_vaddr := vaddr, ce_pt_addr := pte, ce_pd_addr := pde\<rparr>],
    ptabs := (ptabs v)(pte \<mapsto> t[EXTRACT_PAGE_TABLE vaddr := (t ! EXTRACT_PAGE_TABLE vaddr)\<lparr>physical_frame_number := bits20 p, global := 0, valid := 1,
      nocache := 0, pt_exist := 1, swapped := 0, writable := (if flag AND PF_W \<noteq> 0 then 1 else 0)\<rparr>]),
    pdirs := (pdirs v)(pde \<mapsto> pd[EXTRACT_PAGE_DIRECTORY vaddr := \<lparr>pd_exist = 1, addr_page_table = bits20 pte\<rparr>])\<rparr>)"
  using assms by (simp add: map_page_table_def Let_def upd_pte_in upd_coremap_in)

text \<open>A fault on the stack or the heap, on a page that has a table but is not in memory.\<close>

lemma stack_fault_read_page:
  assumes ok: "coremap_ok v" "0 < num_coremap_free v" and pd: "pdirs v pde = Some pd" "EXTRACT_PAGE_DIRECTORY a < length pd"
    and pt: "pte = PADDR_TO_KVADDR (addr_page_table (pd ! EXTRACT_PAGE_DIRECTORY a))" "ptabs v pte = Some t" "EXTRACT_PAGE_TABLE a < length t"
  obtains s v' e where "s \<in> cm_free (coremap v)" "\<forall>k < s. k \<notin> cm_free (coremap v)" "cm_free (coremap v') = cm_free (coremap v) - {s}"
    "read_page env a ms fs off perm rw True pages pde False sw idx (v, f) =
       Some (Inr (PAGE_SIZE * (s + base_coremap_page v) OR TLBLO_DIRTY OR TLBLO_VALID), v', f)"
    "ptabs v' = (ptabs v)(pte \<mapsto> t[EXTRACT_PAGE_TABLE a := e])" "pt_exist e = 1" "valid e = 1" "writable e = 1"
    "physical_frame_number e = PAGE_SIZE * (s + base_coremap_page v) mod 2 ^ 20" "frames v' = frames v" "tlb v' = tlb v" "vm_spl v' = vm_spl v"
proof -
  obtain s cm n where s: "s \<in> cm_free (coremap v)" "\<forall>k < s. k \<notin> cm_free (coremap v)" "s < num_coremap_entries v" "length cm = num_coremap_entries v"
    "getppages (Suc 0) 0 (vm_spl v) v = Some (PAGE_SIZE * (s + base_coremap_page v), vm_spl v, v\<lparr>coremap := cm, num_coremap_free := n\<rparr>)"
    "cm_free cm = cm_free (coremap v) - {s}"
    by (rule getppages_one [OF ok])
  let ?p = "PAGE_SIZE * (s + base_coremap_page v)" and ?r = "\<lambda>e :: coremap_entry. e\<lparr>ce_reference := 1, ce_dirty := 0\<rparr>"
  let ?m = "\<lambda>e :: coremap_entry. e\<lparr>ce_vaddr := a, ce_pt_addr := pte, ce_pd_addr := pde\<rparr>"
  define cm1 where "cm1 = cm[s := ?r (cm ! s)]"
  define v3 where "v3 = v\<lparr>coremap := cm1, num_coremap_free := n\<rparr>"
  note p = frame_index [OF ok(1) s(3)]
  have i: "frame_of w (PADDR_TO_KVADDR ?p) = s" "PADDR_TO_COREMAP w (KVADDR_TO_PADDR (PADDR_TO_KVADDR ?p)) = s"
    if "base_coremap_page w = base_coremap_page v" for w :: vm
    using p that by (simp_all add: frame_of_def paddr_kvaddr PADDR_TO_COREMAP_def)
  have u: "upd_coremap s ?r (v\<lparr>coremap := cm, num_coremap_free := n, vm_spl := vm_spl v\<rparr>) = Some v3"
    using s(3,4) by (simp add: upd_coremap_in v3_def cm1_def)
  have six: "(6 :: nat) AND PF_W \<noteq> 0" by (simp add: PF_W_def)
  have m: "map_page env (PADDR_TO_KVADDR ?p) a 6 False pde v3 = Some (Inr (), v3\<lparr>coremap := cm1[s := ?m (cm1 ! s)],
      ptabs := (ptabs v)(pte \<mapsto> t[EXTRACT_PAGE_TABLE a := (t ! EXTRACT_PAGE_TABLE a)\<lparr>physical_frame_number := bits20 (PADDR_TO_KVADDR ?p), global := 0, valid := 1,
        nocache := 0, pt_exist := 1, swapped := 0, writable := 1\<rparr>]),
      pdirs := (pdirs v)(pde \<mapsto> pd[EXTRACT_PAGE_DIRECTORY a := \<lparr>pd_exist = 1, addr_page_table = bits20 pte\<rparr>])\<rparr>)" (is "_ = Some (_, ?v')")
    using map_page_table_old [of v3 pde pd a pte t s "PADDR_TO_KVADDR ?p" 6] pd pt s(3,4) i six
    by (simp add: map_page_def v3_def cm1_def)
  have "read_page env a ms fs off perm rw True pages pde False sw idx (v, f) = Some (Inr (?p OR TLBLO_DIRTY OR TLBLO_VALID), ?v', f)"
    using s(5) u m kvaddr_nonzero [OF p(1)] by (simp add: read_page_def Let_def i paddr_kvaddr [OF p(1)])
  moreover have "cm_free (coremap ?v') = cm_free (coremap v) - {s}"
    using s(6) cm_free_upd [of ?r cm s] cm_free_upd [of ?m cm1 s] by (simp add: cm1_def)
  ultimately show thesis using that [of s ?v'] s(1,2) bits20_kvaddr [OF p(1)] by (simp add: v3_def)
qed

lemma TLB_Probe_lt: "TLB_Probe a v = Some i \<Longrightarrow> i < length (tlb v)"
  by (auto simp: TLB_Probe_def find_Some_iff)

text \<open>
  C37. A read or write fault on a stack or heap page that is not in memory, with a free frame and a table for the
  page, returns 0 and restores the interrupt level.  The first free frame is taken, the TLB gets a writable
  entry for the page with that frame, and the entry of the table names the frame.  No frame's content changes.
\<close>

theorem stack_fault_maps_fresh_frame:
  assumes "coremap_ok v" "0 < num_coremap_free v" "faulttype = VM_FAULT_READ \<or> faulttype = VM_FAULT_WRITE" "tlb_slot env < length (tlb v)"
    "(as_vbase2 as + as_segmentSize2_refine as) mod u32_max \<le> page_frame faultaddr" "page_frame faultaddr < USERSTACK"
    "pdirs v pde = Some pd" "EXTRACT_PAGE_DIRECTORY (page_frame faultaddr) < length pd" "pd_exist (pd ! EXTRACT_PAGE_DIRECTORY (page_frame faultaddr)) = 1"
    "ptabs v (PADDR_TO_KVADDR (addr_page_table (pd ! EXTRACT_PAGE_DIRECTORY (page_frame faultaddr)))) = Some t"
    "EXTRACT_PAGE_TABLE (page_frame faultaddr) < length t" "pt_exist (t ! EXTRACT_PAGE_TABLE (page_frame faultaddr)) \<noteq> 1"
  shows "\<exists>s v' e. s \<in> cm_free (coremap v) \<and> (\<forall>k < s. k \<notin> cm_free (coremap v)) \<and>
    vm_fault env faulttype faultaddr (Some as) pde pid (v, f, ps) = Some (FaultRet (Inr ()), v', f, ps) \<and>
    cm_free (coremap v') = cm_free (coremap v) - {s} \<and> vm_spl v' = vm_spl v \<and> frames v' = frames v \<and>
    (page_frame faultaddr, PAGE_SIZE * (s + base_coremap_page v) OR TLBLO_DIRTY OR TLBLO_VALID) \<in> set (tlb v') \<and>
    ptabs v' = (ptabs v)(PADDR_TO_KVADDR (addr_page_table (pd ! EXTRACT_PAGE_DIRECTORY (page_frame faultaddr))) \<mapsto>
      t[EXTRACT_PAGE_TABLE (page_frame faultaddr) := e]) \<and>
    pt_exist e = 1 \<and> valid e = 1 \<and> writable e = 1 \<and> physical_frame_number e = PAGE_SIZE * (s + base_coremap_page v) mod 2 ^ 20"
proof -
  let ?a = "page_frame faultaddr" and ?rw = "if faulttype = VM_FAULT_READ then UIO_READ else UIO_WRITE" and ?w = "v\<lparr>vm_spl := SPL_HIGH\<rparr>"
  let ?off = "(as_offset1 as + (?a - (?a AND 0xfff00000))) mod u32_max" and ?j = "EXTRACT_PAGE_TABLE (page_frame faultaddr)"
  have w: "coremap_ok ?w" "0 < num_coremap_free ?w" "pdirs ?w pde = Some pd"
    "ptabs ?w (PADDR_TO_KVADDR (addr_page_table (pd ! EXTRACT_PAGE_DIRECTORY ?a))) = Some t"
    using assms(1,2,7,10) by (simp_all add: coremap_ok_def)
  obtain s v1 e where r: "s \<in> cm_free (coremap ?w)" "\<forall>k < s. k \<notin> cm_free (coremap ?w)" "cm_free (coremap v1) = cm_free (coremap ?w) - {s}"
    "read_page env ?a (as_segmentSize1 as) (as_filez1 as) ?off (as_permission1 as) ?rw True (as_npages1 as) pde False (swapped (t ! ?j) = 1)
       (physical_frame_number (t ! ?j)) (?w, f) = Some (Inr (PAGE_SIZE * (s + base_coremap_page ?w) OR TLBLO_DIRTY OR TLBLO_VALID), v1, f)"
    "ptabs v1 = (ptabs ?w)(PADDR_TO_KVADDR (addr_page_table (pd ! EXTRACT_PAGE_DIRECTORY ?a)) \<mapsto> t[?j := e])" "pt_exist e = 1" "valid e = 1" "writable e = 1"
    "physical_frame_number e = PAGE_SIZE * (s + base_coremap_page ?w) mod 2 ^ 20" "frames v1 = frames ?w" "tlb v1 = tlb ?w"
    by (rule stack_fault_read_page [OF w(1,2) w(3) assms(8) HOL.refl w(4) assms(11)]) blast
  let ?lo = "PAGE_SIZE * (s + base_coremap_page v) OR TLBLO_DIRTY OR TLBLO_VALID"
  let ?i = "case TLB_Probe ?a v1 of Some i \<Rightarrow> i | None \<Rightarrow> tlb_slot env"
  have h: "tlb_handling env ?a (as_segmentSize1 as) (as_filez1 as) (as_offset1 as) (as_permission1 as) ?rw True (as_npages1 as) pde (?w, f) = Some (Inr ?lo, v1, f)"
    using assms(7-12) r(4) by (simp add: tlb_handling_def Let_def)
  have "?i < length (tlb v1)" using assms(4) TLB_Probe_lt [of ?a v1] r(11) by (auto split: option.split)
  then have "(?a, ?lo) \<in> set ((tlb v1)[?i := (?a, ?lo)])" by (rule set_update_memI)
  moreover have "vm_fault env faulttype faultaddr (Some as) pde pid (v, f, ps) =
      Some (FaultRet (Inr ()), (TLB_Write ?a ?lo ?i v1)\<lparr>vm_spl := vm_spl v\<rparr>, f, ps)"
    using assms(3,5,6) h by (auto simp: vm_fault_def Let_def segmentation_handler_def VM_FAULT_READ_def VM_FAULT_WRITE_def VM_FAULT_READONLY_def)
  ultimately show ?thesis using r by (intro exI [of _ s] exI [of _ "(TLB_Write ?a ?lo ?i v1)\<lparr>vm_spl := vm_spl v\<rparr>"] exI [of _ e]) (simp add: TLB_Write_def)
qed

text \<open>The small machine with a table, in the frame at 0x11000, for the upper end of user memory.\<close>

definition small_pd :: "page_directory_entry list" where
  "small_pd = (replicate 1024 \<lparr>pd_exist = 0, addr_page_table = 0\<rparr>)[511 := \<lparr>pd_exist = 1, addr_page_table = 0x11000\<rparr>]"

definition small_pt :: "page_table_entry list" where
  "small_pt = replicate 1024 \<lparr>swapped = 0, pt_exist = 0, global = 0, valid = 0, writable = 0, nocache = 0, physical_frame_number = 0\<rparr>"

definition small_vm_table :: vm where
  "small_vm_table = (small_vm 4)\<lparr>pdirs := [0x80020000 \<mapsto> small_pd], ptabs := [0x80011000 \<mapsto> small_pt]\<rparr>"

lemma small_vm_table_ok: "coremap_ok small_vm_table" "0 < num_coremap_free small_vm_table" "length (tlb small_vm_table) = 64" "base_coremap_page small_vm_table = 16"
  "cm_free (coremap small_vm_table) = {4..<8}" "num_coremap_entries small_vm_table = 8"
  using small_vm_ok [of 4] small_vm_free [of 4] by (simp_all add: small_vm_table_def coremap_ok_def small_vm_simps NUM_TLB_def)

lemma small_page: "page_frame 0x7ffffff0 = 0x7ffff000" "EXTRACT_PAGE_DIRECTORY 0x7ffff000 = 511" "EXTRACT_PAGE_TABLE 0x7ffff000 = 1023"
  by (simp_all add: page_frame_def EXTRACT_PAGE_DIRECTORY_def EXTRACT_PAGE_TABLE_def)

lemma small_tables: "pdirs small_vm_table 0x80020000 = Some small_pd" "length small_pd = 1024" "small_pd ! 511 = \<lparr>pd_exist = 1, addr_page_table = 0x11000\<rparr>"
  "ptabs small_vm_table (PADDR_TO_KVADDR 0x11000) = Some small_pt" "length small_pt = 1024" "pt_exist (small_pt ! 1023) = 0"
  by (simp_all add: small_vm_table_def small_pd_def small_pt_def PADDR_TO_KVADDR_def vm_consts)

definition small_env :: "unit vmenv" where
  "small_env = \<lparr>prog_open = Inr (), prog_read = (\<lambda>_. None), prog_write = (\<lambda>_. None), junk_table = (\<lambda>_. []), tlb_slot = 8\<rparr>"

definition small_as :: addrspace where
  "small_as = (the (as_create True))\<lparr>as_vbase1 := 0x400000, as_npages1 := 1, as_vbase2 := 0x10000000, as_npages2 := 1, as_segmentSize2_refine := 0x1000\<rparr>"

theorem stack_fault_maps_fresh_frame_witness:
  "\<forall>ps0. \<exists>s v'. s \<in> {4..<8} \<and> vm_fault small_env VM_FAULT_WRITE 0x7ffffff0 (Some small_as) 0x80020000 1 (small_vm_table, (), ps0) = Some (FaultRet (Inr ()), v', (), ps0) \<and>
     cm_free (coremap v') = {4..<8} - {s}"
proof
  fix ps0
  show "\<exists>s v'. s \<in> {4..<8} \<and> vm_fault small_env VM_FAULT_WRITE 0x7ffffff0 (Some small_as) 0x80020000 1 (small_vm_table, (), ps0) = Some (FaultRet (Inr ()), v', (), ps0) \<and>
     cm_free (coremap v') = {4..<8} - {s}"
    using stack_fault_maps_fresh_frame [of small_vm_table VM_FAULT_WRITE small_env small_as "0x7ffffff0" "0x80020000" small_pd small_pt 1 "()" ps0]
    unfolding small_page small_vm_table_ok(5)
    by (auto simp: small_vm_table_ok(1-3) small_tables small_env_def small_as_def as_create_def vm_consts)
qed

section \<open>A fault on a mapped page\<close>



section \<open>The end of a segment\<close>

text \<open>
  C40. The first page behind a segment passes the check of the regions, which includes the upper end, but belongs
  to no case of \<^verbatim>\<open>vm_fault\<close>: the handler goes on with a result that was never set.
\<close>

theorem fault_at_segment_top_undefined:
  assumes "faulttype = VM_FAULT_READ \<or> faulttype = VM_FAULT_WRITE" "as_vbase1 as \<le> page_frame faultaddr"
    "page_frame faultaddr = (as_vbase1 as + as_npages1 as * PAGE_SIZE) mod u32_max" "page_frame faultaddr < as_vbase2 as"
    "page_frame faultaddr < (as_vbase2 as + as_segmentSize2_refine as) mod u32_max"
  shows "vm_fault env faulttype faultaddr (Some as) pde pid (v, f, ps) = None"
  using assms
  by (auto simp: vm_fault_def Let_def segmentation_handler_def VM_FAULT_READ_def VM_FAULT_WRITE_def VM_FAULT_READONLY_def)

theorem fault_at_segment_top_undefined_witness:
  "\<forall>ps0. vm_fault small_env VM_FAULT_READ 0x401234 (Some small_as) 0x80020000 1 (small_vm_table, (), ps0) = None"
  by (rule allI, rule fault_at_segment_top_undefined) (simp_all add: small_as_def as_create_def page_frame_def vm_consts)

end
