(* ===== verification/Spec2Isabelle.thy ===== *)
theory Spec2Isabelle
  imports KArray KBitmap Process Libc_Printf Kheap_Props Sfs_Props Vm_Props
begin

text \<open>
  \<^bold>\<open>A verification library for an OS/161 kernel.\<close>

  The program is the teaching kernel OS/161 with the solutions of a course: threads and synchronization,
  processes, virtual memory with paging, the file system SFS, and the C library that kernel and user programs
  share.  Paths below are relative to \<^verbatim>\<open>src/os161\<close>.

  \<^bold>\<open>How C becomes HOL.\<close>  \<^verbatim>\<open>Kernel_Prelude\<close> has the vocabulary.  A C function is a HOL function of the same name
  that takes the state it uses and returns it updated.  The result type \<open>'a outcome\<close> is an option: \<open>None\<close> is a
  run that stops, at a failed \<^verbatim>\<open>assert\<close>, at a \<^verbatim>\<open>panic\<close>, or at an access outside an object or to an
  uninitialised value.  A function that returns an error number has a result in \<open>errno + 'a\<close>.  The success of
  \<^verbatim>\<open>kmalloc\<close>, where a component only asks for memory, is an argument.  Integers are \<open>nat\<close> or \<open>int\<close> with the wrap
  written out (\<open>mod 2 ^ 32\<close>, \<open>wrap32\<close>), or words where bits matter.  Structs are records, and pointers to them are
  addresses in a map from addresses to records.

  \<^bold>\<open>Parts and theories.\<close>

  \<^item> \<^verbatim>\<open>KArray\<close>, \<^verbatim>\<open>KBitmap\<close>, \<^verbatim>\<open>KQueue\<close>: the containers \<^verbatim>\<open>kern/lib/array.c\<close>, \<^verbatim>\<open>bitmap.c\<close>, \<^verbatim>\<open>queue.c\<close>.  Each has
    an abstraction (a list of pointers, a set of used indices, a list in queue order) and a locale for what its
    users rely on (\<open>dyn_array\<close>, \<open>bit_allocator\<close>, \<open>fifo\<close>), interpreted on the operations of the code.  The
    lemmas show that the operations refine those of the abstraction and when they run out of memory.
  \<^item> \<^verbatim>\<open>Scheduler\<close>, \<^verbatim>\<open>Threads\<close>: \<^verbatim>\<open>kern/thread/scheduler.c\<close> on a queue and \<^verbatim>\<open>kern/thread/thread.c\<close> on the
    scheduler and two arrays.  A context switch is two halves, before and after the other threads ran; waiting
    for an interrupt is a list of handlers, one for each return of \<^verbatim>\<open>cpu_idle\<close>.  \<^verbatim>\<open>Threads_Inv\<close> has the invariant
    that each thread is in exactly one place (running, ready, asleep, zombie), \<^verbatim>\<open>Thread_Props\<close> the step relation,
    that the invariant holds in each reachable state, wake-up, and round-robin order.
  \<^item> \<^verbatim>\<open>Synch\<close>: \<^verbatim>\<open>kern/thread/synch.c\<close>.  A blocking call is split at \<^verbatim>\<open>thread_sleep\<close>, and a continuation in the state
    says where a thread goes on.  \<^verbatim>\<open>Synch_Inv\<close> and \<^verbatim>\<open>Synch_Props\<close> show, over all interleavings, that no wake-up is
    lost, that locks exclude each other, and what condition variables do.
  \<^item> \<^verbatim>\<open>Process\<close>: \<^verbatim>\<open>kern/thread/process.c\<close> and the system calls \<^verbatim>\<open>_exit\<close>, \<^verbatim>\<open>waitpid\<close>, \<^verbatim>\<open>getpid\<close>, \<^verbatim>\<open>fork\<close> on
    semaphores and an array of processes.  Shown: the exit code reaches the parent, and which ids are given out.
  \<^item> \<^verbatim>\<open>Libc_String\<close>, \<^verbatim>\<open>Libc_Printf\<close>: the string and memory functions of \<^verbatim>\<open>lib/libc\<close> and the formatter
    \<^verbatim>\<open>__printf.c\<close> with \<^verbatim>\<open>snprintf.c\<close> and the console output of \<^verbatim>\<open>kern/lib/kprintf.c\<close>.  The formatter sends its
    output to a \<open>sink\<close>, a locale with two interpretations.  Shown: equivalence with a rendering function, bounds of
    \<^verbatim>\<open>snprintf\<close>, the round trip through \<^verbatim>\<open>atoi\<close>.
  \<^item> \<^verbatim>\<open>Kheap\<close>, \<^verbatim>\<open>Kheap_Inv\<close>, \<^verbatim>\<open>Kheap_Props\<close>: \<^verbatim>\<open>kern/lib/kheap.c\<close>, with free lists threaded through memory.  Shown:
    live blocks never overlap, blocks are long enough, every call returns.
  \<^item> \<^verbatim>\<open>Uio\<close>, \<^verbatim>\<open>Lhd\<close>, \<^verbatim>\<open>Sfs_Disk\<close>, \<^verbatim>\<open>Vnode\<close>, \<^verbatim>\<open>Sfs\<close>: transfers (\<^verbatim>\<open>kern/userprog/uio.c\<close>), the disk driver
    (\<^verbatim>\<open>kern/dev/lamebus/lhd.c\<close>), the structures on disk and block I/O, reference counts, and \<^verbatim>\<open>kern/fs/sfs\<close>.
    \<^verbatim>\<open>Sfs_Inv\<close>, \<^verbatim>\<open>Sfs_File\<close>, \<^verbatim>\<open>Sfs_Dir\<close>, \<^verbatim>\<open>Sfs_Trunc\<close> show what files and directories contain after each
    operation; \<^verbatim>\<open>Sfs_Props\<close> interprets the contract \<open>byte_file\<close> and has the properties of whole files.
  \<^item> \<^verbatim>\<open>Coremap\<close>: \<^verbatim>\<open>kern/vm/coremap.c\<close> with \<^verbatim>\<open>getppages\<close>, \<^verbatim>\<open>alloc_kpages\<close> and \<^verbatim>\<open>free_kpages\<close> of
    \<^verbatim>\<open>kern/vm/addrspace.c\<close>.  Shown: allocated runs are disjoint and are released exactly; what happens when free
    frames are scattered.
  \<^item> \<^verbatim>\<open>Vm\<close>, \<^verbatim>\<open>Vm_Props\<close>: page tables, swap, replacement, the fault handler and address spaces (\<^verbatim>\<open>kern/vm\<close>,
    \<^verbatim>\<open>kern/userprog/sys_sbrk.c\<close>) over the frames of \<^verbatim>\<open>Coremap\<close>, the disk of \<^verbatim>\<open>Lhd\<close> and the processes of \<^verbatim>\<open>Process\<close>.
    Shown: a fault on the stack maps the first free frame, a later fault finds it, and two faults at which the
    handler does not work.  Swapping, replacement, \<^verbatim>\<open>as_copy\<close> and \<^verbatim>\<open>as_destroy\<close> have definitions and no theorem.

  \<^bold>\<open>Interaction.\<close>  Threads run on the scheduler's queue and sleep in arrays; semaphores and locks use
  \<^verbatim>\<open>thread_sleep\<close> and \<^verbatim>\<open>thread_wakeup\<close>; processes wait on semaphores.  SFS allocates blocks from a bitmap and
  moves them through uios to the disk driver.  A fault takes frames from the map of frames and transfers
  pages with uios.  In the theories of the heap and of the containers the memory below is an argument.

  \<^bold>\<open>Loops, fuel and bounds.\<close>  Loops are recursive functions with termination proofs.  Where a loop follows
  pointers or may not end it is a \<^verbatim>\<open>partial_function\<close> into options, and that it returns is part of the theorems.
  The only fuel is that of \<^verbatim>\<open>q_addtail\<close> and \<^verbatim>\<open>q_grow\<close>, which call each other: two levels are enough, because a
  queue that has just grown does not grow again.  Invariants bound sizes where the code relies on it: disks have
  fewer than \<open>2 ^ 22\<close> sectors, and frames lie below \<open>2 ^ 31\<close>.

  \<^bold>\<open>Assumptions.\<close>  Properties of files are for a disk without errors, except the one on media errors.
  Calls of SFS and of the heap run one at a time.  The registers saved by a context switch, and calls of the
  thread system into the VM and the file system, are recorded as effects.  The program file of a process,
  the contents of fresh memory and the slot of \<^verbatim>\<open>TLB_Random\<close> are parameters of the fault handler.

  \<^bold>\<open>Not modelled.\<close>  The VFS layer above SFS (\<^verbatim>\<open>kern/fs/vfs\<close> but \<^verbatim>\<open>vnode.c\<close>), which dispatches through function
  pointers; copies to and from user memory, which recover from processor faults with \<^verbatim>\<open>setjmp\<close>; \<^verbatim>\<open>loadelf.c\<close>,
  \<^verbatim>\<open>runprogram.c\<close> and \<^verbatim>\<open>sys_execv.c\<close>; assembly, traps and interrupts under \<^verbatim>\<open>kern/arch\<close>; drivers other than
  the disk; \<^verbatim>\<open>dumbvm.c\<close>, which is not compiled with \<^verbatim>\<open>kern/vm\<close>; \<^verbatim>\<open>swap_bootstrap\<close>; the lock and the shutdown
  around \<^verbatim>\<open>kprintf\<close> and \<^verbatim>\<open>panic\<close>; the user-level \<^verbatim>\<open>malloc\<close>; the boot sequence, the menu, the exercises under
  \<^verbatim>\<open>kern/asst1\<close>, tests and user programs.
\<close>

end
